(* ===== verification/Go_Prelude.thy ===== *)
theory Go_Prelude
  imports Main "HOL-Library.Word"
begin

unbundle bit_operations_syntax

text \<open>
  Shared vocabulary of the development: the Go integer types, the three ways a Go call can
  end (return, panic, not return), slices with their bounds checks, the little-endian
  encodings of \<^verbatim>\<open>encoding/binary\<close>, and the generic lemmas on words and lists that the
  component theories use.
\<close>

section \<open>Machine types\<close>

type_synonym byte = "8 word"
type_synonym bytes = "byte list"
type_synonym u16 = "16 word"
type_synonym u32 = "32 word"
type_synonym u64 = "64 word"

text \<open>
  Go's \<^verbatim>\<open>int\<close> and \<^verbatim>\<open>int64\<close> (the development fixes a 64-bit platform) are integers
  kept in range by \<open>wrap64\<close>, the two's complement reduction that every Go arithmetic
  operation on them performs.
\<close>

definition wrap64 :: "int \<Rightarrow> int" where
  "wrap64 x = (x + 2 ^ 63) mod 2 ^ 64 - 2 ^ 63"

definition int64_range :: "int \<Rightarrow> bool" where
  "int64_range x \<longleftrightarrow> - (2 ^ 63) \<le> x \<and> x < 2 ^ 63"

section \<open>How a Go call ends\<close>

datatype go_panic = PanicMsg string | SliceBounds | IndexBounds

text \<open>
  \<open>Ret x\<close>: the call returned \<open>x\<close>. \<open>Panics p\<close>: the goroutine panicked.
  \<open>Hangs\<close>: the call never returns (a blocked foreign call, or a loop that spins).
\<close>

datatype 'a go = Ret 'a | Panics go_panic | Hangs

primrec go_bind :: "'a go \<Rightarrow> ('a \<Rightarrow> 'b go) \<Rightarrow> 'b go" where
  "go_bind (Ret x) f = f x"
| "go_bind (Panics p) f = Panics p"
| "go_bind Hangs f = Hangs"

primrec no_panic :: "'a go \<Rightarrow> bool" where
  "no_panic (Ret x) = True"
| "no_panic (Panics p) = False"
| "no_panic Hangs = True"

text \<open>A loop modelled with \<open>option\<close> (\<open>None\<close> is not returning) as a Go outcome.\<close>

primrec of_loop :: "'a option \<Rightarrow> 'a go" where
  "of_loop None = Hangs"
| "of_loop (Some x) = Ret x"

section \<open>Slices\<close>

text \<open>\<^verbatim>\<open>xs[lo:hi]\<close> for a slice whose capacity is its length.\<close>

definition go_slice :: "'a list \<Rightarrow> int \<Rightarrow> int \<Rightarrow> 'a list go" where
  "go_slice xs lo hi =
     (if 0 \<le> lo \<and> lo \<le> hi \<and> hi \<le> int (length xs)
      then Ret (take (nat (hi - lo)) (drop (nat lo) xs)) else Panics SliceBounds)"

text \<open>The builtin \<^verbatim>\<open>copy(dst, src)\<close>: the new contents of \<^verbatim>\<open>dst\<close>.\<close>

definition go_copy :: "'a list \<Rightarrow> 'a list \<Rightarrow> 'a list" where
  "go_copy dst src = take (length dst) src @ drop (length src) dst"

text \<open>Writing \<open>ws\<close> back over the sub-slice of \<open>xs\<close> that starts at \<open>n\<close>.\<close>

definition overwrite :: "'a list \<Rightarrow> nat \<Rightarrow> 'a list \<Rightarrow> 'a list" where
  "overwrite xs n ws = take n xs @ ws @ drop (n + length ws) xs"

text \<open>Storing consecutive bytes from index \<open>n\<close> on, with the bounds check of an indexed store.\<close>

definition go_store :: "'a list \<Rightarrow> nat \<Rightarrow> 'a list \<Rightarrow> 'a list go" where
  "go_store xs n ws = (if n + length ws \<le> length xs then Ret (overwrite xs n ws) else Panics IndexBounds)"

section \<open>Little-endian integers\<close>

definition put_uint16 :: "u16 \<Rightarrow> bytes" where
  "put_uint16 v = [ucast v, ucast (drop_bit 8 v)]"

definition put_uint32 :: "u32 \<Rightarrow> bytes" where
  "put_uint32 v = [ucast v, ucast (drop_bit 8 v), ucast (drop_bit 16 v), ucast (drop_bit 24 v)]"

definition get_uint16 :: "bytes \<Rightarrow> u16" where
  "get_uint16 b = ucast (b ! 0) OR push_bit 8 (ucast (b ! 1))"

definition get_uint32 :: "bytes \<Rightarrow> u32" where
  "get_uint32 b = ucast (b ! 0) OR push_bit 8 (ucast (b ! 1))
     OR push_bit 16 (ucast (b ! 2)) OR push_bit 24 (ucast (b ! 3))"

section \<open>Shared lemmas\<close>

named_theorems go_simps "unfolding of outcomes and slices"
named_theorems wire_simps "layout of encoded integers and frames"

lemma go_bind_eq_Ret [go_simps]:
  "go_bind m f = Ret y \<longleftrightarrow> (\<exists>x. m = Ret x \<and> f x = Ret y)"
  by (cases m) auto

lemma go_bind_assoc: "go_bind (go_bind m f) g = go_bind m (\<lambda>x. go_bind (f x) g)"
  by (cases m) auto

lemma no_panic_bind:
  "no_panic m \<Longrightarrow> (\<And>x. m = Ret x \<Longrightarrow> no_panic (f x)) \<Longrightarrow> no_panic (go_bind m f)"
  by (cases m) auto

lemma wrap64_id [simp]: "int64_range x \<Longrightarrow> wrap64 x = x"
  by (simp add: wrap64_def int64_range_def)

lemma int64_range_wrap64 [simp]: "int64_range (wrap64 x)"
  by (simp add: wrap64_def int64_range_def)

lemma go_slice_ok [simp]:
  "0 \<le> lo \<Longrightarrow> lo \<le> hi \<Longrightarrow> hi \<le> int (length xs) \<Longrightarrow>
   go_slice xs lo hi = Ret (take (nat (hi - lo)) (drop (nat lo) xs))"
  by (simp add: go_slice_def)

lemma length_go_copy [simp]: "length (go_copy dst src) = length dst"
  by (simp add: go_copy_def min_def)

lemma go_copy_same_length [simp]: "length src = length dst \<Longrightarrow> go_copy dst src = src"
  by (simp add: go_copy_def)

lemma length_overwrite [simp]:
  "n + length ws \<le> length xs \<Longrightarrow> length (overwrite xs n ws) = length xs"
  by (simp add: overwrite_def)

lemma take_overwrite_before [simp]: "m \<le> n \<Longrightarrow> n \<le> length xs \<Longrightarrow> take m (overwrite xs n ws) = take m xs"
  by (simp add: overwrite_def min_def)

lemma take_overwrite_upto:
  "n \<le> length xs \<Longrightarrow> k \<le> length ws \<Longrightarrow>
   take (n + k) (overwrite xs n ws) = take n xs @ take k ws"
  by (simp add: overwrite_def min_def)

lemma go_store_ok [simp]: "n + length ws \<le> length xs \<Longrightarrow> go_store xs n ws = Ret (overwrite xs n ws)"
  by (simp add: go_store_def)

lemma drop_overwrite_after: "n + length ws \<le> m \<Longrightarrow> n \<le> length xs \<Longrightarrow> drop m (overwrite xs n ws) = drop m xs"
  by (simp add: overwrite_def)

lemma length_put_uint16 [simp]: "length (put_uint16 v) = 2"
  by (simp add: put_uint16_def)

lemma length_put_uint32 [simp]: "length (put_uint32 v) = 4"
  by (simp add: put_uint32_def)

lemma get_put_uint16 [simp]: "get_uint16 (put_uint16 v @ r) = v"
  unfolding get_uint16_def put_uint16_def
  by (rule bit_word_eqI) (auto simp: bit_simps nth_append)

lemma get_put_uint32 [simp]: "get_uint32 (put_uint32 v @ r) = v"
proof (rule bit_word_eqI)
  fix n
  assume "n < LENGTH(32)"
  then show "bit (get_uint32 (put_uint32 v @ r)) n = bit v n"
    by (cases "24 \<le> n"; cases "16 \<le> n") (auto simp: get_uint32_def put_uint32_def bit_simps not_less)
qed

lemma word_xor_cancel [simp]: "(a XOR b) XOR b = (a :: 'a::len word)"
  by (simp add: xor.assoc)

text \<open>
  Partial injections: finite sets of tokens held by numbered owners, at most one owner each.
\<close>

definition inj_map :: "('k \<rightharpoonup> 'v) \<Rightarrow> bool" where
  "inj_map f \<longleftrightarrow> (\<forall>a b v. f a = Some v \<and> f b = Some v \<longrightarrow> a = b)"

lemma inj_mapD: "inj_map f \<Longrightarrow> f a = Some v \<Longrightarrow> f b = Some v \<Longrightarrow> a = b"
  by (simp add: inj_map_def)

lemma inj_map_add: "inj_map f \<Longrightarrow> v \<notin> ran f \<Longrightarrow> inj_map (f(a \<mapsto> v))"
  by (auto simp: inj_map_def ran_def)

lemma inj_map_del: "inj_map f \<Longrightarrow> inj_map (f(a := None))"
  by (auto simp: inj_map_def)

lemma ran_del: "inj_map f \<Longrightarrow> f a = Some v \<Longrightarrow> ran (f(a := None)) = ran f - {v}"
proof (intro equalityI subsetI)
  fix w assume a: "f a = Some v" and w: "w \<in> ran f - {v}"
  from w obtain b where b: "f b = Some w" by (auto simp: ran_def)
  with a w have "b \<noteq> a" by auto
  with b have "(f(a := None)) b = Some w" by simp
  then show "w \<in> ran (f(a := None))" by (rule ranI)
qed (auto simp: ran_def dest: inj_mapD split: if_splits)

end
