(* ===== verification/Queue_Interface.thy ===== *)
theory Queue_Interface
  imports Go_Prelude
begin

text \<open>
  What the batcher relies on in its ring buffer, as locales: a bounded queue with an
  invariant and a list of contents, the two backpressure policies of its producer side, and
  the marshalling consumer side. The ring of \<^verbatim>\<open>Ringbuf\<close> interprets all of them. The client
  lemmas are about whole bursts of operations.
\<close>

section \<open>Bursts of operations\<close>

text \<open>Pushing a list of items one by one; the second result counts the refused ones.\<close>

fun push_all :: "('q \<Rightarrow> 'a \<Rightarrow> ('q \<times> bool) option) \<Rightarrow> 'q \<Rightarrow> 'a list \<Rightarrow> ('q \<times> nat) option" where
  "push_all put q [] = Some (q, 0)"
| "push_all put q (x # xs) =
     (case put q x of
        None \<Rightarrow> None
      | Some (q', ok) \<Rightarrow> map_option (\<lambda>(q'', n). (q'', if ok then n else Suc n)) (push_all put q' xs))"

text \<open>Consuming up to \<open>n\<close> items, stopping at the first report of an empty queue.\<close>

fun pull_upto :: "('q \<Rightarrow> ('q \<times> 'a option) option) \<Rightarrow> 'q \<Rightarrow> nat \<Rightarrow> ('q \<times> 'a list) option" where
  "pull_upto get q 0 = Some (q, [])"
| "pull_upto get q (Suc n) =
     (case get q of
        None \<Rightarrow> None
      | Some (q', None) \<Rightarrow> Some (q', [])
      | Some (q', Some x) \<Rightarrow> map_option (\<lambda>(q'', xs). (q'', x # xs)) (pull_upto get q' n))"

section \<open>The interfaces\<close>

locale bounded_queue =
  fixes invar :: "'q \<Rightarrow> bool"
    and contents :: "'q \<Rightarrow> 'a list"
    and capacity :: "'q \<Rightarrow> nat"
  assumes bounded: "invar q \<Longrightarrow> length (contents q) \<le> capacity q"
    and nonzero: "invar q \<Longrightarrow> 0 < capacity q"

locale drop_newest_queue = bounded_queue +
  fixes put :: "'q \<Rightarrow> 'a \<Rightarrow> ('q \<times> bool) option"
  assumes put_room: "invar q \<Longrightarrow> length (contents q) < capacity q \<Longrightarrow>
      \<exists>q'. put q x = Some (q', True) \<and> invar q' \<and> contents q' = contents q @ [x] \<and> capacity q' = capacity q"
    and put_full: "invar q \<Longrightarrow> length (contents q) = capacity q \<Longrightarrow> put q x = Some (q, False)"
begin

lemma put_step:
  assumes "invar q"
  shows "\<exists>q'. put q x = Some (q', length (contents q) < capacity q) \<and> invar q' \<and>
    contents q' = take (capacity q) (contents q @ [x]) \<and> capacity q' = capacity q"
proof (cases "length (contents q) < capacity q")
  case True
  then show ?thesis using put_room [OF assms True, of x] by auto
next
  case False
  with bounded [OF assms] have "length (contents q) = capacity q" by simp
  then show ?thesis using put_full [OF assms] assms by auto
qed

text \<open>A burst keeps the oldest items: what does not fit is refused, and counted.\<close>

lemma push_all_keeps_oldest:
  assumes "invar q"
  shows "\<exists>q'. push_all put q xs = Some (q', length (contents q) + length xs - capacity q)
    \<and> invar q' \<and> contents q' = take (capacity q) (contents q @ xs) \<and> capacity q' = capacity q"
  using assms
proof (induction xs arbitrary: q)
  case Nil
  then show ?case using bounded [OF Nil] by auto
next
  case (Cons x xs)
  obtain q' where q': "put q x = Some (q', length (contents q) < capacity q)" "invar q'"
    "contents q' = take (capacity q) (contents q @ [x])" "capacity q' = capacity q"
    using put_step [OF Cons.prems] by blast
  have len: "length (contents q) \<le> capacity q" by (rule bounded [OF Cons.prems])
  obtain q'' where "push_all put q' xs = Some (q'', length (contents q') + length xs - capacity q)"
    and "invar q''" "contents q'' = take (capacity q) (contents q' @ xs)" "capacity q'' = capacity q"
    using Cons.IH [OF q'(2)] q'(4) by auto
  moreover have "take (capacity q) (contents q' @ xs) = take (capacity q) (contents q @ x # xs)"
    using len q'(3) by (cases "length (contents q) < capacity q") auto
  ultimately show ?case
    using q' len by (cases "length (contents q) < capacity q") (auto simp: Suc_diff_le)
qed

end

locale drop_oldest_queue = bounded_queue +
  fixes put :: "'q \<Rightarrow> 'a \<Rightarrow> ('q \<times> bool) option"
  assumes put_room: "invar q \<Longrightarrow> length (contents q) < capacity q \<Longrightarrow>
      \<exists>q'. put q x = Some (q', True) \<and> invar q' \<and> contents q' = contents q @ [x] \<and> capacity q' = capacity q"
    and put_full: "invar q \<Longrightarrow> length (contents q) = capacity q \<Longrightarrow>
      \<exists>q'. put q x = Some (q', True) \<and> invar q' \<and> contents q' = tl (contents q) @ [x] \<and> capacity q' = capacity q"
begin

text \<open>The last \<open>capacity\<close> items.\<close>

lemma put_step:
  assumes "invar q"
  shows "\<exists>q'. put q x = Some (q', True) \<and> invar q' \<and> capacity q' = capacity q \<and>
    contents q' = drop (Suc (length (contents q)) - capacity q) (contents q @ [x])"
proof (cases "length (contents q) < capacity q")
  case True
  then show ?thesis using put_room [OF assms True, of x] by auto
next
  case False
  with bounded [OF assms] have len: "length (contents q) = capacity q" by simp
  have "contents q \<noteq> []" using len nonzero [OF assms] by auto
  then have "drop (Suc (length (contents q)) - capacity q) (contents q @ [x]) = tl (contents q) @ [x]"
    using len by (cases "contents q") auto
  then show ?thesis using put_full [OF assms len, of x] by auto
qed

text \<open>A burst keeps the newest items and never refuses one.\<close>

lemma push_all_keeps_newest:
  assumes "invar q"
  shows "\<exists>q'. push_all put q xs = Some (q', 0) \<and> invar q' \<and> capacity q' = capacity q \<and>
    contents q' = drop (length (contents q) + length xs - capacity q) (contents q @ xs)"
  using assms
proof (induction xs arbitrary: q)
  case Nil
  then show ?case using bounded [OF Nil] by auto
next
  case (Cons x xs)
  obtain q' where q': "put q x = Some (q', True)" "invar q'" "capacity q' = capacity q"
    "contents q' = drop (Suc (length (contents q)) - capacity q) (contents q @ [x])"
    using put_step [OF Cons.prems] by blast
  obtain q'' where q'': "push_all put q' xs = Some (q'', 0)" "invar q''" "capacity q'' = capacity q"
    "contents q'' = drop (length (contents q') + length xs - capacity q) (contents q' @ xs)"
    using Cons.IH [OF q'(2)] q'(3) by auto
  let ?d = "Suc (length (contents q)) - capacity q"
  have d: "?d \<le> length (contents q @ [x])" "length (contents q') = Suc (length (contents q)) - ?d"
    using nonzero [OF Cons.prems] q'(4) by auto
  have "contents q' @ xs = drop ?d ((contents q @ [x]) @ xs)"
    using d(1) by (simp only: q'(4) drop_append [of _ "contents q @ [x]"] diff_is_0_eq [THEN iffD2] drop_0)
  then have "drop (length (contents q') + length xs - capacity q) (contents q' @ xs)
      = drop (length (contents q') + length xs - capacity q) (drop ?d (contents q @ x # xs))"
    by simp
  also have "\<dots> = drop (length (contents q) + length (x # xs) - capacity q) (contents q @ x # xs)"
  proof -
    have "(length (contents q') + length xs - capacity q) + ?d = length (contents q) + length (x # xs) - capacity q"
      using d(2) bounded [OF Cons.prems] nonzero [OF Cons.prems] by simp
    then show ?thesis by (simp only: drop_drop)
  qed
  finally show ?case using q' q'' by auto
qed

end

locale marshal_queue = bounded_queue +
  fixes pull :: "('a \<Rightarrow> bytes \<Rightarrow> bytes \<times> int) \<Rightarrow> 'q \<Rightarrow> bytes \<Rightarrow> ('q \<times> bytes \<times> int \<times> bool) option"
  assumes pull_empty: "invar q \<Longrightarrow> contents q = [] \<Longrightarrow> pull m q buf = Some (q, buf, 0, False)"
    and pull_Cons: "invar q \<Longrightarrow> contents q = x # xs \<Longrightarrow>
      \<exists>q'. pull m q buf = Some (q', fst (m x buf), snd (m x buf), True) \<and>
        invar q' \<and> contents q' = xs \<and> capacity q' = capacity q"

locale fifo_queue = bounded_queue +
  fixes get :: "'q \<Rightarrow> ('q \<times> 'a option) option"
  assumes get_empty: "invar q \<Longrightarrow> contents q = [] \<Longrightarrow> get q = Some (q, None)"
    and get_Cons: "invar q \<Longrightarrow> contents q = x # xs \<Longrightarrow>
      \<exists>q'. get q = Some (q', Some x) \<and> invar q' \<and> contents q' = xs \<and> capacity q' = capacity q"
begin

lemma pull_upto_fifo:
  assumes "invar q"
  shows "\<exists>q'. pull_upto get q n = Some (q', take n (contents q)) \<and> invar q' \<and>
    contents q' = drop n (contents q) \<and> capacity q' = capacity q"
  using assms
proof (induction n arbitrary: q)
  case 0
  then show ?case by simp
next
  case (Suc n)
  show ?case
  proof (cases "contents q")
    case Nil
    then show ?thesis using get_empty [OF Suc.prems Nil] Suc.prems by simp
  next
    case (Cons x xs)
    then obtain q' where q': "get q = Some (q', Some x)" "invar q'" "contents q' = xs" "capacity q' = capacity q"
      using get_Cons [OF Suc.prems Cons] by blast
    obtain q'' where "pull_upto get q' n = Some (q'', take n xs)" "invar q''"
      "contents q'' = drop n xs" "capacity q'' = capacity q"
      using Suc.IH [OF q'(2)] q'(3,4) by auto
    with q' Cons show ?thesis by simp
  qed
qed

end

end
