(* ===== verification/Ringbuf.thy ===== *)
theory Ringbuf
  imports Queue_Interface
begin

unbundle bit_operations_syntax

text \<open>
  \<^verbatim>\<open>ringbuf.go\<close>, run by one goroutine at a time: between the loads of an operation and its
  compare-and-swap nothing else happens, so the compare-and-swap succeeds. (The theory
  \<^verbatim>\<open>Ring_Concurrent\<close> has the same operations cut into atomic steps and interleaved.) The
  cursors and sequence numbers are 64-bit words that wrap. The retry loops are
  \<open>partial_function (option)\<close>: \<open>None\<close> is a loop that spins for ever. An index
  \<^verbatim>\<open>pos & mask\<close> is always below the length of the slot arrays (\<open>idx_less\<close>), so \<open>!\<close>
  reads only slots that exist.
\<close>

section \<open>Data\<close>

datatype BackpressurePolicy = DropNewest | DropOldest | PolicyValue int

record 'a ringbuf =
  head :: u64
  tail :: u64
  rmask :: u64
  seqs :: "u64 list"
  data :: "'a list"
  evicted :: u64

definition maxEvictRetries :: int where "maxEvictRetries = 128"

definition is_pow2 :: "u64 \<Rightarrow> bool" where
  "is_pow2 sz \<longleftrightarrow> \<not> (sz = 0 \<or> sz AND (sz - 1) \<noteq> 0)"

section \<open>Operations\<close>

definition newRingbuf :: "'a \<Rightarrow> u64 \<Rightarrow> 'a ringbuf go" where
  "newRingbuf zero sz =
     (if \<not> is_pow2 sz then Panics (PanicMsg ''tickbatch: QueueSize must be a positive power of two'')
      else Ret \<lparr>head = 0, tail = 0, rmask = sz - 1,
                seqs = map of_nat [0..<unat sz], data = replicate (unat sz) zero, evicted = 0\<rparr>)"

definition idx :: "'a ringbuf \<Rightarrow> u64 \<Rightarrow> nat" where
  "idx r pos = unat (pos AND rmask r)"

definition evictOldest :: "'a ringbuf \<Rightarrow> 'a ringbuf" where
  "evictOldest r =
     (let headPos = head r; i = idx r headPos in
      if seqs r ! i = headPos + 1
      then r\<lparr>head := headPos + 1, seqs := (seqs r)[i := headPos + rmask r + 1],
             evicted := evicted r + 1\<rparr>
      else r)"

partial_function (option) push_loop ::
  "'a ringbuf \<Rightarrow> 'a \<Rightarrow> BackpressurePolicy \<Rightarrow> int \<Rightarrow> ('a ringbuf \<times> bool) option" where
  "push_loop r item policy evictAttempts =
     (let pos = tail r; i = idx r pos; diff = seqs r ! i - pos in
      if diff = 0
      then Some (r\<lparr>tail := pos + 1, data := (data r)[i := item], seqs := (seqs r)[i := pos + 1]\<rparr>, True)
      else if sint diff < 0
      then if policy = DropNewest then Some (r, False)
           else if evictAttempts + 1 > maxEvictRetries then Some (r, False)
           else push_loop (evictOldest r) item policy (evictAttempts + 1)
      else push_loop r item policy evictAttempts)"

definition push :: "'a ringbuf \<Rightarrow> 'a \<Rightarrow> BackpressurePolicy \<Rightarrow> ('a ringbuf \<times> bool) option" where
  "push r item policy = push_loop r item policy 0"

text \<open>\<open>marshal x buf\<close>: the contents of \<open>buf\<close> after \<^verbatim>\<open>x.Marshal(buf)\<close>, and its result.\<close>

type_synonym 'a marshal = "'a \<Rightarrow> bytes \<Rightarrow> bytes \<times> int"

partial_function (option) popMarshal ::
  "'a marshal \<Rightarrow> 'a ringbuf \<Rightarrow> bytes \<Rightarrow> ('a ringbuf \<times> bytes \<times> int \<times> bool) option" where
  "popMarshal marshal r buf =
     (let pos = head r; i = idx r pos; diff = seqs r ! i - (pos + 1) in
      if diff = 0
      then (case marshal (data r ! i) buf of (buf', n) \<Rightarrow>
              Some (r\<lparr>head := pos + 1, seqs := (seqs r)[i := pos + rmask r + 1]\<rparr>, buf', n, True))
      else if sint diff < 0 then Some (r, buf, 0, False)
      else popMarshal marshal r buf)"

partial_function (option) pop :: "'a ringbuf \<Rightarrow> 'a \<Rightarrow> ('a ringbuf \<times> 'a \<times> bool) option" where
  "pop r item =
     (let pos = head r; i = idx r pos; diff = seqs r ! i - (pos + 1) in
      if diff = 0
      then Some (r\<lparr>head := pos + 1, seqs := (seqs r)[i := pos + rmask r + 1]\<rparr>, data r ! i, True)
      else if sint diff < 0 then Some (r, item, False)
      else pop r item)"

declare push_loop.simps [code] popMarshal.simps [code] pop.simps [code]

section \<open>Abstraction and invariant\<close>

text \<open>
  \<open>ring_shape\<close>: a capacity of \<open>2 ^ k\<close> slots with \<open>1 \<le> k \<le> 63\<close>. \<open>ring_inv\<close>: no operation
  is under way; the \<open>depth\<close> slots from the head on are published (their sequence number is
  their position plus one), the others are free for the position that comes round next.
  \<open>items\<close>: the queued items, oldest first. Positions are words, so all of this is modulo
  \<open>2 ^ 64\<close> and keeps holding when the cursors wrap.
\<close>

definition ring_shape :: "'a ringbuf \<Rightarrow> bool" where
  "ring_shape r \<longleftrightarrow> (\<exists>k. 1 \<le> k \<and> k \<le> 63 \<and> rmask r = mask k \<and>
     length (seqs r) = 2 ^ k \<and> length (data r) = 2 ^ k)"

definition cap :: "'a ringbuf \<Rightarrow> nat" where
  "cap r = length (seqs r)"

definition depth :: "'a ringbuf \<Rightarrow> nat" where
  "depth r = unat (tail r - head r)"

definition slot :: "'a ringbuf \<Rightarrow> nat \<Rightarrow> nat" where
  "slot r j = idx r (head r + of_nat j)"

definition ring_inv :: "'a ringbuf \<Rightarrow> bool" where
  "ring_inv r \<longleftrightarrow> ring_shape r \<and> depth r \<le> cap r \<and>
     (\<forall>j < cap r. seqs r ! slot r j = head r + of_nat j + (if j < depth r then 1 else 0))"

definition items :: "'a ringbuf \<Rightarrow> 'a list" where
  "items r = map (\<lambda>j. data r ! slot r j) [0..<depth r]"

section \<open>Lemmas\<close>

lemma pow2_nat_and: "n \<noteq> 0 \<Longrightarrow> n AND (n - 1) = 0 \<Longrightarrow> \<exists>k. n = (2::nat) ^ k"
proof (induction n rule: less_induct)
  case (less n)
  show ?case
  proof (cases "even n")
    case True
    then obtain m where m: "n = 2 * m" by blast
    with less.prems(1) have "m \<noteq> 0" "m < n" by auto
    moreover have "m AND (m - 1) = 0"
    proof -
      have "n - 1 = 1 + 2 * (m - 1)" using m \<open>m \<noteq> 0\<close> by simp
      then have "n AND (n - 1) = 2 * (m AND (m - 1))"
        using m and_nat_rec [of n "n - 1"] by simp
      with less.prems(2) show ?thesis by simp
    qed
    ultimately obtain k where "m = 2 ^ k" using less.IH by blast
    with m have "n = 2 ^ Suc k" by simp
    then show ?thesis ..
  next
    case False
    then obtain m where m: "n = 2 * m + 1" by (auto elim: oddE)
    then have "n AND (n - 1) = 2 * m"
      using and_nat_rec [of n "n - 1"] by simp
    with less.prems(2) m have "n = 2 ^ 0" by simp
    then show ?thesis ..
  qed
qed

lemma is_pow2_iff: "is_pow2 sz \<longleftrightarrow> (\<exists>k < 64. sz = 2 ^ k)"
proof
  assume p: "is_pow2 sz"
  then have nz: "sz \<noteq> 0" by (simp add: is_pow2_def)
  then have s1: "unat (sz - 1) = unat sz - 1"
    by (simp add: unat_minus_one)
  from p have "unat (sz AND (sz - 1)) = 0" by (simp add: is_pow2_def)
  then have "unat sz AND (unat sz - 1) = 0"
    by (simp add: unsigned_and_eq s1)
  with nz obtain k where k: "unat sz = 2 ^ k"
    using pow2_nat_and [of "unat sz"] by (auto simp: unat_eq_0)
  have "unat sz < 2 ^ 64" using unsigned_less [of sz] by simp
  with k have "k < 64" using power_increasing [of 64 k "2::nat"] by (cases "k < 64") auto
  moreover from k have "sz = 2 ^ k" by (metis of_nat_numeral of_nat_power of_nat_unat ucast_id)
  ultimately show "\<exists>k < 64. sz = 2 ^ k" by blast
next
  assume "\<exists>k < 64. sz = 2 ^ k"
  then obtain k where k: "k < 64" "sz = 2 ^ k" by blast
  have "sz AND (sz - 1) = 0"
  proof (rule bit_word_eqI)
    fix n
    show "bit (sz AND (sz - 1)) n = bit 0 n"
      using k by (simp add: bit_simps flip: mask_eq_exp_minus_1)
  qed
  moreover from k have "bit sz k" by (simp add: bit_simps)
  then have "sz \<noteq> 0" by auto
  ultimately show "is_pow2 sz" by (simp add: is_pow2_def)
qed

text \<open>Slot geometry: positions modulo the capacity.\<close>

lemma unat_and_mask: "unat (p AND mask k :: u64) = unat p mod 2 ^ k"
  by (simp add: unsigned_take_bit_eq flip: take_bit_eq_mask take_bit_eq_mod)

lemma idx_mod: "ring_shape r \<Longrightarrow> idx r p = unat p mod cap r"
  by (auto simp: ring_shape_def idx_def cap_def unat_and_mask)

lemma cap_pos: "ring_shape r \<Longrightarrow> 2 \<le> cap r"
  by (auto simp: ring_shape_def cap_def intro: power_increasing [of 1 _ "2::nat", simplified])

lemma cap_le: "ring_shape r \<Longrightarrow> cap r \<le> 2 ^ 63"
  by (auto simp: ring_shape_def cap_def simp del: power_numeral intro: power_increasing)

lemma cap_dvd: "ring_shape r \<Longrightarrow> cap r dvd 2 ^ 64"
proof -
  assume "ring_shape r"
  then obtain k where "k \<le> 63" and "cap r = 2 ^ k" by (auto simp: ring_shape_def cap_def)
  with le_imp_power_dvd [of k 64 "2::nat"] show ?thesis by simp
qed

lemma idx_less: "ring_shape r \<Longrightarrow> idx r p < cap r"
  using cap_pos [of r] by (simp add: idx_mod)

lemma length_data: "ring_shape r \<Longrightarrow> length (data r) = cap r"
  by (auto simp: ring_shape_def cap_def)

lemma rmask_Suc: "ring_shape r \<Longrightarrow> rmask r + 1 = of_nat (cap r)"
  by (auto simp: ring_shape_def cap_def mask_eq_exp_minus_1)

lemma idx_add: "ring_shape r \<Longrightarrow> idx r (p + of_nat j) = (unat p + j) mod cap r"
proof -
  assume r: "ring_shape r"
  have "unat (p + of_nat j) = (unat p + j) mod 2 ^ 64"
    by (simp add: unat_word_ariths unat_of_nat mod_simps)
  then show ?thesis
    using cap_dvd [OF r] by (simp add: idx_mod [OF r] mod_mod_cancel)
qed

lemma mod_add_left_inj_nat:
  assumes "i < c" and "j < c"
  shows "(a + i) mod c = (a + j) mod c \<longleftrightarrow> i = (j::nat)"
proof -
  have "i = j" if "i \<le> j" "j < c" "(a + j) mod c = (a + i) mod c" for i j
  proof -
    have "c dvd j - i" using that mod_eq_dvd_iff_nat [of "a + i" "a + j" c] by simp
    with that show ?thesis using nat_dvd_not_less [of "j - i" c] by (cases "i = j") auto
  qed
  from this [of i j] this [of j i] assms show ?thesis by (cases "i \<le> j") auto
qed

lemma idx_eq_iff:
  assumes "ring_shape r" and "i < cap r" and "j < cap r"
  shows "idx r (p + of_nat i) = idx r (p + of_nat j) \<longleftrightarrow> i = j"
proof
  assume "idx r (p + of_nat i) = idx r (p + of_nat j)"
  then have "(unat p + i) mod cap r = (unat p + j) mod cap r"
    using assms(1) by (simp add: idx_add)
  with assms(2,3) show "i = j" by (simp add: mod_add_left_inj_nat)
qed simp

text \<open>What a successful push and a successful pop do to the state.\<close>

definition enq :: "'a ringbuf \<Rightarrow> 'a \<Rightarrow> 'a ringbuf" where
  "enq r x = r\<lparr>tail := tail r + 1, data := (data r)[slot r (depth r) := x],
     seqs := (seqs r)[slot r (depth r) := tail r + 1]\<rparr>"

definition deq :: "'a ringbuf \<Rightarrow> 'a ringbuf" where
  "deq r = r\<lparr>head := head r + 1, seqs := (seqs r)[slot r 0 := head r + rmask r + 1]\<rparr>"

lemma tail_eq: "tail r = head r + of_nat (depth r)"
  by (simp add: depth_def)

lemma slot_less: "ring_shape r \<Longrightarrow> slot r j < cap r"
  by (simp add: slot_def idx_less)

lemma slot_inj: "ring_shape r \<Longrightarrow> i < cap r \<Longrightarrow> j < cap r \<Longrightarrow> slot r i = slot r j \<longleftrightarrow> i = j"
  by (simp add: slot_def idx_eq_iff)

lemma slot_cap: "ring_shape r \<Longrightarrow> slot r (cap r) = slot r 0"
  using idx_add [of r "head r" "cap r"] idx_add [of r "head r" 0] by (simp add: slot_def)

lemma ring_invD:
  assumes "ring_inv r"
  shows "ring_shape r" and "depth r \<le> cap r"
    and "j < cap r \<Longrightarrow> seqs r ! slot r j = head r + of_nat j + (if j < depth r then 1 else 0)"
  using assms by (auto simp: ring_inv_def)

lemma length_items [simp]: "length (items r) = depth r"
  by (simp add: items_def)

lemma ring_shape_update [simp]:
  "ring_shape (r\<lparr>tail := t, data := (data r)[i := x], seqs := (seqs r)[j := q]\<rparr>) = ring_shape r"
  "ring_shape (r\<lparr>head := h, seqs := (seqs r)[j := q]\<rparr>) = ring_shape r"
  "ring_shape (r\<lparr>evicted := e\<rparr>) = ring_shape r"
  by (simp_all add: ring_shape_def)

lemma depth_Suc:
  assumes "ring_shape r" and "depth r < cap r"
  shows "unat (tail r + 1 - head r) = Suc (depth r)"
proof -
  have "depth r < 2 ^ 63" using assms cap_le [of r] by linarith
  then have "unat (of_nat (Suc (depth r)) :: u64) = Suc (depth r)"
    by (simp only: unat_of_nat) simp
  moreover have "tail r + 1 - head r = of_nat (Suc (depth r))"
    by (subst tail_eq) simp
  ultimately show ?thesis by (simp only:)
qed

lemma enq_props:
  assumes inv: "ring_inv r" and room: "depth r < cap r"
  shows "ring_inv (enq r x)" and "items (enq r x) = items r @ [x]"
    and "cap (enq r x) = cap r" and "evicted (enq r x) = evicted r" and "depth (enq r x) = Suc (depth r)"
proof -
  note shape = ring_invD(1) [OF inv]
  show c: "cap (enq r x) = cap r" and "evicted (enq r x) = evicted r"
    by (simp_all add: enq_def cap_def)
  show d: "depth (enq r x) = Suc (depth r)"
    using depth_Suc [OF shape room] by (simp add: enq_def depth_def)
  have sl: "slot (enq r x) j = slot r j" for j
    by (simp add: enq_def slot_def idx_def)
  have sh: "ring_shape (enq r x)" using shape by (simp add: enq_def)
  have seq: "seqs (enq r x) ! slot r j = head r + of_nat j + (if j < Suc (depth r) then 1 else 0)"
    if "j < cap r" for j
  proof (cases "j = depth r")
    case True
    then show ?thesis
      using slot_less [OF shape, of j] tail_eq [of r] by (simp add: enq_def cap_def)
  next
    case False
    then have "slot r (depth r) \<noteq> slot r j"
      using slot_inj [OF shape room that] by auto
    then show ?thesis using ring_invD(3) [OF inv that] False by (simp add: enq_def)
  qed
  then show "ring_inv (enq r x)"
    using sh room by (simp add: ring_inv_def d c sl) (simp add: enq_def)
  have "data (enq r x) ! slot r j = (if j = depth r then x else data r ! slot r j)" if "j < Suc (depth r)" for j
  proof -
    have "j < cap r" using that room by simp
    then show ?thesis
      using slot_inj [OF shape room, of j] slot_less [OF shape, of j] length_data [OF shape]
      by (auto simp: enq_def nth_list_update)
  qed
  then show "items (enq r x) = items r @ [x]"
    by (simp add: items_def d sl)
qed

lemma depth_pred:
  assumes "depth r \<noteq> 0"
  shows "unat (tail r - (head r + 1)) = depth r - 1"
proof -
  have "tail r - head r \<noteq> 0" using assms by (auto simp: depth_def)
  then have "unat (tail r - head r - 1) = depth r - 1" by (simp add: unat_minus_one depth_def)
  then show ?thesis by (simp add: diff_diff_eq)
qed

lemma deq_props:
  assumes inv: "ring_inv r" and ne: "depth r \<noteq> 0"
  shows "ring_inv (deq r)" and "items r = data r ! slot r 0 # items (deq r)"
    and "cap (deq r) = cap r" and "evicted (deq r) = evicted r" and "depth (deq r) = depth r - 1"
proof -
  note shape = ring_invD(1) [OF inv]
  show c: "cap (deq r) = cap r" and "evicted (deq r) = evicted r"
    by (simp_all add: deq_def cap_def)
  show d: "depth (deq r) = depth r - 1"
    using depth_pred [OF ne] by (simp add: deq_def depth_def)
  have sl: "slot (deq r) j = slot r (Suc j)" for j
    by (simp add: deq_def slot_def idx_def add.assoc)
  have sh: "ring_shape (deq r)" using shape by (simp add: deq_def)
  have seq: "seqs (deq r) ! slot r (Suc j) = head r + of_nat (Suc j) + (if Suc j < depth r then 1 else 0)"
    if "j < cap r" for j
  proof (cases "Suc j = cap r")
    case True
    have "seqs (deq r) ! slot r (Suc j) = head r + rmask r + 1"
      using slot_less [OF shape, of 0] slot_cap [OF shape] by (simp add: deq_def True cap_def)
    also have "\<dots> = head r + of_nat (Suc j)"
      using rmask_Suc [OF shape] by (simp add: True add.assoc)
    finally show ?thesis using ring_invD(2) [OF inv] True by simp
  next
    case False
    with that have lt: "Suc j < cap r" by simp
    then have "slot r 0 \<noteq> slot r (Suc j)"
      using slot_inj [OF shape, of 0 "Suc j"] by auto
    then show ?thesis using ring_invD(3) [OF inv lt] by (simp add: deq_def)
  qed
  have "j < cap r \<Longrightarrow> seqs (deq r) ! slot r (Suc j) = head (deq r) + of_nat j + (if j < depth r - 1 then 1 else 0)" for j
    using seq [of j] ne by (auto simp: deq_def)
  then show "ring_inv (deq r)"
    using sh ring_invD(2) [OF inv] by (simp add: ring_inv_def d c sl)
  have "[0..<depth r] = 0 # map Suc [0..<depth r - 1]"
    using ne by (simp add: map_Suc_upt upt_conv_Cons)
  then show "items r = data r ! slot r 0 # items (deq r)"
    by (simp add: items_def d sl o_def) (simp add: deq_def)
qed

subsection \<open>The operations on a quiescent ring\<close>

lemma sint_of_int_u64: "- (2 ^ 63) \<le> x \<Longrightarrow> x < 2 ^ 63 \<Longrightarrow> sint (of_int x :: u64) = x"
  by (simp add: signed_of_int signed_take_bit_int_eq_self)

lemma sint_full_diff:
  assumes "2 \<le> n" and "n \<le> 2 ^ 63"
  shows "1 - of_nat n \<noteq> (0 :: u64)" and "sint (1 - of_nat n :: u64) < 0"
proof -
  have "sint (1 - of_nat n :: u64) = 1 - int n"
    using sint_of_int_u64 [of "1 - int n"] assms by simp
  with assms(1) show "sint (1 - of_nat n :: u64) < 0" by simp
  then show "1 - of_nat n \<noteq> (0 :: u64)" by auto
qed

lemma push_loop_room:
  assumes inv: "ring_inv r" and room: "depth r < cap r"
  shows "push_loop r x p a = Some (enq r x, True)"
proof -
  have "idx r (tail r) = slot r (depth r)" by (simp add: slot_def tail_eq)
  moreover have "seqs r ! slot r (depth r) = tail r"
    using ring_invD(3) [OF inv room] tail_eq [of r] by simp
  ultimately show ?thesis by (simp add: push_loop.simps enq_def Let_def)
qed

lemma full_diff:
  assumes inv: "ring_inv r" and full: "depth r = cap r"
  shows "seqs r ! idx r (tail r) - tail r = 1 - of_nat (cap r)"
proof -
  note shape = ring_invD(1) [OF inv]
  have "idx r (tail r) = slot r 0"
    using slot_cap [OF shape] tail_eq [of r] full by (simp add: slot_def)
  moreover have "seqs r ! slot r 0 = head r + 1"
    using ring_invD(3) [OF inv, of 0] cap_pos [OF shape] full by simp
  ultimately show ?thesis using full by (simp add: tail_eq)
qed

lemma push_loop_full:
  assumes inv: "ring_inv r" and full: "depth r = cap r"
  shows "push_loop r x p a =
    (if p = DropNewest \<or> a + 1 > maxEvictRetries then Some (r, False)
     else push_loop (evictOldest r) x p (a + 1))"
proof -
  note shape = ring_invD(1) [OF inv]
  have "seqs r ! idx r (tail r) - tail r \<noteq> 0" and "sint (seqs r ! idx r (tail r) - tail r) < 0"
    unfolding full_diff [OF assms] using sint_full_diff [OF cap_pos [OF shape] cap_le [OF shape]] by blast+
  then show ?thesis by (subst push_loop.simps) (simp add: Let_def)
qed

lemma evictOldest_nonempty:
  assumes inv: "ring_inv r" and ne: "depth r \<noteq> 0"
  shows "evictOldest r = (deq r)\<lparr>evicted := evicted r + 1\<rparr>"
  using ring_invD(3) [OF inv, of 0] cap_pos [OF ring_invD(1) [OF inv]] ne
  by (simp add: evictOldest_def Let_def deq_def slot_def)

lemma evicted_irrelevant [simp]:
  "ring_inv (r\<lparr>evicted := e\<rparr>) = ring_inv r" "items (r\<lparr>evicted := e\<rparr>) = items r"
  "cap (r\<lparr>evicted := e\<rparr>) = cap r" "depth (r\<lparr>evicted := e\<rparr>) = depth r"
  by (simp_all add: ring_inv_def items_def cap_def depth_def slot_def idx_def)

lemma evictOldest_props:
  assumes inv: "ring_inv r" and ne: "depth r \<noteq> 0"
  shows "ring_inv (evictOldest r)" and "items (evictOldest r) = tl (items r)"
    and "cap (evictOldest r) = cap r" and "evicted (evictOldest r) = evicted r + 1"
    and "depth (evictOldest r) = depth r - 1"
  using deq_props [OF assms] by (simp_all add: evictOldest_nonempty [OF assms])

text \<open>On an empty ring \<open>evictOldest\<close> does nothing.\<close>

lemma evictOldest_empty:
  assumes inv: "ring_inv r" and "depth r = 0"
  shows "evictOldest r = r"
  using ring_invD(3) [OF inv, of 0] cap_pos [OF ring_invD(1) [OF inv]] assms(2)
  by (simp add: evictOldest_def Let_def slot_def)

lemma push_DropNewest:
  assumes "ring_inv r"
  shows "push r x DropNewest = Some (if depth r < cap r then (enq r x, True) else (r, False))"
  using assms push_loop_room [OF assms] push_loop_full [OF assms] ring_invD(2) [OF assms]
  by (auto simp: push_def)

lemma push_evicting:
  assumes inv: "ring_inv r" and pol: "p \<noteq> DropNewest"
  shows "push r x p = Some (if depth r < cap r then enq r x else enq (evictOldest r) x, True)"
proof (cases "depth r < cap r")
  case True
  then show ?thesis using push_loop_room [OF inv] by (simp add: push_def)
next
  case False
  with ring_invD(2) [OF inv] have full: "depth r = cap r" by simp
  have ne: "depth r \<noteq> 0" using cap_pos [OF ring_invD(1) [OF inv]] full by simp
  note ev = evictOldest_props [OF inv ne]
  have "push_loop (evictOldest r) x p 1 = Some (enq (evictOldest r) x, True)"
    using ev full ne by (intro push_loop_room) auto
  then show ?thesis
    using push_loop_full [OF inv full] pol False by (simp add: push_def maxEvictRetries_def)
qed

lemma popMarshal_nonempty:
  assumes inv: "ring_inv r" and it: "items r = x # xs"
  shows "popMarshal m r buf = Some (deq r, fst (m x buf), snd (m x buf), True)"
proof -
  have ne: "depth r \<noteq> 0" using it length_items [of r] by auto
  then have "seqs r ! slot r 0 = head r + 1"
    using ring_invD(3) [OF inv, of 0] cap_pos [OF ring_invD(1) [OF inv]] by simp
  moreover have "data r ! slot r 0 = x" using deq_props(2) [OF inv ne] it by simp
  ultimately show ?thesis
    by (simp add: popMarshal.simps deq_def slot_def Let_def split: prod.split)
qed

lemma popMarshal_empty:
  assumes inv: "ring_inv r" and it: "items r = []"
  shows "popMarshal m r buf = Some (r, buf, 0, False)"
proof -
  have "depth r = 0" using it length_items [of r] by simp
  then have "seqs r ! slot r 0 = head r"
    using ring_invD(3) [OF inv, of 0] cap_pos [OF ring_invD(1) [OF inv]] by simp
  then show ?thesis by (simp add: popMarshal.simps slot_def)
qed

lemma pop_nonempty:
  assumes inv: "ring_inv r" and it: "items r = x # xs"
  shows "pop r y = Some (deq r, x, True)"
proof -
  have ne: "depth r \<noteq> 0" using it length_items [of r] by auto
  then have "seqs r ! slot r 0 = head r + 1"
    using ring_invD(3) [OF inv, of 0] cap_pos [OF ring_invD(1) [OF inv]] by simp
  moreover have "data r ! slot r 0 = x" using deq_props(2) [OF inv ne] it by simp
  ultimately show ?thesis by (simp add: pop.simps deq_def slot_def Let_def)
qed

lemma pop_empty:
  assumes inv: "ring_inv r" and it: "items r = []"
  shows "pop r y = Some (r, y, False)"
proof -
  have "depth r = 0" using it length_items [of r] by simp
  then have "seqs r ! slot r 0 = head r"
    using ring_invD(3) [OF inv, of 0] cap_pos [OF ring_invD(1) [OF inv]] by simp
  then show ?thesis by (simp add: pop.simps slot_def)
qed

lemma newRingbuf_inv:
  assumes "is_pow2 sz" and "sz \<noteq> 1"
  shows "\<exists>r. newRingbuf z sz = Ret r \<and> ring_inv r \<and> items r = [] \<and> cap r = unat sz \<and> evicted r = 0"
proof -
  from assms obtain k where k: "k < 64" "sz = 2 ^ k" by (auto simp: is_pow2_iff)
  with assms(2) have k1: "1 \<le> k" by (cases k) auto
  let ?r = "\<lparr>head = 0, tail = 0, rmask = sz - 1, seqs = map of_nat [0..<unat sz],
    data = replicate (unat sz) z, evicted = 0\<rparr> :: 'a ringbuf"
  have "(2::nat) ^ k < 2 ^ 64" using k by (intro power_strict_increasing) auto
  then have sz: "unat sz = 2 ^ k"
    using k unat_of_nat [of "2 ^ k", where ?'a = 64] by simp
  have shape: "ring_shape ?r"
    unfolding ring_shape_def using k k1 sz by (intro exI [of _ k]) (simp add: mask_eq_exp_minus_1)
  have c: "cap ?r = unat sz" and d: "depth ?r = 0" by (simp_all add: cap_def depth_def)
  have "seqs ?r ! slot ?r j = of_nat j" if "j < unat sz" for j
    using that idx_add [OF shape, of 0 j] by (simp add: slot_def c)
  then have "ring_inv ?r" using shape by (simp add: ring_inv_def c d)
  then show ?thesis using assms(1) c d by (simp add: newRingbuf_def items_def)
qed

section \<open>The ring provides the queue interfaces\<close>

abbreviation "push_newest r x \<equiv> push r x DropNewest"
abbreviation "push_oldest r x \<equiv> push r x DropOldest"

text \<open>\<^verbatim>\<open>pop\<close> with its result parameter read as an option.\<close>

definition pop_option :: "'a \<Rightarrow> 'a ringbuf \<Rightarrow> ('a ringbuf \<times> 'a option) option" where
  "pop_option zero r = map_option (\<lambda>(r', x, ok). (r', if ok then Some x else None)) (pop r zero)"

interpretation rq: bounded_queue ring_inv items cap
proof
  fix r :: "'a ringbuf"
  assume inv: "ring_inv r"
  show "length (items r) \<le> cap r" using ring_invD(2) [OF inv] by simp
  show "0 < cap r" using cap_pos [OF ring_invD(1) [OF inv]] by simp
qed

interpretation rq_newest: drop_newest_queue ring_inv items cap push_newest
proof
  fix r :: "'a ringbuf" and x
  assume inv: "ring_inv r"
  show "\<exists>r'. push_newest r x = Some (r', True) \<and> ring_inv r' \<and> items r' = items r @ [x] \<and> cap r' = cap r"
    if "length (items r) < cap r"
    using that enq_props [OF inv, of x] by (simp add: push_DropNewest [OF inv])
  show "push_newest r x = Some (r, False)" if "length (items r) = cap r"
    using that by (simp add: push_DropNewest [OF inv])
qed

interpretation rq_oldest: drop_oldest_queue ring_inv items cap push_oldest
proof
  fix r :: "'a ringbuf" and x
  assume inv: "ring_inv r"
  show "\<exists>r'. push_oldest r x = Some (r', True) \<and> ring_inv r' \<and> items r' = items r @ [x] \<and> cap r' = cap r"
    if "length (items r) < cap r"
    using that enq_props [OF inv, of x] by (simp add: push_evicting [OF inv])
  show "\<exists>r'. push_oldest r x = Some (r', True) \<and> ring_inv r' \<and> items r' = tl (items r) @ [x] \<and> cap r' = cap r"
    if full: "length (items r) = cap r"
  proof -
    have ne: "depth r \<noteq> 0" using full cap_pos [OF ring_invD(1) [OF inv]] by auto
    note ev = evictOldest_props [OF inv ne]
    have "depth (evictOldest r) < cap (evictOldest r)" using ev full ne by simp
    from enq_props [OF ev(1) this, of x] show ?thesis
      using full ev by (simp add: push_evicting [OF inv])
  qed
qed

interpretation rq_marshal: marshal_queue ring_inv items cap popMarshal
proof
  fix r :: "'a ringbuf" and m buf x xs
  assume inv: "ring_inv r"
  show "popMarshal m r buf = Some (r, buf, 0, False)" if "items r = []"
    by (rule popMarshal_empty [OF inv that])
  show "\<exists>r'. popMarshal m r buf = Some (r', fst (m x buf), snd (m x buf), True) \<and>
      ring_inv r' \<and> items r' = xs \<and> cap r' = cap r" if it: "items r = x # xs"
  proof -
    have "depth r \<noteq> 0" using it length_items [of r] by auto
    from deq_props [OF inv this] it show ?thesis by (simp add: popMarshal_nonempty [OF inv it])
  qed
qed

interpretation rq_fifo: fifo_queue ring_inv items cap "pop_option zero"
proof
  fix r :: "'a ringbuf" and x xs
  assume inv: "ring_inv r"
  show "pop_option zero r = Some (r, None)" if "items r = []"
    by (simp add: pop_option_def pop_empty [OF inv that])
  show "\<exists>r'. pop_option zero r = Some (r', Some x) \<and> ring_inv r' \<and> items r' = xs \<and> cap r' = cap r"
    if it: "items r = x # xs"
  proof -
    have "depth r \<noteq> 0" using it length_items [of r] by auto
    from deq_props [OF inv this] it show ?thesis by (simp add: pop_option_def pop_nonempty [OF inv it])
  qed
qed

section \<open>A ring of one slot\<close>

text \<open>
  With one slot, the sequence number that says \<open>published at p\<close> is also the one that says
  \<open>free for p + 1\<close>. The loop of \<open>popMarshal\<close> has no exit once the slot is ahead of the head.
\<close>

lemma popMarshal_spins:
  assumes "seqs r ! idx r (head r) \<noteq> head r + 1" and "0 \<le> sint (seqs r ! idx r (head r) - (head r + 1))"
  shows "popMarshal m r buf = None"
proof (rule ccontr)
  assume "popMarshal m r buf \<noteq> None"
  then obtain y where y: "popMarshal m r buf = Some y" by blast
  have "r' = r \<longrightarrow> False" if "popMarshal m r' buf = Some y" for r'
  proof (rule popMarshal.raw_induct [where P = "\<lambda>m r' buf y. r' = r \<longrightarrow> False", OF _ that])
    fix f :: "'a marshal \<Rightarrow> 'a ringbuf \<Rightarrow> bytes \<Rightarrow> ('a ringbuf \<times> bytes \<times> int \<times> bool) option"
      and m r' buf y
    assume IH: "\<And>m r' buf y. f m r' buf = Some y \<Longrightarrow> r' = r \<longrightarrow> False"
      and eq: "(let pos = head r'; i = idx r' pos; diff = seqs r' ! i - (pos + 1) in
        if diff = 0
        then (case m (data r' ! i) buf of (buf', n) \<Rightarrow>
                Some (r'\<lparr>head := pos + 1, seqs := (seqs r')[i := pos + rmask r' + 1]\<rparr>, buf', n, True))
        else if sint diff < 0 then Some (r', buf, 0, False)
        else f m r' buf) = Some y"
    show "r' = r \<longrightarrow> False"
    proof
      assume "r' = r"
      with eq assms have "f m r' buf = Some y" by (simp add: Let_def)
      from IH [OF this] \<open>r' = r\<close> show False by simp
    qed
  qed
  with y show False by blast
qed

lemma push_oldest_evicted:
  assumes "ring_inv r"
  shows "\<exists>r'. push_oldest r x = Some (r', True) \<and> evicted r' = evicted r + (if depth r < cap r then 0 else 1)"
proof (cases "depth r < cap r")
  case True
  then show ?thesis
    using enq_props(4) [OF assms True, of x] by (simp add: push_evicting [OF assms])
next
  case False
  with ring_invD(2) [OF assms] cap_pos [OF ring_invD(1) [OF assms]] have ne: "depth r \<noteq> 0" by auto
  note ev = evictOldest_props [OF assms ne]
  have "evicted (enq (evictOldest r) x) = evicted r + 1"
    using ev by (simp add: enq_def)
  then show ?thesis using False by (simp add: push_evicting [OF assms])
qed

lemma push_all_oldest_evicted:
  assumes "ring_inv r" and "push_all push_oldest r xs = Some (r', n)"
  shows "evicted r' = evicted r + of_nat (length (items r) + length xs - cap r)"
  using assms
proof (induction xs arbitrary: r r' n)
  case Nil
  then show ?case using ring_invD(2) [of r] by simp
next
  case (Cons x xs)
  obtain q where q: "push_oldest r x = Some (q, True)"
    "evicted q = evicted r + (if depth r < cap r then 0 else 1)"
    using push_oldest_evicted [OF Cons.prems(1)] by blast
  have inv: "ring_inv q" and c: "cap q = cap r"
    and it: "items q = drop (Suc (length (items r)) - cap r) (items r @ [x])"
    using rq_oldest.put_step [OF Cons.prems(1), of x] q(1) by auto
  have d: "length (items q) = (if depth r < cap r then Suc (depth r) else depth r)"
    using ring_invD(2) [OF Cons.prems(1)] cap_pos [OF ring_invD(1) [OF Cons.prems(1)]]
    by (simp only: it) auto
  obtain n' where "push_all push_oldest q xs = Some (r', n')"
    using Cons.prems(2) q(1) by (cases "push_all push_oldest q xs") auto
  from Cons.IH [OF inv this] show ?case
    using q(2) c d ring_invD(2) [OF Cons.prems(1)] by (auto simp: Suc_diff_le)
qed

section \<open>Properties\<close>

text \<open>
  \<^verbatim>\<open>newRingbuf\<close> panics exactly on a size that is not a positive power of two; otherwise
  it returns an empty ring of that capacity in its invariant state (for sizes above one).
\<close>

lemma newRingbuf_correct:
  "if \<exists>k < 64. sz = 2 ^ k
   then \<exists>r. newRingbuf z sz = Ret r \<and> (sz \<noteq> 1 \<longrightarrow> ring_inv r \<and> items r = [] \<and> cap r = unat sz \<and> evicted r = 0)
   else newRingbuf z sz = Panics (PanicMsg ''tickbatch: QueueSize must be a positive power of two'')"
proof (cases "is_pow2 sz")
  case True
  moreover have "\<exists>r. newRingbuf z sz = Ret r" using True by (simp add: newRingbuf_def)
  ultimately show ?thesis
    using newRingbuf_inv [OF True, of z] by (auto simp flip: is_pow2_iff)
next
  case False
  then show ?thesis by (auto simp: newRingbuf_def simp flip: is_pow2_iff)
qed

text \<open>
  C27: a burst of pushes against a full ring, with cursors that may wrap. Under \<^verbatim>\<open>DropNewest\<close> the ring
  keeps the queued items and then the oldest of the burst up to its capacity, in order, and
  refuses (reports false for) exactly the items that did not fit. Under \<^verbatim>\<open>DropOldest\<close> no item
  is refused: the ring ends with the newest items up to its capacity, in order, and
  \<^verbatim>\<open>evicted\<close> grows by exactly the number of items that were pushed out.
\<close>

theorem burst_policies:
  assumes "ring_inv r"
  shows "(\<exists>r'. push_all (\<lambda>r x. push r x DropNewest) r xs = Some (r', length (items r) + length xs - cap r) \<and>
      ring_inv r' \<and> cap r' = cap r \<and> items r' = take (cap r) (items r @ xs)) \<and>
    (\<exists>r'. push_all (\<lambda>r x. push r x DropOldest) r xs = Some (r', 0) \<and>
      ring_inv r' \<and> cap r' = cap r \<and> items r' = drop (length (items r) + length xs - cap r) (items r @ xs) \<and>
      evicted r' = evicted r + of_nat (length (items r) + length xs - cap r))"
  using rq_newest.push_all_keeps_oldest [OF assms, of xs] rq_oldest.push_all_keeps_newest [OF assms, of xs]
    push_all_oldest_evicted [OF assms, of xs] by auto

theorem burst_policies_witness:
  "\<exists>r r1 r2. newRingbuf (0::nat) 4 = Ret r \<and>
     push_all (\<lambda>r x. push r x DropNewest) r [1, 2, 3, 4, 5, 6] = Some (r1, 2) \<and> items r1 = [1, 2, 3, 4] \<and>
     push_all (\<lambda>r x. push r x DropOldest) r [1, 2, 3, 4, 5, 6] = Some (r2, 0) \<and> items r2 = [3, 4, 5, 6] \<and> evicted r2 = 2"
proof -
  have "is_pow2 4" by (simp add: is_pow2_def)
  then obtain r where r: "newRingbuf (0::nat) 4 = Ret r" "ring_inv r" "items r = []" "cap r = 4" "evicted r = 0"
    using newRingbuf_inv [of 4 "0::nat"] by auto
  from burst_policies [OF r(2), of "[1, 2, 3, 4, 5, 6]"] r show ?thesis by auto
qed

text \<open>
  \<^verbatim>\<open>pop\<close> never spins on a quiescent ring and is first-in first-out: \<open>n\<close> calls return the
  first \<open>n\<close> queued items in order (fewer when the ring runs empty) and leave the rest.
\<close>

lemma pop_fifo:
  assumes "ring_inv r"
  shows "\<exists>r'. pull_upto (pop_option zero) r n = Some (r', take n (items r)) \<and> ring_inv r' \<and>
    items r' = drop n (items r) \<and> cap r' = cap r"
  by (rule rq_fifo.pull_upto_fifo [OF assms])

text \<open>
  C36: a ring of size one, which \<^verbatim>\<open>newRingbuf\<close> accepts, is broken: a second push before any pop
  is accepted and overwrites the queued item, and the next \<^verbatim>\<open>popMarshal\<close> never returns.
\<close>

theorem one_slot_ring_spins:
  "\<exists>r r1 r2. newRingbuf z 1 = Ret r \<and> push r a DropNewest = Some (r1, True) \<and>
     push r1 b DropNewest = Some (r2, True) \<and> data r2 = [b] \<and> popMarshal m r2 buf = None"
proof -
  let ?r = "\<lparr>head = 0, tail = 0, rmask = 0, seqs = [0], data = [z], evicted = 0\<rparr> :: 'a ringbuf"
  let ?r1 = "?r\<lparr>tail := 1, seqs := [1], data := [a]\<rparr>" and ?r2 = "?r\<lparr>tail := 2, seqs := [2], data := [b]\<rparr>"
  have "newRingbuf z 1 = Ret ?r" by (simp add: newRingbuf_def is_pow2_def)
  moreover have "push ?r a DropNewest = Some (?r1, True)"
    by (simp add: push_def push_loop.simps idx_def)
  moreover have "push ?r1 b DropNewest = Some (?r2, True)"
    by (simp add: push_def push_loop.simps idx_def)
  moreover have "popMarshal m ?r2 buf = None"
    by (rule popMarshal_spins) (simp_all add: idx_def)
  ultimately show ?thesis by auto
qed

end
