(* ===== verification/Ring_Concurrent.thy ===== *)
theory Ring_Concurrent
  imports Ringbuf
begin

unbundle bit_operations_syntax

text \<open>
  \<^verbatim>\<open>ringbuf.go\<close> under concurrency: any number of goroutines inside \<^verbatim>\<open>push\<close>, \<^verbatim>\<open>evictOldest\<close>,
  \<^verbatim>\<open>pop\<close> and \<^verbatim>\<open>popMarshal\<close>, interleaved at the level of single atomic operations. A program
  counter (\<open>pc\<close>) says which operation comes next and holds the goroutine's local variables;
  \<open>astep\<close> performs it. Go's atomics are sequentially consistent, and the plain accesses to
  \<^verbatim>\<open>data\<close> are covered by the exclusive ownership proved here.
\<close>

section \<open>Goroutines\<close>

datatype 'a pc =
    Idle
  | PTail 'a BackpressurePolicy int          \<comment> \<open>push: load tail\<close>
  | PSeq 'a BackpressurePolicy int u64       \<comment> \<open>load the slot's sequence number\<close>
  | PCas 'a BackpressurePolicy int u64       \<comment> \<open>compare-and-swap tail\<close>
  | PWrite 'a u64                            \<comment> \<open>write the item\<close>
  | PPub u64                                 \<comment> \<open>publish\<close>
  | PRet bool
  | EHead 'a BackpressurePolicy int          \<comment> \<open>evictOldest: load head\<close>
  | ESeq 'a BackpressurePolicy int u64
  | ECas 'a BackpressurePolicy int u64
  | ERecycle 'a BackpressurePolicy int u64
  | ECount 'a BackpressurePolicy int
  | CHead                                    \<comment> \<open>pop: load head\<close>
  | CSeq u64
  | CCas u64
  | CRead u64                                \<comment> \<open>read or marshal the item\<close>
  | CRecycle u64 'a
  | CRet "'a option"

fun astep :: "'a ringbuf \<Rightarrow> 'a pc \<Rightarrow> 'a ringbuf \<times> 'a pc" where
  "astep r (PTail x p n) = (r, PSeq x p n (tail r))"
| "astep r (PSeq x p n pos) =
     (let diff = seqs r ! idx r pos - pos in
      (r, if diff = 0 then PCas x p n pos
          else if sint diff < 0
          then if p = DropNewest then PRet False
               else if n + 1 > maxEvictRetries then PRet False
               else EHead x p (n + 1)
          else PTail x p n))"
| "astep r (PCas x p n pos) =
     (if tail r = pos then (r\<lparr>tail := pos + 1\<rparr>, PWrite x pos) else (r, PTail x p n))"
| "astep r (PWrite x pos) = (r\<lparr>data := (data r)[idx r pos := x]\<rparr>, PPub pos)"
| "astep r (PPub pos) = (r\<lparr>seqs := (seqs r)[idx r pos := pos + 1]\<rparr>, PRet True)"
| "astep r (EHead x p n) = (r, ESeq x p n (head r))"
| "astep r (ESeq x p n hp) = (r, if seqs r ! idx r hp = hp + 1 then ECas x p n hp else PTail x p n)"
| "astep r (ECas x p n hp) =
     (if head r = hp then (r\<lparr>head := hp + 1\<rparr>, ERecycle x p n hp) else (r, PTail x p n))"
| "astep r (ERecycle x p n hp) = (r\<lparr>seqs := (seqs r)[idx r hp := hp + rmask r + 1]\<rparr>, ECount x p n)"
| "astep r (ECount x p n) = (r\<lparr>evicted := evicted r + 1\<rparr>, PTail x p n)"
| "astep r CHead = (r, CSeq (head r))"
| "astep r (CSeq pos) =
     (let diff = seqs r ! idx r pos - (pos + 1) in
      (r, if diff = 0 then CCas pos else if sint diff < 0 then CRet None else CHead))"
| "astep r (CCas pos) =
     (if head r = pos then (r\<lparr>head := pos + 1\<rparr>, CRead pos) else (r, CHead))"
| "astep r (CRead pos) = (r, CRecycle pos (data r ! idx r pos))"
| "astep r (CRecycle pos x) = (r\<lparr>seqs := (seqs r)[idx r pos := pos + rmask r + 1]\<rparr>, CRet (Some x))"
| "astep r c = (r, c)"

section \<open>The system\<close>

text \<open>
  \<open>claims\<close>, \<open>taken\<close>, \<open>delivered\<close> and \<open>dropped_pos\<close> are history variables, no part of the code:
  the items in the order of the successful compare-and-swaps on tail, the number of
  successful ones on head, the items handed to consumers with their positions, and the
  positions recycled by \<^verbatim>\<open>evictOldest\<close>.
\<close>

record 'a sys =
  ring :: "'a ringbuf"
  threads :: "nat \<Rightarrow> 'a pc"
  claims :: "'a list"
  taken :: nat
  delivered :: "(nat \<times> 'a) list"
  dropped_pos :: "nat list"

definition init_sys :: "'a ringbuf \<Rightarrow> 'a sys" where
  "init_sys r = \<lparr>ring = r, threads = (\<lambda>_. Idle), claims = [], taken = 0, delivered = [], dropped_pos = []\<rparr>"

primrec at_rest :: "'a pc \<Rightarrow> bool" where
  "at_rest Idle = True" | "at_rest (PTail x p n) = False" | "at_rest (PSeq x p n q) = False"
| "at_rest (PCas x p n q) = False" | "at_rest (PWrite x q) = False" | "at_rest (PPub q) = False"
| "at_rest (PRet b) = True" | "at_rest (EHead x p n) = False" | "at_rest (ESeq x p n q) = False"
| "at_rest (ECas x p n q) = False" | "at_rest (ERecycle x p n q) = False" | "at_rest (ECount x p n) = False"
| "at_rest CHead = False" | "at_rest (CSeq q) = False" | "at_rest (CCas q) = False"
| "at_rest (CRead q) = False" | "at_rest (CRecycle q x) = False" | "at_rest (CRet y) = True"

text \<open>The history variables after one step of a goroutine at \<open>c\<close>.\<close>

fun record_step :: "'a pc \<Rightarrow> 'a sys \<Rightarrow> 'a sys" where
  "record_step (PCas x p n pos) s = (if tail (ring s) = pos then s\<lparr>claims := claims s @ [x]\<rparr> else s)"
| "record_step (ECas x p n hp) s = (if head (ring s) = hp then s\<lparr>taken := Suc (taken s)\<rparr> else s)"
| "record_step (CCas pos) s = (if head (ring s) = pos then s\<lparr>taken := Suc (taken s)\<rparr> else s)"
| "record_step (ERecycle x p n hp) s = s\<lparr>dropped_pos := dropped_pos s @ [unat hp]\<rparr>"
| "record_step (CRecycle pos x) s = s\<lparr>delivered := delivered s @ [(unat pos, x)]\<rparr>"
| "record_step c s = s"

definition run_thread :: "nat \<Rightarrow> 'a sys \<Rightarrow> 'a sys" where
  "run_thread t s =
     (case astep (ring s) (threads s t) of (r', c') \<Rightarrow>
        (record_step (threads s t) s)\<lparr>ring := r', threads := (threads s)(t := c')\<rparr>)"

inductive sys_step :: "'a sys \<Rightarrow> 'a sys \<Rightarrow> bool" where
  call_push: "at_rest (threads s t) \<Longrightarrow> sys_step s (s\<lparr>threads := (threads s)(t := PTail x p 0)\<rparr>)"
| call_pop: "at_rest (threads s t) \<Longrightarrow> sys_step s (s\<lparr>threads := (threads s)(t := CHead)\<rparr>)"
| run: "\<not> at_rest (threads s t) \<Longrightarrow> sys_step s (run_thread t s)"

definition reachable :: "'a ringbuf \<Rightarrow> 'a sys \<Rightarrow> bool" where
  "reachable r0 s \<longleftrightarrow> sys_step\<^sup>*\<^sup>* (init_sys r0) s"

inductive_cases sys_stepE: "sys_step s s'"

section \<open>The invariant\<close>

text \<open>Sequence number and item of the slot that position \<open>p\<close> falls into.\<close>

definition seq_at :: "'a ringbuf \<Rightarrow> nat \<Rightarrow> u64" where
  "seq_at r p = seqs r ! (p mod cap r)"

definition data_at :: "'a ringbuf \<Rightarrow> nat \<Rightarrow> 'a" where
  "data_at r p = data r ! (p mod cap r)"

text \<open>The position a goroutine is writing, and the position it has taken for reading.\<close>

fun writes :: "'a pc \<Rightarrow> nat option" where
  "writes (PWrite x pos) = Some (unat pos)"
| "writes (PPub pos) = Some (unat pos)"
| "writes c = None"

fun holds :: "'a pc \<Rightarrow> nat option" where
  "holds (ERecycle x p n hp) = Some (unat hp)"
| "holds (CRead pos) = Some (unat pos)"
| "holds (CRecycle pos x) = Some (unat pos)"
| "holds c = None"

text \<open>Which goroutine writes which position, and which one has taken which position.\<close>

definition writing :: "(nat \<Rightarrow> 'a pc) \<Rightarrow> nat \<rightharpoonup> nat" where
  "writing th = writes \<circ> th"

definition held :: "(nat \<Rightarrow> 'a pc) \<Rightarrow> nat \<rightharpoonup> nat" where
  "held th = holds \<circ> th"

text \<open>
  What each goroutine knows, for head \<open>h\<close> and claims \<open>cl\<close> (so tail is \<open>length cl\<close>).
\<close>

fun knows :: "'a ringbuf \<Rightarrow> nat \<Rightarrow> 'a list \<Rightarrow> 'a pc \<Rightarrow> bool" where
  "knows r h cl (PSeq x p n pos) = (unat pos \<le> length cl)"
| "knows r h cl (PCas x p n pos) =
     (unat pos \<le> length cl \<and> (unat pos = length cl \<longrightarrow> seq_at r (length cl) = of_nat (length cl)))"
| "knows r h cl (PWrite x pos) =
     (h \<le> unat pos \<and> unat pos < length cl \<and> seq_at r (unat pos) = pos \<and> cl ! unat pos = x)"
| "knows r h cl (PPub pos) =
     (h \<le> unat pos \<and> unat pos < length cl \<and> seq_at r (unat pos) = pos \<and>
      data_at r (unat pos) = cl ! unat pos)"
| "knows r h cl (ESeq x p n hp) = (unat hp \<le> h)"
| "knows r h cl (ECas x p n hp) =
     (unat hp \<le> h \<and> (unat hp = h \<longrightarrow> seq_at r h = of_nat h + 1))"
| "knows r h cl (ERecycle x p n hp) =
     (unat hp < h \<and> length cl \<le> unat hp + cap r \<and> seq_at r (unat hp) = hp + 1)"
| "knows r h cl (CSeq pos) = (unat pos \<le> h)"
| "knows r h cl (CCas pos) =
     (unat pos \<le> h \<and> (unat pos = h \<longrightarrow> seq_at r h = of_nat h + 1))"
| "knows r h cl (CRead pos) =
     (unat pos < h \<and> length cl \<le> unat pos + cap r \<and> seq_at r (unat pos) = pos + 1 \<and>
      data_at r (unat pos) = cl ! unat pos)"
| "knows r h cl (CRecycle pos x) =
     (unat pos < h \<and> length cl \<le> unat pos + cap r \<and> seq_at r (unat pos) = pos + 1 \<and>
      x = cl ! unat pos)"
| "knows r h cl c = True"

definition cursors_ok :: "'a sys \<Rightarrow> bool" where
  "cursors_ok s \<longleftrightarrow> ring_shape (ring s) \<and> head (ring s) = of_nat (taken s) \<and>
     tail (ring s) = of_nat (length (claims s)) \<and>
     taken s \<le> length (claims s) \<and> length (claims s) \<le> taken s + cap (ring s)"

text \<open>A claimed position is published, or its producer is still writing it.\<close>

definition queued_ok :: "'a sys \<Rightarrow> bool" where
  "queued_ok s \<longleftrightarrow> (\<forall>p. taken s \<le> p \<and> p < length (claims s) \<longrightarrow>
     (seq_at (ring s) p = of_nat p + 1 \<and> data_at (ring s) p = claims s ! p) \<or>
     (seq_at (ring s) p = of_nat p \<and> p \<in> ran (writing (threads s))))"

text \<open>An unclaimed position is free, or the goroutine that took its slot one lap before has
  not recycled it yet.\<close>

definition free_ok :: "'a sys \<Rightarrow> bool" where
  "free_ok s \<longleftrightarrow> (\<forall>p. length (claims s) \<le> p \<and> p < taken s + cap (ring s) \<longrightarrow>
     seq_at (ring s) p = of_nat p \<or>
     (cap (ring s) \<le> p \<and> seq_at (ring s) p = of_nat (p - cap (ring s)) + 1 \<and>
      p - cap (ring s) \<in> ran (held (threads s))))"

definition owners_ok :: "'a sys \<Rightarrow> bool" where
  "owners_ok s \<longleftrightarrow> inj_map (writing (threads s)) \<and> inj_map (held (threads s))"

text \<open>Every taken position is delivered, dropped or in the hands of one goroutine, once.\<close>

definition gone :: "'a sys \<Rightarrow> nat list" where
  "gone s = map fst (delivered s) @ dropped_pos s"

definition history_ok :: "'a sys \<Rightarrow> bool" where
  "history_ok s \<longleftrightarrow> distinct (gone s) \<and> ran (held (threads s)) \<inter> set (gone s) = {} \<and>
     ran (held (threads s)) \<union> set (gone s) = {0..<taken s} \<and>
     (\<forall>(p, x) \<in> set (delivered s). x = claims s ! p)"

definition conc_inv :: "'a sys \<Rightarrow> bool" where
  "conc_inv s \<longleftrightarrow> cursors_ok s \<and> queued_ok s \<and> free_ok s \<and>
     (\<forall>t. knows (ring s) (taken s) (claims s) (threads s t)) \<and> owners_ok s \<and> history_ok s"

text \<open>No position reaches \<open>2 ^ 64\<close>: fewer than \<open>2 ^ 64 - cap\<close> pushes have been accepted.\<close>

definition no_wrap :: "'a sys \<Rightarrow> bool" where
  "no_wrap s \<longleftrightarrow> length (claims s) + cap (ring s) < 2 ^ 64"

section \<open>Arithmetic of positions\<close>

lemma unat_of_nat_u64: "a < 2 ^ 64 \<Longrightarrow> unat (of_nat a :: u64) = a"
  by (simp add: unat_of_nat)

lemma of_nat_u64_eq: "a < 2 ^ 64 \<Longrightarrow> b < 2 ^ 64 \<Longrightarrow> (of_nat a :: u64) = of_nat b \<longleftrightarrow> a = b"
  by (metis unat_of_nat_u64)

lemma of_nat_unat_u64: "of_nat (unat w) = (w :: u64)"
  by simp

text \<open>Positions in one window of \<open>n\<close> consecutive ones fall into different slots.\<close>

lemma window_slots:
  assumes "h \<le> p" "p < h + n" "h \<le> q" "q < h + n" "p \<noteq> q"
  shows "p mod n \<noteq> q mod (n::nat)"
proof -
  obtain i j where "p = h + i" "q = h + j" using assms by (metis le_Suc_ex)
  with assms mod_add_left_inj_nat [of i n j h] show ?thesis by auto
qed

lemma seq_at_add_cap: "seq_at r (p + cap r) = seq_at r p"
  and data_at_add_cap: "data_at r (p + cap r) = data_at r p"
  by (simp_all add: seq_at_def data_at_def)

lemma at_simps [simp]:
  "seq_at (r\<lparr>tail := t\<rparr>) p = seq_at r p" "data_at (r\<lparr>tail := t\<rparr>) p = data_at r p" "cap (r\<lparr>tail := t\<rparr>) = cap r"
  "seq_at (r\<lparr>head := t\<rparr>) p = seq_at r p" "data_at (r\<lparr>head := t\<rparr>) p = data_at r p" "cap (r\<lparr>head := t\<rparr>) = cap r"
  "seq_at (r\<lparr>evicted := e\<rparr>) p = seq_at r p" "data_at (r\<lparr>evicted := e\<rparr>) p = data_at r p"
  "seq_at (r\<lparr>data := d\<rparr>) p = seq_at r p" "cap (r\<lparr>data := d\<rparr>) = cap r"
  "data_at (r\<lparr>seqs := (seqs r)[i := v]\<rparr>) p = data_at r p" "cap (r\<lparr>seqs := (seqs r)[i := v]\<rparr>) = cap r"
  by (simp_all add: seq_at_def data_at_def cap_def)

lemma shape_simps [simp]:
  "ring_shape (r\<lparr>tail := t\<rparr>) = ring_shape r" "ring_shape (r\<lparr>head := t\<rparr>) = ring_shape r"
  "ring_shape (r\<lparr>data := (data r)[i := x]\<rparr>) = ring_shape r"
  "ring_shape (r\<lparr>seqs := (seqs r)[i := v]\<rparr>) = ring_shape r"
  by (simp_all add: ring_shape_def)

lemma seq_at_update:
  assumes "ring_shape r"
  shows "seq_at (r\<lparr>seqs := (seqs r)[p mod cap r := v]\<rparr>) q =
    (if q mod cap r = p mod cap r then v else seq_at r q)"
proof -
  have "0 < cap r" using cap_pos [OF assms] by simp
  then have "p mod cap r < length (seqs r)" unfolding cap_def by (rule mod_less_divisor)
  then show ?thesis by (auto simp: seq_at_def nth_list_update cap_def)
qed

lemma data_at_update:
  assumes "ring_shape r"
  shows "data_at (r\<lparr>data := (data r)[p mod cap r := x]\<rparr>) q =
    (if q mod cap r = p mod cap r then x else data_at r q)"
proof -
  have "p mod cap r < length (data r)" using cap_pos [OF assms] by (simp add: length_data [OF assms])
  then show ?thesis by (auto simp: data_at_def nth_list_update cap_def)
qed

section \<open>Consequences of the invariant\<close>

text \<open>The numbers of one state: \<open>h\<close> taken, \<open>n\<close> slots, and no position wraps.\<close>

lemma inv_numbers:
  assumes "conc_inv s" and "no_wrap s"
  shows "ring_shape (ring s)" and "2 \<le> cap (ring s)"
    and "taken s \<le> length (claims s)" and "length (claims s) \<le> taken s + cap (ring s)"
    and "taken s + cap (ring s) < 2 ^ 64" and "length (claims s) + cap (ring s) < 2 ^ 64"
    and "head (ring s) = pos \<Longrightarrow> unat pos = taken s"
    and "tail (ring s) = pos \<Longrightarrow> unat pos = length (claims s)"
proof -
  have c: "cursors_ok s" using assms(1) by (simp add: conc_inv_def)
  then show sh: "ring_shape (ring s)" and "taken s \<le> length (claims s)"
    and "length (claims s) \<le> taken s + cap (ring s)" by (simp_all add: cursors_ok_def)
  show "2 \<le> cap (ring s)" by (rule cap_pos [OF sh])
  show w: "length (claims s) + cap (ring s) < 2 ^ 64" using assms(2) by (simp add: no_wrap_def)
  then show "taken s + cap (ring s) < 2 ^ 64" using \<open>taken s \<le> length (claims s)\<close> by linarith
  show "unat pos = taken s" if "head (ring s) = pos"
    using that c w by (auto simp: cursors_ok_def unat_of_nat_u64)
  show "unat pos = length (claims s)" if "tail (ring s) = pos"
    using that c w by (auto simp: cursors_ok_def unat_of_nat_u64)
qed

lemma inv_knows: "conc_inv s \<Longrightarrow> threads s t = c \<Longrightarrow> knows (ring s) (taken s) (claims s) c"
  by (auto simp: conc_inv_def)

lemma writesD:
  assumes "conc_inv s" and "writes (threads s t) = Some p"
  shows "taken s \<le> p" and "p < length (claims s)" and "seq_at (ring s) p = of_nat p"
proof -
  obtain pos where "p = unat pos" "threads s t = PPub pos \<or> (\<exists>x. threads s t = PWrite x pos)"
    using assms(2) by (cases "threads s t") auto
  with inv_knows [OF assms(1) refl, of t]
  show "taken s \<le> p" and "p < length (claims s)" and "seq_at (ring s) p = of_nat p" by auto
qed

lemma holdsD:
  assumes "conc_inv s" and "holds (threads s t) = Some p"
  shows "p < taken s" and "length (claims s) \<le> p + cap (ring s)" and "seq_at (ring s) p = of_nat p + 1"
proof -
  obtain pos where "p = unat pos"
    "threads s t = CRead pos \<or> (\<exists>x. threads s t = CRecycle pos x) \<or> (\<exists>x q n. threads s t = ERecycle x q n pos)"
    using assms(2) by (cases "threads s t") auto
  with inv_knows [OF assms(1) refl, of t]
  show "p < taken s" and "length (claims s) \<le> p + cap (ring s)" and "seq_at (ring s) p = of_nat p + 1" by auto
qed

text \<open>A free-looking slot at the tail means there is room.\<close>

lemma tail_slot_free:
  assumes inv: "conc_inv s" and w: "no_wrap s"
    and seq: "seq_at (ring s) (length (claims s)) = of_nat (length (claims s))"
  shows "length (claims s) < taken s + cap (ring s)"
proof (rule ccontr)
  note n = inv_numbers [OF inv w]
  assume "\<not> length (claims s) < taken s + cap (ring s)"
  with n(4) have eq: "length (claims s) = taken s + cap (ring s)" by simp
  with seq have sq: "seq_at (ring s) (taken s) = of_nat (taken s + cap (ring s))"
    by (simp only: eq seq_at_add_cap)
  have "taken s < length (claims s)" using eq n(2) by simp
  with inv have "seq_at (ring s) (taken s) = of_nat (taken s + 1) \<or> seq_at (ring s) (taken s) = of_nat (taken s)"
    unfolding conc_inv_def queued_ok_def by fastforce
  with sq show False
    using n(2,5) by (auto simp only: of_nat_u64_eq)
qed

text \<open>A published-looking slot at the head is published.\<close>

lemma head_slot_published:
  assumes inv: "conc_inv s" and w: "no_wrap s"
    and seq: "seq_at (ring s) (taken s) = of_nat (taken s) + 1"
  shows "taken s < length (claims s)" and "data_at (ring s) (taken s) = claims s ! taken s"
    and "writes (threads s t) \<noteq> Some (taken s)"
proof -
  note n = inv_numbers [OF inv w]
  have sq: "seq_at (ring s) (taken s) = of_nat (taken s + 1)" using seq by simp
  show lt: "taken s < length (claims s)"
  proof (rule ccontr)
    assume "\<not> taken s < length (claims s)"
    with n(3) have "length (claims s) = taken s" by simp
    with inv n(2) have "seq_at (ring s) (taken s) = of_nat (taken s) \<or>
      (cap (ring s) \<le> taken s \<and> seq_at (ring s) (taken s) = of_nat (taken s - cap (ring s) + 1))"
      unfolding conc_inv_def free_ok_def by fastforce
    with sq n(2,5) show False by (auto simp only: of_nat_u64_eq)
  qed
  with inv have "(data_at (ring s) (taken s) = claims s ! taken s) \<or> seq_at (ring s) (taken s) = of_nat (taken s)"
    unfolding conc_inv_def queued_ok_def by fastforce
  with sq n(2,5) show "data_at (ring s) (taken s) = claims s ! taken s"
    by (auto simp only: of_nat_u64_eq)
  show "writes (threads s t) \<noteq> Some (taken s)"
  proof
    assume "writes (threads s t) = Some (taken s)"
    then have "seq_at (ring s) (taken s) = of_nat (taken s)" by (rule writesD [OF inv])
    with sq n(2,5) show False by (auto simp only: of_nat_u64_eq)
  qed
qed

section \<open>Every step keeps the invariant\<close>

lemma writing_upd: "writing (th(t := c)) = (writing th)(t := writes c)"
  and held_upd: "held (th(t := c)) = (held th)(t := holds c)"
  by (auto simp: writing_def held_def)

lemma writing_apply: "writing th t = writes (th t)"
  and held_apply: "held th t = holds (th t)"
  by (simp_all add: writing_def held_def)

lemmas owner_simps = writing_upd held_upd writing_apply held_apply

lemma writing_same: "writes c = writes (th t) \<Longrightarrow> writing (th(t := c)) = writing th"
  and held_same: "holds c = holds (th t) \<Longrightarrow> held (th(t := c)) = held th"
  by (auto simp: owner_simps)

lemmas inv_defs = conc_inv_def cursors_ok_def queued_ok_def free_ok_def owners_ok_def history_ok_def gone_def

lemma ran_writingD: "p \<in> ran (writing (threads s)) \<Longrightarrow> \<exists>t. writes (threads s t) = Some p"
  and ran_heldD: "p \<in> ran (held (threads s)) \<Longrightarrow> \<exists>t. holds (threads s t) = Some p"
  by (auto simp: ran_def owner_simps)

text \<open>A step that leaves the shared state and the goroutine's ownership alone.\<close>

lemma inv_quiet:
  assumes inv: "conc_inv s" and "writes c' = writes (threads s t)" and "holds c' = holds (threads s t)"
    and k: "knows (ring s) (taken s) (claims s) c'"
  shows "conc_inv (s\<lparr>threads := (threads s)(t := c')\<rparr>)"
  using inv k by (simp add: inv_defs writing_same [of c' "threads s" t, OF assms(2)]
      held_same [of c' "threads s" t, OF assms(3)])

lemma knows_evicted [simp]: "knows (r\<lparr>evicted := e\<rparr>) h cl c = knows r h cl c"
  by (cases c) auto

lemma inv_evicted [simp]: "conc_inv (s\<lparr>ring := ring s\<lparr>evicted := e\<rparr>\<rparr>) = conc_inv s"
  by (simp add: inv_defs)

text \<open>A producer wins the compare-and-swap on tail.\<close>

lemma knows_claim:
  assumes "knows r h cl c" and "2 \<le> cap r" and "length cl + cap r < 2 ^ 64"
    and "seq_at r (length cl) = of_nat (length cl)" and "h \<le> length cl"
  shows "knows (r\<lparr>tail := tl'\<rparr>) h (cl @ [x]) c"
proof -
  have held: "length cl \<noteq> unat q + cap r" if "seq_at r (unat q) = q + 1" for q
  proof
    assume eq: "length cl = unat q + cap r"
    have "of_nat (unat q + 1) = (of_nat (unat q + cap r) :: u64)"
      using that assms(4) by (simp add: eq seq_at_add_cap)
    then show False
      using assms(2,3) eq of_nat_u64_eq [of "unat q + 1" "unat q + cap r"] by simp
  qed
  show ?thesis
    using assms(1,5) held by (cases c) (auto simp: nth_append less_Suc_eq_le le_less)
qed

lemma inv_claim:
  assumes inv: "conc_inv s" and w: "no_wrap s" and th: "threads s t = PCas x p n pos"
    and win: "tail (ring s) = pos"
  shows "conc_inv (s\<lparr>claims := claims s @ [x], ring := (ring s)\<lparr>tail := pos + 1\<rparr>,
    threads := (threads s)(t := PWrite x pos)\<rparr>)" (is "conc_inv ?s'")
proof -
  note n = inv_numbers [OF inv w]
  let ?T = "length (claims s)"
  have pos: "unat pos = ?T" "pos = of_nat ?T"
    using n(8) [OF win] inv win by (simp_all add: conc_inv_def cursors_ok_def)
  have seq: "seq_at (ring s) ?T = of_nat ?T"
    using inv_knows [OF inv th] pos by simp
  note room = tail_slot_free [OF inv w seq]
  have wr: "writing ((threads s)(t := PWrite x pos)) = (writing (threads s))(t \<mapsto> ?T)"
    using pos(1) by (simp add: owner_simps)
  have ran_wr: "ran ((writing (threads s))(t \<mapsto> ?T)) = insert ?T (ran (writing (threads s)))"
    using th by (intro ran_map_upd) (simp add: owner_simps)
  have hd: "held ((threads s)(t := PWrite x pos)) = held (threads s)"
    using th by (intro held_same) auto
  have "cursors_ok ?s'"
    using inv room pos(2) by (simp add: conc_inv_def cursors_ok_def)
  moreover have "queued_ok ?s'"
    using inv seq by (auto simp: conc_inv_def queued_ok_def wr ran_wr nth_append less_Suc_eq)
  moreover have "free_ok ?s'"
    using inv by (simp add: conc_inv_def free_ok_def hd)
  moreover have "\<forall>u. knows (ring ?s') (taken ?s') (claims ?s') (threads ?s' u)"
    using inv_knows [OF inv refl] n(2,3,6) seq pos by (auto intro: knows_claim)
  moreover have "owners_ok ?s'"
  proof -
    have "?T \<notin> ran (writing (threads s))" using ran_writingD writesD(2) [OF inv] by fastforce
    then show ?thesis using inv by (simp add: conc_inv_def owners_ok_def wr hd inj_map_add)
  qed
  moreover have "history_ok ?s'"
  proof -
    have "claims s ! q = (claims s @ [x]) ! q" if "(q, y) \<in> set (delivered s)" for q y
    proof -
      have "q \<in> set (gone s)" using that by (force simp: gone_def)
      then have "q < taken s" using inv by (auto simp: conc_inv_def history_ok_def)
      then show ?thesis using n(3) by (simp add: nth_append)
    qed
    then show ?thesis
      using inv by (auto simp: conc_inv_def history_ok_def gone_def hd)
  qed
  ultimately show ?thesis by (simp add: conc_inv_def)
qed

text \<open>The producer writes its item, then publishes it.\<close>

lemma same_slot: "q mod cap r = p mod cap r \<Longrightarrow> seq_at r q = seq_at r p"
  by (simp add: seq_at_def)

lemma Suc_slot: "2 \<le> n \<Longrightarrow> Suc q mod n \<noteq> q mod (n::nat)"
  using window_slots [of q "Suc q" n q] by simp

lemma idx_unat: "ring_shape r \<Longrightarrow> idx r pos = unat pos mod cap r"
  by (rule idx_mod)

lemma inv_write:
  assumes inv: "conc_inv s" and w: "no_wrap s" and th: "threads s t = PWrite x pos"
  shows "conc_inv (s\<lparr>ring := (ring s)\<lparr>data := (data (ring s))[idx (ring s) pos := x]\<rparr>,
    threads := (threads s)(t := PPub pos)\<rparr>)" (is "conc_inv ?s'")
proof -
  note n = inv_numbers [OF inv w]
  let ?r = "ring s" and ?p = "unat pos" and ?N = "cap (ring s)"
  have k: "taken s \<le> ?p" "?p < length (claims s)" "seq_at ?r ?p = pos" "claims s ! ?p = x"
    using inv_knows [OF inv th] by simp_all
  have da: "data_at (ring ?s') q = (if q mod ?N = ?p mod ?N then x else data_at ?r q)" for q
    using data_at_update [OF n(1)] by (simp add: idx_unat [OF n(1)])
  have win: "q = ?p" if "q mod ?N = ?p mod ?N" "taken s \<le> q" "q < taken s + ?N" for q
    using that k n(4) window_slots [of "taken s" q ?N ?p] by auto
  have held: "q mod ?N \<noteq> ?p mod ?N" if "q < taken s" "length (claims s) \<le> q + ?N" for q
    using that k n(4) win [of "q + ?N"] by auto
  have cl: "claims s ! q = x" if "q mod ?N = ?p mod ?N" "taken s \<le> q" "q < length (claims s)" for q
    using that k(4) n(4) win [of q] by simp
  have same: "writing ((threads s)(t := PPub pos)) = writing (threads s)"
    "held ((threads s)(t := PPub pos)) = held (threads s)"
    using th by (auto intro!: writing_same held_same)
  have "knows (ring ?s') (taken s) (claims s) (threads ?s' u)" for u
  proof (cases "u = t")
    case True
    then show ?thesis using k da [of ?p] by simp
  next
    case False
    have "knows ?r (taken s) (claims s) (threads s u)" by (rule inv_knows [OF inv refl])
    then have "knows (ring ?s') (taken s) (claims s) (threads s u)"
      using da cl held by (cases "threads s u") auto
    with False show ?thesis by simp
  qed
  moreover have "queued_ok ?s'"
    using inv da cl unfolding conc_inv_def queued_ok_def by (auto simp: same)
  ultimately show ?thesis
    using inv by (simp add: inv_defs same)
qed

text \<open>While the slot of \<open>p\<close> shows that \<open>p\<close> is being written, a slot that shows another position as free,
  or one up to head as published, is a different slot.\<close>

lemma writer_slot:
  assumes inv: "conc_inv s" and w: "no_wrap s"
    and p: "taken s \<le> p" "p < length (claims s)" "seq_at (ring s) p = of_nat p"
  shows "q mod cap (ring s) = p mod cap (ring s) \<Longrightarrow> taken s \<le> q \<Longrightarrow> q < taken s + cap (ring s) \<Longrightarrow> q = p"
    and "seq_at (ring s) q = of_nat q \<Longrightarrow> q \<noteq> p \<Longrightarrow> q \<le> length (claims s) \<Longrightarrow> q mod cap (ring s) \<noteq> p mod cap (ring s)"
    and "seq_at (ring s) q = of_nat q + 1 \<Longrightarrow> q \<le> taken s \<Longrightarrow> q mod cap (ring s) \<noteq> p mod cap (ring s)"
proof -
  note n = inv_numbers [OF inv w]
  show "q = p" if "q mod cap (ring s) = p mod cap (ring s)" "taken s \<le> q" "q < taken s + cap (ring s)"
    using that p n(4) window_slots [of "taken s" q "cap (ring s)" p] by auto
  show "q mod cap (ring s) \<noteq> p mod cap (ring s)" if "seq_at (ring s) q = of_nat q" "q \<noteq> p" "q \<le> length (claims s)"
    using that p n(6) of_nat_u64_eq [of q p] same_slot [of q "ring s" p] by auto
  show "q mod cap (ring s) \<noteq> p mod cap (ring s)" if q: "seq_at (ring s) q = of_nat q + 1" "q \<le> taken s"
  proof
    assume sl: "q mod cap (ring s) = p mod cap (ring s)"
    then have "of_nat (Suc q) = (of_nat p :: u64)" using q(1) p(3) same_slot [OF sl] by (simp add: add.commute)
    then have "Suc q = p" using q(2) p n(2,3,6) of_nat_u64_eq [of "Suc q" p] by linarith
    with sl Suc_slot [OF n(2), of q] show False by simp
  qed
qed

lemma inv_publish:
  assumes inv: "conc_inv s" and w: "no_wrap s" and th: "threads s t = PPub pos"
  shows "conc_inv (s\<lparr>ring := (ring s)\<lparr>seqs := (seqs (ring s))[idx (ring s) pos := pos + 1]\<rparr>,
    threads := (threads s)(t := PRet True)\<rparr>)" (is "conc_inv ?s'")
proof -
  note n = inv_numbers [OF inv w]
  let ?r = "ring s" and ?p = "unat pos" and ?N = "cap (ring s)"
  have k: "taken s \<le> ?p" "?p < length (claims s)" "seq_at ?r ?p = of_nat ?p" "data_at ?r ?p = claims s ! ?p"
    using inv_knows [OF inv th] by simp_all
  note slot = writer_slot [OF inv w k(1-3)]
  have sa: "seq_at (ring ?s') q = (if q mod ?N = ?p mod ?N then of_nat ?p + 1 else seq_at ?r q)" for q
    using seq_at_update [OF n(1)] by (simp add: idx_unat [OF n(1)])
  have wr: "ran (writing (threads ?s')) = ran (writing (threads s)) - {?p}"
    and inj: "inj_map (writing (threads ?s'))" and hd: "held (threads ?s') = held (threads s)"
    using inv th by (simp_all add: owner_simps conc_inv_def owners_ok_def ran_del inj_map_del)
      (auto simp: owner_simps)
  have uniq: "writes (threads s u) \<noteq> Some ?p" if "u \<noteq> t" for u
    using inv th that inj_mapD [of "writing (threads s)" u ?p t] by (auto simp: conc_inv_def owners_ok_def owner_simps)
  have "knows (ring ?s') (taken s) (claims s) (threads ?s' u)" for u
  proof (cases "u = t")
    case False
    have "knows ?r (taken s) (claims s) (threads s u)" by (rule inv_knows [OF inv refl])
    then have "knows (ring ?s') (taken s) (claims s) (threads s u)"
      using slot(2,3) sa k n(3) uniq [OF False] by (cases "threads s u") auto
    with False show ?thesis by simp
  qed simp
  moreover have "seq_at (ring ?s') q = (if q = ?p then of_nat ?p + 1 else seq_at ?r q)"
    if "taken s \<le> q" "q < length (claims s)" for q
    using that sa [of q] slot(1) [of q] n(4) by auto
  then have "queued_ok ?s'" using inv k(4) wr unfolding conc_inv_def queued_ok_def by simp
  moreover have "seq_at (ring ?s') q = seq_at ?r q" if "length (claims s) \<le> q" "q < taken s + ?N" for q
    using that sa [of q] slot(1) [of q] k n(3) by auto
  then have "free_ok ?s'" using inv hd unfolding conc_inv_def free_ok_def by simp
  ultimately show ?thesis
    using inv inj hd by (simp add: conc_inv_def cursors_ok_def owners_ok_def history_ok_def gone_def)
qed

text \<open>A consumer, or an evicting producer, wins the compare-and-swap on head.\<close>

text \<open>Head moves on over a published position that nobody is writing.\<close>

lemma knows_take:
  assumes "knows r h cl c" and "writes c \<noteq> Some h"
  shows "knows (r\<lparr>head := v\<rparr>) (Suc h) cl c"
  using assms by (cases c) (auto simp: Suc_le_eq le_less)

lemma history_take:
  assumes "history_ok s" and "ran (held (threads s')) = insert (taken s) (ran (held (threads s)))"
    and "taken s' = Suc (taken s)" "claims s' = claims s" "delivered s' = delivered s" "dropped_pos s' = dropped_pos s"
  shows "history_ok s'"
proof -
  have "taken s \<notin> set (gone s)" using assms(1) by (auto simp: history_ok_def)
  then show ?thesis using assms unfolding history_ok_def by (auto simp: gone_def atLeast0_lessThan_Suc)
qed

lemma inv_take:
  assumes inv: "conc_inv s" and w: "no_wrap s"
    and th: "threads s t = CCas pos \<or> (\<exists>x p n. threads s t = ECas x p n pos)"
    and win: "head (ring s) = pos"
    and c': "c' = CRead pos \<or> (\<exists>x p n. c' = ERecycle x p n pos)"
  shows "conc_inv (s\<lparr>taken := Suc (taken s), ring := (ring s)\<lparr>head := pos + 1\<rparr>,
    threads := (threads s)(t := c')\<rparr>)" (is "conc_inv ?s'")
proof -
  note n = inv_numbers [OF inv w]
  let ?r = "ring s" and ?h = "taken s" and ?N = "cap (ring s)"
  have pos: "unat pos = ?h" "pos = of_nat ?h"
    using n(7) [OF win] inv win by (simp_all add: conc_inv_def cursors_ok_def)
  have seq: "seq_at ?r ?h = of_nat ?h + 1"
    using th inv_knows [OF inv refl, of t] pos(1) by auto
  note pub = head_slot_published [OF inv w seq]
  have wr: "writing (threads ?s') = writing (threads s)"
    using th c' by (auto intro!: writing_same)
  have hd: "held (threads ?s') = (held (threads s))(t \<mapsto> ?h)"
    using c' pos(1) by (auto simp: owner_simps)
  have "held (threads s) t = None" using th by (auto simp: owner_simps)
  then have ran: "ran (held (threads ?s')) = insert ?h (ran (held (threads s)))"
    unfolding hd by (rule ran_map_upd)
  have below: "q < ?h" if "q \<in> ran (held (threads s))" for q
    using ran_heldD [OF that] holdsD(1) [OF inv] by auto
  have "cursors_ok ?s'"
    using inv pub(1) pos(2) by (simp add: conc_inv_def cursors_ok_def)
  moreover have "queued_ok ?s'"
    using inv wr unfolding conc_inv_def queued_ok_def by (simp add: Suc_le_eq)
  moreover have "free_ok ?s'"
  proof -
    have "seq_at ?r (?h + ?N) = of_nat ?h + 1" using seq by (simp add: seq_at_add_cap)
    then show ?thesis
      using inv n(4) ran unfolding conc_inv_def free_ok_def by (auto simp: less_Suc_eq)
  qed
  moreover have "knows (ring ?s') (taken ?s') (claims ?s') (threads ?s' u)" for u
    using c' n(4) seq pub(2) pos knows_take [OF inv_knows [OF inv refl] pub(3)] by auto
  moreover have "owners_ok ?s'"
    using inv below wr hd by (auto simp: conc_inv_def owners_ok_def intro!: inj_map_add)
  moreover have "history_ok ?s'"
    using inv by (intro history_take [OF _ ran]) (simp_all add: conc_inv_def)
  ultimately show ?thesis by (simp add: conc_inv_def)
qed

text \<open>
  The goroutine that took position \<open>q\<close> recycles its slot for the next lap. What that changes
  is the sequence number of one slot, which shows no position that another goroutine relies on.
\<close>

lemma recycled_slot:
  assumes inv: "conc_inv s" and w: "no_wrap s" and th: "holds (threads s t) = Some q"
  shows "p mod cap (ring s) = q mod cap (ring s) \<Longrightarrow> taken s \<le> p \<Longrightarrow> p < taken s + cap (ring s) \<Longrightarrow>
      p = q + cap (ring s)"
    and "seq_at (ring s) p = of_nat p \<Longrightarrow> p \<le> length (claims s) \<Longrightarrow> p mod cap (ring s) \<noteq> q mod cap (ring s)"
    and "seq_at (ring s) p = of_nat p + 1 \<Longrightarrow> p \<noteq> q \<Longrightarrow> p \<le> taken s \<Longrightarrow>
      p mod cap (ring s) \<noteq> q mod cap (ring s)"
proof -
  note n = inv_numbers [OF inv w] and k = holdsD [OF inv th]
  let ?N = "cap (ring s)"
  show "p = q + ?N" if "p mod ?N = q mod ?N" "taken s \<le> p" "p < taken s + ?N"
    using that k n(3) window_slots [of "taken s" p ?N "q + ?N"] by auto
  show "p mod ?N \<noteq> q mod ?N" if p: "seq_at (ring s) p = of_nat p" "p \<le> length (claims s)"
  proof
    assume sl: "p mod ?N = q mod ?N"
    then have "of_nat p = (of_nat (Suc q) :: u64)" using p(1) k(3) same_slot [OF sl] by (simp add: add.commute)
    then have "p = Suc q" using p(2) k n(2,3,6) of_nat_u64_eq [of p "Suc q"] by linarith
    with sl Suc_slot [OF n(2), of q] show False by simp
  qed
  show "p mod ?N \<noteq> q mod ?N" if p: "seq_at (ring s) p = of_nat p + 1" "p \<noteq> q" "p \<le> taken s"
  proof
    assume sl: "p mod ?N = q mod ?N"
    then have "of_nat (Suc p) = (of_nat (Suc q) :: u64)" using p(1) k(3) same_slot [OF sl] by (simp add: add.commute)
    then have "p = q" using p(3) k n(2,3,6) of_nat_u64_eq [of "Suc p" "Suc q"] by linarith
    with p(2) show False by simp
  qed
qed

lemma recycled_knows:
  assumes inv: "conc_inv s" and w: "no_wrap s" and th: "holds (threads s t) = Some q" and u: "u \<noteq> t"
    and sa: "\<And>p. seq_at r' p = (if p mod cap (ring s) = q mod cap (ring s) then v else seq_at (ring s) p)"
    and same: "\<And>p. data_at r' p = data_at (ring s) p" "cap r' = cap (ring s)"
  shows "knows r' (taken s) (claims s) (threads s u)"
proof -
  have inj: "inj_map (held (threads s))" using inv by (simp add: conc_inv_def owners_ok_def)
  have uniq: "holds (threads s u) \<noteq> Some q"
    using inj_mapD [OF inj, of u q t] u th by (auto simp: owner_simps)
  have "knows (ring s) (taken s) (claims s) (threads s u)" by (rule inv_knows [OF inv refl])
  then show ?thesis
    using recycled_slot(2,3) [OF inv w th] sa same holdsD(1) [OF inv th] uniq
    by (cases "threads s u") auto
qed

lemma recycled_free:
  assumes inv: "conc_inv s" and w: "no_wrap s" and th: "holds (threads s t) = Some q"
    and sa: "\<And>p. seq_at (ring s') p =
      (if p mod cap (ring s) = q mod cap (ring s) then of_nat (q + cap (ring s)) else seq_at (ring s) p)"
    and same: "claims s' = claims s" "taken s' = taken s" "cap (ring s') = cap (ring s)"
    and ran: "ran (held (threads s')) = ran (held (threads s)) - {q}"
  shows "free_ok s'"
  unfolding free_ok_def same
proof (intro allI impI)
  let ?N = "cap (ring s)"
  fix p assume p: "length (claims s) \<le> p \<and> p < taken s + ?N"
  then have old: "seq_at (ring s) p = of_nat p \<or>
      (?N \<le> p \<and> seq_at (ring s) p = of_nat (p - ?N) + 1 \<and> p - ?N \<in> ran (held (threads s)))"
    using inv by (simp add: conc_inv_def free_ok_def)
  have "taken s \<le> p" using p inv_numbers(3) [OF inv w] by linarith
  with p have slot: "p mod ?N = q mod ?N \<longleftrightarrow> p = q + ?N"
    using recycled_slot(1) [OF inv w th, of p] by auto
  have "p - ?N \<noteq> q" if "p \<noteq> q + ?N" "?N \<le> p" using that by linarith
  with old show "seq_at (ring s') p = of_nat p \<or>
      (?N \<le> p \<and> seq_at (ring s') p = of_nat (p - ?N) + 1 \<and> p - ?N \<in> ran (held (threads s')))"
    unfolding sa slot ran by (cases "p = q + ?N") auto
qed

lemma inv_recycle:
  assumes inv: "conc_inv s" and w: "no_wrap s"
    and th: "holds (threads s t) = Some (unat pos)" and wt: "writes (threads s t) = None"
    and c': "holds c' = None" "writes c' = None" "\<And>r h cl. knows r h cl c'"
    and gone: "distinct (map fst d' @ e')" "set (map fst d' @ e') = insert (unat pos) (set (gone s))"
    and vals: "\<forall>(p, x) \<in> set d'. x = claims s ! p"
  shows "conc_inv (s\<lparr>delivered := d', dropped_pos := e',
    ring := (ring s)\<lparr>seqs := (seqs (ring s))[idx (ring s) pos := pos + rmask (ring s) + 1]\<rparr>,
    threads := (threads s)(t := c')\<rparr>)" (is "conc_inv ?s'")
proof -
  note n = inv_numbers [OF inv w]
  let ?r = "ring s" and ?q = "unat pos" and ?N = "cap (ring s)"
  note k = holdsD [OF inv th]
  have v: "pos + rmask ?r + 1 = of_nat (?q + ?N)"
    using rmask_Suc [OF n(1)] by (simp add: add.assoc)
  have sa: "seq_at (ring ?s') p = (if p mod ?N = ?q mod ?N then of_nat (?q + ?N) else seq_at ?r p)" for p
    using seq_at_update [OF n(1)] v by (simp add: idx_unat [OF n(1)])
  have wr: "writing (threads ?s') = writing (threads s)"
    using wt c' by (auto intro!: writing_same)
  have inj: "inj_map (held (threads s))" using inv by (simp add: conc_inv_def owners_ok_def)
  have hd: "held (threads ?s') = (held (threads s))(t := None)" using c'(1) by (simp add: owner_simps)
  have ht: "held (threads s) t = Some ?q" using th by (simp add: owner_simps)
  have ran: "ran (held (threads ?s')) = ran (held (threads s)) - {?q}"
    unfolding hd by (rule ran_del [OF inj ht])
  have "queued_ok ?s'"
  proof -
    have "seq_at (ring ?s') p = seq_at ?r p" if "taken s \<le> p" "p < length (claims s)" for p
      using that sa [of p] recycled_slot(1) [OF inv w th, of p] k(2) n(4) by auto
    then show ?thesis
      using inv wr unfolding conc_inv_def queued_ok_def by simp
  qed
  moreover have "free_ok ?s'"
    by (rule recycled_free [OF inv w th sa _ _ _ ran]) simp_all
  moreover have "knows (ring ?s') (taken s) (claims s) (threads ?s' u)" for u
    using c'(3) recycled_knows [OF inv w th, of u "ring ?s'", OF _ sa] by (cases "u = t") simp_all
  moreover have "owners_ok ?s'"
    using inv wr hd by (simp add: conc_inv_def owners_ok_def inj_map_del)
  moreover have "history_ok ?s'"
    using inv gone vals k(1) ran ranI [of "held (threads s)" t ?q, OF ht]
    unfolding conc_inv_def history_ok_def by (auto simp: gone_def)
  ultimately show ?thesis using inv by (simp add: conc_inv_def cursors_ok_def)
qed

lemma inv_deliver:
  assumes inv: "conc_inv s" and w: "no_wrap s" and th: "threads s t = CRecycle pos x"
  shows "conc_inv (s\<lparr>delivered := delivered s @ [(unat pos, x)],
    ring := (ring s)\<lparr>seqs := (seqs (ring s))[idx (ring s) pos := pos + rmask (ring s) + 1]\<rparr>,
    threads := (threads s)(t := CRet (Some x))\<rparr>)"
proof -
  have x: "x = claims s ! unat pos" using inv_knows [OF inv th] by simp
  have "unat pos \<in> ran (held (threads s))" using th by (auto simp: owner_simps intro: ranI [of _ t])
  then have "unat pos \<notin> set (gone s)" using inv by (auto simp: conc_inv_def history_ok_def)
  then show ?thesis
    using inv_recycle [OF inv w, of t pos "CRet (Some x)" "delivered s @ [(unat pos, x)]" "dropped_pos s"]
      inv th x by (auto simp: conc_inv_def history_ok_def gone_def)
qed

lemma inv_drop:
  assumes inv: "conc_inv s" and w: "no_wrap s" and th: "threads s t = ERecycle x p n pos"
  shows "conc_inv (s\<lparr>dropped_pos := dropped_pos s @ [unat pos],
    ring := (ring s)\<lparr>seqs := (seqs (ring s))[idx (ring s) pos := pos + rmask (ring s) + 1]\<rparr>,
    threads := (threads s)(t := ECount x p n)\<rparr>)"
proof -
  have "unat pos \<in> ran (held (threads s))" using th by (auto simp: owner_simps intro: ranI [of _ t])
  then have "unat pos \<notin> set (gone s)" using inv by (auto simp: conc_inv_def history_ok_def)
  then show ?thesis
    using inv_recycle [OF inv w, of t pos "ECount x p n" "delivered s" "dropped_pos s @ [unat pos]"]
      inv th by (auto simp: conc_inv_def history_ok_def gone_def)
qed

text \<open>The five steps that change the shared state, and all the others.\<close>

lemmas shared_steps = inv_claim inv_write inv_publish inv_take inv_deliver inv_drop

text \<open>The steps that only read: loads of a cursor or a sequence number, and the read of an item.\<close>

fun loads :: "'a pc \<Rightarrow> bool" where
  "loads (PCas x p n pos) = False" | "loads (PWrite x pos) = False" | "loads (PPub pos) = False"
| "loads (ECas x p n pos) = False" | "loads (ERecycle x p n pos) = False" | "loads (ECount x p n) = False"
| "loads (CCas pos) = False" | "loads (CRecycle pos x) = False" | "loads c = True"

lemma inv_load:
  assumes inv: "conc_inv s" and w: "no_wrap s" and l: "loads (threads s t)"
  shows "conc_inv (run_thread t s)"
proof -
  note n = inv_numbers [OF inv w]
  let ?c = "snd (astep (ring s) (threads s t))"
  have cur: "unat (head (ring s)) = taken s" "unat (tail (ring s)) = length (claims s)" using n(7,8) by auto
  have ix: "seqs (ring s) ! idx (ring s) q = seq_at (ring s) (unat q)" "data (ring s) ! idx (ring s) q = data_at (ring s) (unat q)" for q
    by (simp_all add: seq_at_def data_at_def idx_unat [OF n(1)])
  have at: "seq_at (ring s) (unat q) = q \<Longrightarrow> unat q = p \<Longrightarrow> seq_at (ring s) p = of_nat p"
    "seq_at (ring s) (unat q) = q + 1 \<Longrightarrow> unat q = p \<Longrightarrow> seq_at (ring s) p = of_nat p + 1" for p q
    using of_nat_unat_u64 [of q] by auto
  have same: "fst (astep (ring s) (threads s t)) = ring s" "record_step (threads s t) s = s"
    using l by (cases "threads s t"; simp add: Let_def)+
  have own: "writes ?c = writes (threads s t)" "holds ?c = holds (threads s t)"
    using l by (cases "threads s t"; simp add: Let_def)+
  have "knows (ring s) (taken s) (claims s) ?c"
    using l inv_knows [OF inv refl, of t] cur by (cases "threads s t") (auto simp: Let_def ix intro: at)
  from inv_quiet [OF inv _ _ this, of t] own same show ?thesis by (simp add: run_thread_def case_prod_beta)
qed

lemma inv_run:
  assumes inv: "conc_inv s" and w: "no_wrap s"
  shows "conc_inv (run_thread t s)"
proof (cases "threads s t")
  case (PCas x p m pos)
  then show ?thesis
    using inv_claim [OF inv w PCas] inv_quiet [OF inv, of "PTail x p m" t] by (auto simp: run_thread_def)
next
  case (ECas x p m pos)
  then show ?thesis
    using inv_take [OF inv w, of t pos "ERecycle x p m pos"] inv_quiet [OF inv, of "PTail x p m" t]
    by (auto simp: run_thread_def)
next
  case (CCas pos)
  then show ?thesis
    using inv_take [OF inv w, of t pos "CRead pos"] inv_quiet [OF inv, of CHead t] by (auto simp: run_thread_def)
next
  case (ECount x p m)
  have "conc_inv (s\<lparr>ring := (ring s)\<lparr>evicted := evicted (ring s) + 1\<rparr>\<rparr>)"
    using inv by (simp only: inv_evicted)
  from inv_quiet [OF this, of "PTail x p m" t] ECount show ?thesis by (simp add: run_thread_def)
qed (use shared_steps [OF inv w] inv_load [OF inv w, of t] in \<open>simp_all add: run_thread_def\<close>)

end
