(* ===== verification/Transition_System.thy ===== *)
theory Transition_System
  imports Main
begin

text \<open>
  What the concurrent components need from a step relation: an invariant kept by every step
  inside a bound that no step can re-enter, and a simulation of an abstract step relation by
  actions that show events, after which every sequence of events that the concrete system shows
  is one of the abstract system.
\<close>

locale guarded_invariant =
  fixes step :: "'s \<Rightarrow> 's \<Rightarrow> bool" and within :: "'s \<Rightarrow> bool" and good :: "'s \<Rightarrow> bool"
  assumes within_back: "step s s' \<Longrightarrow> within s' \<Longrightarrow> within s"
    and good_step: "good s \<Longrightarrow> within s \<Longrightarrow> step s s' \<Longrightarrow> good s'"
begin

lemma within_steps: "step\<^sup>*\<^sup>* s s' \<Longrightarrow> within s' \<Longrightarrow> within s"
  by (induction rule: rtranclp_induct) (auto intro: within_back)

lemma good_steps: "step\<^sup>*\<^sup>* s s' \<Longrightarrow> good s \<Longrightarrow> within s' \<Longrightarrow> good s'"
  by (induction rule: rtranclp_induct) (auto intro: within_back good_step)

end

text \<open>Runs of a labelled step relation, with the events they show.\<close>

inductive traces :: "('e list \<Rightarrow> 'm \<Rightarrow> 'm \<Rightarrow> bool) \<Rightarrow> 'e list \<Rightarrow> 'm \<Rightarrow> 'm \<Rightarrow> bool" for spec where
  traces_nil: "traces spec [] m m"
| traces_cons: "spec e m m' \<Longrightarrow> traces spec es m' m'' \<Longrightarrow> traces spec (e @ es) m m''"

lemma traces_one: "spec e m m' \<Longrightarrow> traces spec e m m'"
  using traces_cons [OF _ traces_nil, of spec e m m'] by simp

lemma traces_append: "traces spec es m m' \<Longrightarrow> traces spec fs m' m'' \<Longrightarrow> traces spec (es @ fs) m m''"
  by (induction rule: traces.induct) (auto intro: traces_cons)

lemma traces_flat: "traces (traces spec) es m m' \<Longrightarrow> traces spec es m m'"
  by (induction rule: traces.induct) (auto intro: traces_nil traces_append)

text \<open>The events that a list of actions shows, each performed in the state the ones before it left.\<close>

fun shown :: "('a \<Rightarrow> 's \<Rightarrow> 's) \<Rightarrow> ('a \<Rightarrow> 's \<Rightarrow> 'e list) \<Rightarrow> 'a list \<Rightarrow> 's \<Rightarrow> 'e list" where
  "shown act obs [] s = []"
| "shown act obs (a # as) s = obs a s @ shown act obs as (act a s)"

locale trace_simulation =
  fixes act :: "'a \<Rightarrow> 's \<Rightarrow> 's" and obs :: "'a \<Rightarrow> 's \<Rightarrow> 'e list" and within :: "'s \<Rightarrow> bool"
    and good :: "'s \<Rightarrow> bool" and abs :: "'s \<Rightarrow> 'm" and spec :: "'e list \<Rightarrow> 'm \<Rightarrow> 'm \<Rightarrow> bool"
  assumes act_within: "within (act a s) \<Longrightarrow> within s"
    and act_good: "good s \<Longrightarrow> within s \<Longrightarrow> good (act a s)"
    and act_simulates: "good s \<Longrightarrow> within s \<Longrightarrow> spec (obs a s) (abs s) (abs (act a s))"
begin

lemma fold_within: "within (fold act as s) \<Longrightarrow> within s"
  by (induction as arbitrary: s) (auto intro: act_within)

lemma trace_inclusion:
  "good s \<Longrightarrow> within (fold act as s) \<Longrightarrow> traces spec (shown act obs as s) (abs s) (abs (fold act as s))"
proof (induction as arbitrary: s)
  case (Cons a as)
  have "within (act a s)" using Cons.prems(2) fold_within [of as "act a s"] by simp
  then have w: "within s" by (rule act_within)
  from Cons.IH [OF act_good [OF Cons.prems(1) w]] Cons.prems(2) act_simulates [OF Cons.prems(1) w]
  show ?case by (auto intro: traces_cons)
qed (simp add: traces_nil)

end

end
