(* ===== verification/Ring_Linear.thy ===== *)
theory Ring_Linear
  imports Ring_Concurrent Transition_System
begin

text \<open>
  What the invariant of \<^verbatim>\<open>Ring_Concurrent\<close> gives for every interleaving: no two goroutines
  touch one slot's item at a time, every accepted item is delivered or evicted exactly once, and a goroutine that runs alone does
  what the sequential operations of \<^verbatim>\<open>Ringbuf\<close> do.
\<close>

section \<open>Reachable states\<close>

text \<open>The ring as \<^verbatim>\<open>newRingbuf\<close> returns it.\<close>

definition fresh_ring :: "'a ringbuf \<Rightarrow> bool" where
  "fresh_ring r \<longleftrightarrow> ring_inv r \<and> head r = 0 \<and> tail r = 0 \<and> evicted r = 0"

lemma fresh_newRingbuf: "newRingbuf z sz = Ret r \<Longrightarrow> sz \<noteq> 1 \<Longrightarrow> fresh_ring r"
  using newRingbuf_inv [of sz z] by (auto simp: fresh_ring_def newRingbuf_def split: if_splits)

lemma init_inv:
  assumes "fresh_ring r"
  shows "conc_inv (init_sys r)"
proof -
  have shape: "ring_shape r" and d: "depth r = 0" and h: "head r = 0" "tail r = 0"
    using assms by (auto simp: fresh_ring_def depth_def dest: ring_invD)
  have "seq_at r p = of_nat p" if "p < cap r" for p
  proof -
    have "slot r p = p mod cap r" using idx_add [OF shape, of 0 p] h by (simp add: slot_def)
    then show ?thesis
      using ring_invD(3) [of r p] that assms d h by (simp add: seq_at_def fresh_ring_def)
  qed
  then show ?thesis
    using shape h by (simp add: inv_defs init_sys_def inj_map_def writing_def held_def ran_def)
qed

lemma astep_cap [simp]: "cap (fst (astep r c)) = cap r"
  by (cases c) (simp_all add: Let_def cap_def)

lemma run_thread_ring [simp]: "ring (run_thread t s) = fst (astep (ring s) (threads s t))"
  by (simp add: run_thread_def split: prod.split)

lemma claims_record_step: "length (claims s) \<le> length (claims (record_step c s))"
  by (cases "(c, s)" rule: record_step.cases) auto

lemma claims_run_thread: "claims (run_thread t s) = claims (record_step (threads s t) s)"
  and taken_run_thread: "taken (run_thread t s) = taken (record_step (threads s t) s)"
  and dropped_run_thread: "dropped_pos (run_thread t s) = dropped_pos (record_step (threads s t) s)"
  and threads_run_thread: "threads (run_thread t s) = (threads s)(t := snd (astep (ring s) (threads s t)))"
  by (simp_all add: run_thread_def split: prod.split)

lemmas run_thread_simps = claims_run_thread taken_run_thread dropped_run_thread threads_run_thread

text \<open>The invariant holds as long as no position has reached the end of 64 bits.\<close>

interpretation conc: guarded_invariant sys_step no_wrap conc_inv
proof
  fix s s' :: "'a sys"
  show "no_wrap s" if "sys_step s s'" "no_wrap s'"
    using that(1)
  proof cases
    case (run t)
    then show ?thesis
      using that(2) claims_record_step [of s "threads s t"] by (simp add: no_wrap_def run_thread_simps)
  qed (use that(2) in \<open>simp_all add: no_wrap_def\<close>)
  show "conc_inv s'" if "conc_inv s" "no_wrap s" "sys_step s s'"
    using that(3)
  proof cases
    case (call_push t x p)
    then show ?thesis using that(1) by (cases "threads s t") (auto intro!: inv_quiet)
  next
    case (call_pop t)
    then show ?thesis using that(1) by (cases "threads s t") (auto intro!: inv_quiet)
  next
    case (run t)
    then show ?thesis using inv_run [OF that(1,2)] by simp
  qed
qed

lemma reachable_inv: "reachable r s \<Longrightarrow> fresh_ring r \<Longrightarrow> no_wrap s \<Longrightarrow> conc_inv s"
  by (auto simp: reachable_def intro: conc.good_steps init_inv)

section \<open>The items in it\<close>

text \<open>The accepted items that have not been taken, and those that have, in the order of acceptance.\<close>

definition abs_queue :: "'a sys \<Rightarrow> 'a list \<times> 'a list" where
  "abs_queue s = (drop (taken s) (claims s), take (taken s) (claims s))"

lemma claim_step:
  assumes inv: "conc_inv s" and w: "no_wrap s" and c: "threads s t = PCas x p n pos" "tail (ring s) = pos"
  shows "taken s \<le> length (claims s)" and "length (claims s) - taken s < cap (ring s)"
proof -
  note k = inv_numbers [OF inv w]
  have "seq_at (ring s) (length (claims s)) = of_nat (length (claims s))"
    using inv_knows [OF inv c(1)] k(8) [OF c(2)] by simp
  from tail_slot_free [OF inv w this] k(2,3)
  show "taken s \<le> length (claims s)" "length (claims s) - taken s < cap (ring s)" by auto
qed

lemma take_step:
  assumes inv: "conc_inv s" and w: "no_wrap s"
    and c: "threads s t = CCas pos \<or> (\<exists>x p n. threads s t = ECas x p n pos)" "head (ring s) = pos"
  shows "taken s < length (claims s)"
proof -
  have "seq_at (ring s) (taken s) = of_nat (taken s) + 1"
    using inv_knows [OF inv refl, of t] inv_numbers(7) [OF inv w c(2)] c(1) by auto
  from head_slot_published(1) [OF inv w this] show ?thesis .
qed

section \<open>Consequences for every interleaving\<close>

text \<open>Writing position \<open>p\<close> and holding position \<open>q\<close> never share a slot, nor do two writers.\<close>

lemma writer_holder_slots:
  assumes inv: "conc_inv s" and w: "no_wrap s"
    and wr: "writes (threads s t) = Some p" and hd: "holds (threads s u) = Some q"
  shows "p mod cap (ring s) \<noteq> q mod cap (ring s)"
  using recycled_slot(2) [OF inv w hd, of p] writesD [OF inv wr] by simp

lemma writer_writer_slots:
  assumes inv: "conc_inv s" and w: "no_wrap s" and "t \<noteq> u"
    and wr: "writes (threads s t) = Some p" "writes (threads s u) = Some q"
  shows "p mod cap (ring s) \<noteq> q mod cap (ring s)"
proof -
  have "p \<noteq> q"
    using inv assms(3) wr inj_mapD [of "writing (threads s)" t p u]
    by (auto simp: conc_inv_def owners_ok_def owner_simps)
  then show ?thesis
    using window_slots [of "taken s" p "cap (ring s)" q] writesD [OF inv wr(1)] writesD [OF inv wr(2)]
      inv_numbers(4) [OF inv w] by simp
qed

text \<open>Accesses to the plain memory of \<^verbatim>\<open>data\<close>: the slot, and whether it is written.\<close>

fun data_access :: "'a ringbuf \<Rightarrow> 'a pc \<Rightarrow> (nat \<times> bool) option" where
  "data_access r (PWrite x pos) = Some (idx r pos, True)"
| "data_access r (CRead pos) = Some (idx r pos, False)"
| "data_access r c = None"

fun conflict :: "(nat \<times> bool) option \<Rightarrow> (nat \<times> bool) option \<Rightarrow> bool" where
  "conflict (Some (i, w)) (Some (j, v)) = (i = j \<and> (w \<or> v))"
| "conflict a b = False"

lemma data_accessD:
  "ring_shape r \<Longrightarrow> data_access r c = Some (i, v) \<Longrightarrow>
   \<exists>p. (if v then writes c else holds c) = Some p \<and> i = p mod cap r"
  by (cases c) (auto simp: idx_unat)

lemma no_conflict:
  assumes inv: "conc_inv s" and w: "no_wrap s" and tu: "t \<noteq> u"
  shows "\<not> conflict (data_access (ring s) (threads s t)) (data_access (ring s) (threads s u))"
proof
  assume "conflict (data_access (ring s) (threads s t)) (data_access (ring s) (threads s u))"
  then obtain i v v' where acc: "data_access (ring s) (threads s t) = Some (i, v)"
    "data_access (ring s) (threads s u) = Some (i, v')" "v \<or> v'"
    by (auto elim!: conflict.elims)
  obtain p where p: "(if v then writes (threads s t) else holds (threads s t)) = Some p" "i = p mod cap (ring s)"
    using data_accessD [OF inv_numbers(1) [OF inv w] acc(1)] by blast
  obtain q where q: "(if v' then writes (threads s u) else holds (threads s u)) = Some q" "i = q mod cap (ring s)"
    using data_accessD [OF inv_numbers(1) [OF inv w] acc(2)] by blast
  have same: "p mod cap (ring s) = q mod cap (ring s)" using p(2) q(2) by simp
  consider "v" "v'" | "v" "\<not> v'" | "\<not> v" "v'" using acc(3) by blast
  then show False
  proof cases
    case 1
    then show False using writer_writer_slots [OF inv w tu, of p q] p(1) q(1) same by simp
  next
    case 2
    then show False using writer_holder_slots [OF inv w, of t p u q] p(1) q(1) same by simp
  next
    case 3
    then show False using writer_holder_slots [OF inv w, of u q t p] p(1) q(1) same by simp
  qed
qed

text \<open>The eviction counter: one behind for every goroutine between its two atomic updates.\<close>

definition counting :: "'a sys \<Rightarrow> nat set" where
  "counting s = {t. \<exists>x p n. threads s t = ECount x p n}"

definition evicted_ok :: "'a sys \<Rightarrow> bool" where
  "evicted_ok s \<longleftrightarrow> finite (counting s) \<and>
     evicted (ring s) + of_nat (card (counting s)) = of_nat (length (dropped_pos s))"

lemma counting_upd:
  "counting (s\<lparr>threads := (threads s)(t := c)\<rparr>) =
     (if \<exists>x p n. c = ECount x p n then insert t (counting s) else counting s - {t})"
  by (auto simp: counting_def)

lemma evicted_ok_upd:
  assumes ok: "evicted_ok s" and th: "threads s t = c"
    and dropped: "length (dropped_pos s') = length (dropped_pos s) + (case c of ERecycle x p n q \<Rightarrow> 1 | _ \<Rightarrow> 0)"
    and ev: "evicted (ring s') = evicted (ring s) + (case c of ECount x p n \<Rightarrow> 1 | _ \<Rightarrow> 0)"
    and c': "\<And>u. threads s' u = (if u = t then c' else threads s u)"
      "(\<exists>x p n. c' = ECount x p n) = (\<exists>x p n q. c = ERecycle x p n q)"
  shows "evicted_ok s'"
proof -
  have cnt: "counting s' = (if \<exists>x p n q. c = ERecycle x p n q then insert t (counting s) else counting s - {t})"
    using c' by (auto simp: counting_def split: if_splits)
  have fin: "finite (counting s)" using ok by (simp add: evicted_ok_def)
  show ?thesis
  proof (cases c)
    case (ERecycle x p n q)
    then have "t \<notin> counting s" using th by (simp add: counting_def)
    then show ?thesis using ok fin dropped ev ERecycle cnt by (simp add: evicted_ok_def)
  next
    case (ECount x p n)
    then have t: "t \<in> counting s" using th by (simp add: counting_def)
    then have "of_nat (card (counting s)) = (of_nat (card (counting s - {t})) + 1 :: u64)"
      using card_Suc_Diff1 [OF fin t] by (metis add.commute of_nat_Suc)
    then show ?thesis using ok fin dropped ev ECount cnt by (simp add: evicted_ok_def algebra_simps)
  qed (use th ok dropped ev cnt in \<open>auto simp: evicted_ok_def counting_def\<close>)
qed

interpretation evict_count: guarded_invariant sys_step "\<lambda>_. True" evicted_ok
proof
  fix s s' :: "'a sys"
  assume ok: "evicted_ok s" and "sys_step s s'"
  from this(2) show "evicted_ok s'"
  proof cases
    case (call_push t x p)
    then show ?thesis
      using evicted_ok_upd [OF ok, of t _ s' "PTail x p 0"] by (cases "threads s t") auto
  next
    case (call_pop t)
    then show ?thesis
      using evicted_ok_upd [OF ok, of t _ s' CHead] by (cases "threads s t") auto
  next
    case (run t)
    show ?thesis
      by (rule evicted_ok_upd [OF ok refl, of s' t "snd (astep (ring s) (threads s t))"])
        (cases "threads s t"; auto simp: run run_thread_simps Let_def)+
  qed
qed simp

lemma quiescent_counting:
  assumes "\<forall>t. at_rest (threads s t)"
  shows "counting s = {}"
proof -
  have "threads s t \<noteq> ECount x p n" for t x p n using assms [rule_format, of t] by auto
  then show ?thesis by (simp add: counting_def)
qed

lemma reachable_evicted_ok: "reachable r s \<Longrightarrow> fresh_ring r \<Longrightarrow> evicted_ok s"
  using evict_count.good_steps [of "init_sys r" s]
  by (auto simp: reachable_def evicted_ok_def counting_def init_sys_def fresh_ring_def)

section \<open>A goroutine running alone\<close>

primrec solo :: "nat \<Rightarrow> 'a ringbuf \<times> 'a pc \<Rightarrow> 'a ringbuf \<times> 'a pc" where
  "solo 0 rc = rc"
| "solo (Suc n) rc = solo n (astep (fst rc) (snd rc))"

lemma solo_add: "solo (m + n) rc = solo n (solo m rc)"
  by (induction m arbitrary: rc) simp_all

lemma solo_push_room:
  assumes inv: "ring_inv r" and room: "depth r < cap r"
  shows "solo 5 (r, PTail x p n) = (enq r x, PRet True)"
proof -
  have "idx r (tail r) = slot r (depth r)" by (simp add: slot_def tail_eq)
  moreover have "seqs r ! slot r (depth r) = tail r"
    using ring_invD(3) [OF inv room] tail_eq [of r] by simp
  ultimately show ?thesis by (simp add: numeral_eq_Suc enq_def Let_def) (simp add: idx_def)
qed

lemma solo_push_full:
  assumes inv: "ring_inv r" and full: "depth r = cap r"
  shows "solo 2 (r, PTail x p 0) =
    (r, if p = DropNewest then PRet False else EHead x p 1)"
proof -
  note shape = ring_invD(1) [OF inv]
  have "seqs r ! idx r (tail r) - tail r \<noteq> 0" and "sint (seqs r ! idx r (tail r) - tail r) < 0"
    unfolding full_diff [OF assms] using sint_full_diff [OF cap_pos [OF shape] cap_le [OF shape]] by blast+
  then show ?thesis by (simp add: numeral_eq_Suc Let_def maxEvictRetries_def)
qed

lemma solo_evict:
  assumes inv: "ring_inv r" and ne: "depth r \<noteq> 0"
  shows "solo 5 (r, EHead x p n) = (evictOldest r, PTail x p n)"
  using ring_invD(3) [OF inv, of 0] cap_pos [OF ring_invD(1) [OF inv]] ne
  by (simp add: numeral_eq_Suc evictOldest_def Let_def slot_def) (simp add: idx_def)

lemma solo_pop_empty:
  assumes inv: "ring_inv r" and it: "items r = []"
  shows "solo 2 (r, CHead) = (r, CRet None)"
proof -
  have "depth r = 0" using it length_items [of r] by simp
  then have "seqs r ! idx r (head r) = head r"
    using ring_invD(3) [OF inv, of 0] cap_pos [OF ring_invD(1) [OF inv]] by (simp add: slot_def)
  then show ?thesis by (simp add: numeral_eq_Suc)
qed

lemma solo_pop_nonempty:
  assumes inv: "ring_inv r" and it: "items r = x # xs"
  shows "solo 5 (r, CHead) = (deq r, CRet (Some x))"
proof -
  have ne: "depth r \<noteq> 0" using it length_items [of r] by auto
  then have "seqs r ! idx r (head r) = head r + 1"
    using ring_invD(3) [OF inv, of 0] cap_pos [OF ring_invD(1) [OF inv]] by (simp add: slot_def)
  moreover have "data r ! idx r (head r) = x" using deq_props(2) [OF inv ne] it by (simp add: slot_def)
  ultimately show ?thesis by (simp add: numeral_eq_Suc deq_def slot_def) (simp add: idx_def)
qed

section \<open>Schedules\<close>

text \<open>An executable scheduler, to exhibit reachable states.\<close>

datatype 'a action = CallPush nat 'a BackpressurePolicy | CallPop nat | Run nat

fun perform :: "'a action \<Rightarrow> 'a sys \<Rightarrow> 'a sys" where
  "perform (CallPush t x p) s = (if at_rest (threads s t) then s\<lparr>threads := (threads s)(t := PTail x p 0)\<rparr> else s)"
| "perform (CallPop t) s = (if at_rest (threads s t) then s\<lparr>threads := (threads s)(t := CHead)\<rparr> else s)"
| "perform (Run t) s = (if at_rest (threads s t) then s else run_thread t s)"

lemma perform_step: "perform a s = s \<or> sys_step s (perform a s)"
  by (cases a) (auto intro: sys_step.intros)

lemma perform_reachable: "reachable r s \<Longrightarrow> reachable r (perform a s)"
  using perform_step [of a s] by (auto simp: reachable_def intro: rtranclp.rtrancl_into_rtrancl)

lemma schedule_reachable: "reachable r (fold perform as (init_sys r))"
proof -
  have "reachable r s \<Longrightarrow> reachable r (fold perform as s)" for s
    by (induction as arbitrary: s) (simp_all add: perform_reachable)
  then show ?thesis by (simp add: reachable_def)
qed

lemma cap_schedule [simp]: "cap (ring (fold perform as s)) = cap (ring s)"
proof -
  have "cap (ring (perform a s)) = cap (ring s)" for a and s :: "'a sys"
    by (cases a) simp_all
  then show ?thesis by (induction as arbitrary: s) simp_all
qed

lemma schedule_no_wrap:
  "s = fold perform as (init_sys r) \<Longrightarrow> length (claims s) < 2 ^ 63 \<Longrightarrow> cap r \<le> 2 ^ 63 \<Longrightarrow> no_wrap s"
  by (simp add: no_wrap_def) (simp add: init_sys_def)

section \<open>Quiescent states\<close>

text \<open>When no goroutine is inside an operation, the ring is in its sequential invariant and
  its queue is what was accepted and not yet taken.\<close>

lemma quiescent_owners:
  assumes "\<forall>t. at_rest (threads s t)"
  shows "ran (writing (threads s)) = {}" and "ran (held (threads s)) = {}"
proof -
  have "writes (threads s t) = None \<and> holds (threads s t) = None" for t
    using assms [rule_format, of t] by (cases "threads s t") auto
  then show "ran (writing (threads s)) = {}" "ran (held (threads s)) = {}"
    by (auto simp: ran_def owner_simps)
qed

lemma quiescent_ring:
  assumes inv: "conc_inv s" and w: "no_wrap s" and rest: "\<forall>t. at_rest (threads s t)"
  shows "ring_inv (ring s)" and "items (ring s) = drop (taken s) (claims s)"
proof -
  note n = inv_numbers [OF inv w] and own = quiescent_owners [OF rest]
  let ?r = "ring s"
  have hd: "head ?r = of_nat (taken s)" and tl: "tail ?r = of_nat (length (claims s))"
    using inv by (simp_all add: conc_inv_def cursors_ok_def)
  have "tail ?r - head ?r = of_nat (length (claims s) - taken s)"
    using n(3) by (simp add: hd tl of_nat_diff)
  then have d: "depth ?r = length (claims s) - taken s"
    using n(6) unat_of_nat_u64 [of "length (claims s) - taken s"] by (simp add: depth_def)
  have h: "unat (head ?r) = taken s" using n(7) by simp
  have sl: "slot ?r j = (taken s + j) mod cap ?r" for j
    using idx_add [OF n(1), of "head ?r" j] by (simp add: slot_def h)
  have queued: "seq_at ?r p = of_nat p + 1 \<and> data_at ?r p = claims s ! p"
    if "taken s \<le> p" "p < length (claims s)" for p
    using inv that own(1) unfolding conc_inv_def queued_ok_def by blast
  have free: "seq_at ?r p = of_nat p" if "length (claims s) \<le> p" "p < taken s + cap ?r" for p
    using inv that own(2) unfolding conc_inv_def free_ok_def by blast
  have "seqs ?r ! slot ?r j = head ?r + of_nat j + (if j < depth ?r then 1 else 0)" if "j < cap ?r" for j
    using queued [of "taken s + j"] free [of "taken s + j"] that
    by (cases "j < depth ?r") (simp_all add: sl d hd seq_at_def less_diff_conv2 n(3))
  then show "ring_inv ?r" using n by (simp add: ring_inv_def d)
  show "items ?r = drop (taken s) (claims s)"
    by (rule nth_equalityI) (use queued in \<open>simp_all add: items_def d sl data_at_def\<close>)
qed

text \<open>Witnesses run on a ring of two slots.\<close>

definition ring2 :: "nat ringbuf" where
  "ring2 = \<lparr>head = 0, tail = 0, rmask = 1, seqs = [0, 1], data = [0, 0], evicted = 0\<rparr>"

lemma newRingbuf_ring2: "newRingbuf 0 2 = Ret ring2"
  by (simp add: newRingbuf_def is_pow2_def ring2_def upt_rec) (simp add: numeral_2_eq_2)

lemma cap_ring2: "cap ring2 = 2"
  by (simp add: cap_def ring2_def)

lemma ring_inv_ring2: "ring_inv ring2"
  using fresh_newRingbuf [OF newRingbuf_ring2] by (simp add: fresh_ring_def)

section \<open>Properties\<close>

lemma reachable_cap: "reachable r s \<Longrightarrow> cap (ring s) = cap r"
  unfolding reachable_def by (induction rule: rtranclp_induct) (auto simp: init_sys_def elim!: sys_stepE)

lemma reachable_queue_bound:
  assumes "reachable r s" and "fresh_ring r" and "no_wrap s"
  shows "length (fst (abs_queue s)) \<le> cap r"
  using inv_numbers(4) [OF reachable_inv [OF assms] assms(3)] reachable_cap [OF assms(1)] by (simp add: abs_queue_def)

text \<open>
  C4: no data race on the items: whatever the interleaving, two goroutines that are both about
  to access the plain memory of a slot, one of them writing it, are at different slots.
\<close>

theorem ring_race_free:
  assumes "newRingbuf z sz = Ret r" and "sz \<noteq> 1" and "reachable r s" and "no_wrap s" and "t \<noteq> u"
  shows "\<not> conflict (data_access (ring s) (threads s t)) (data_access (ring s) (threads s u))"
  using no_conflict [OF reachable_inv [OF assms(3) fresh_newRingbuf [OF assms(1,2)] assms(4)] assms(4,5)] .

theorem ring_race_free_witness:
  "\<exists>s. reachable ring2 s \<and> data_access (ring s) (threads s 0) = Some (0, True) \<and>
     data_access (ring s) (threads s 1) = Some (1, True) \<and>
     \<not> conflict (data_access (ring s) (threads s 0)) (data_access (ring s) (threads s 1))"
proof -
  let ?acts = "[CallPush 0 7 DropNewest, CallPush 1 5 DropNewest, Run 0, Run 0, Run 0, Run 1, Run 1, Run 1]"
  define s where "s = fold perform ?acts (init_sys ring2)"
  have s: "reachable ring2 s" by (simp only: s_def schedule_reachable)
  have "length (claims s) = 2" unfolding s_def by code_simp
  then have w: "no_wrap s" using schedule_no_wrap [OF s_def] cap_ring2 by simp
  have "data_access (ring s) (threads s 0) = Some (0, True)"
    and "data_access (ring s) (threads s 1) = Some (1, True)" unfolding s_def by code_simp+
  with ring_race_free [OF newRingbuf_ring2 _ s w, of 0 1] s
  show ?thesis by (intro exI [of _ s]) simp
qed

text \<open>
  C5: exactly once. Every delivery hands out the item that was accepted at its position; no
  position is delivered twice, or both delivered and evicted. Once all goroutines have
  returned, every taken position has been delivered or evicted, \<^verbatim>\<open>evicted\<close> is the exact
  number of evictions, and the ring holds the other accepted items in order.
\<close>

theorem ring_exactly_once:
  assumes "newRingbuf z sz = Ret r" and "sz \<noteq> 1" and "reachable r s" and "no_wrap s"
  shows "(\<forall>(p, x) \<in> set (delivered s). p < taken s \<and> x = claims s ! p) \<and>
    distinct (map fst (delivered s) @ dropped_pos s) \<and>
    ((\<forall>t. at_rest (threads s t)) \<longrightarrow>
       fst ` set (delivered s) \<union> set (dropped_pos s) = {0..<taken s} \<and>
       evicted (ring s) = of_nat (length (dropped_pos s)) \<and>
       ring_inv (ring s) \<and> items (ring s) = drop (taken s) (claims s))"
proof -
  note fresh = fresh_newRingbuf [OF assms(1,2)]
  note inv = reachable_inv [OF assms(3) fresh assms(4)]
  have hist: "distinct (gone s)" "ran (held (threads s)) \<union> set (gone s) = {0..<taken s}"
    "\<forall>(p, x) \<in> set (delivered s). x = claims s ! p"
    using inv by (simp_all add: conc_inv_def history_ok_def)
  moreover have "p < taken s" if "(p, x) \<in> set (delivered s)" for p x
    using hist(2) that by (force simp: gone_def)
  ultimately show ?thesis
    using hist quiescent_counting [of s] quiescent_owners(2) [of s] quiescent_ring [OF inv assms(4)] reachable_evicted_ok [OF assms(3) fresh]
    by (auto simp: gone_def evicted_ok_def)
qed

text \<open>Three pushes into two slots under \<^verbatim>\<open>DropOldest\<close>, the first one evicted, and a pop.\<close>

theorem ring_exactly_once_witness:
  "\<exists>s. reachable ring2 s \<and> delivered s = [(1, 8)] \<and> dropped_pos s = [0] \<and> taken s = 2 \<and>
     claims s = [7, 8, 9] \<and> distinct (map fst (delivered s) @ dropped_pos s)"
proof -
  let ?acts = "CallPush 0 7 DropOldest # replicate 5 (Run 0) @ CallPush 1 8 DropOldest # replicate 5 (Run 1) @
    CallPush 0 9 DropOldest # replicate 12 (Run 0) @ CallPop 2 # replicate 5 (Run 2)"
  define s where "s = fold perform ?acts (init_sys ring2)"
  have s: "reachable ring2 s" by (simp only: s_def schedule_reachable)
  have "length (claims s) = 3" unfolding s_def by code_simp
  then have w: "no_wrap s" using schedule_no_wrap [OF s_def] cap_ring2 by simp
  have "delivered s = [(1, 8)] \<and> dropped_pos s = [0] \<and> taken s = 2 \<and> claims s = [7, 8, 9]" unfolding s_def by code_simp
  with ring_exactly_once [OF newRingbuf_ring2 _ s w] s
  show ?thesis by (intro exI [of _ s]) simp
qed

text \<open>
  Without interference the atomic steps are the sequential operations: a push that runs
  alone returns within 12 steps with the result of \<^verbatim>\<open>push\<close>, and a pop within 5 steps with the
  item and the ring that \<^verbatim>\<open>popMarshal\<close> gives.
\<close>

lemma solo_is_sequential:
  assumes "ring_inv r"
  shows "(\<exists>n \<le> 12. \<exists>r' b. push r x p = Some (r', b) \<and> solo n (r, PTail x p 0) = (r', PRet b)) \<and>
    (\<exists>n \<le> 5. \<exists>r' y. solo n (r, CHead) = (r', CRet y) \<and>
       popMarshal m r buf = Some (case y of None \<Rightarrow> (r', buf, 0, False)
                                  | Some v \<Rightarrow> (r', fst (m v buf), snd (m v buf), True)))"
proof
  show "\<exists>n \<le> 12. \<exists>r' b. push r x p = Some (r', b) \<and> solo n (r, PTail x p 0) = (r', PRet b)"
  proof (cases "depth r < cap r")
    case True
    then have "push r x p = Some (enq r x, True)" using push_loop_room [OF assms] by (simp add: push_def)
    with solo_push_room [OF assms True, of x p 0] show ?thesis by (auto intro: exI [of _ 5])
  next
    case False
    with ring_invD(2) [OF assms] have full: "depth r = cap r" by simp
    have ne: "depth r \<noteq> 0" using cap_pos [OF ring_invD(1) [OF assms]] full by simp
    note ev = evictOldest_props [OF assms ne]
    have "solo 12 (r, PTail x p 0) = (enq (evictOldest r) x, PRet True)" if "p \<noteq> DropNewest"
      using that solo_add [of 2 10 "(r, PTail x p 0)"] solo_add [of 5 5 "(r, EHead x p 1)"] solo_push_full [OF assms full, of x p]
        solo_evict [OF assms ne, of x p 1] solo_push_room [OF ev(1), of x p 1] ev ne full by simp
    then show ?thesis
      using push_DropNewest [OF assms, of x] push_evicting [OF assms, of p x] False
        solo_push_full [OF assms full, of x DropNewest]
      by (cases "p = DropNewest") (auto intro: exI [of _ 2] exI [of _ 12])
  qed
  show "\<exists>n \<le> 5. \<exists>r' y. solo n (r, CHead) = (r', CRet y) \<and>
       popMarshal m r buf = Some (case y of None \<Rightarrow> (r', buf, 0, False)
                                  | Some v \<Rightarrow> (r', fst (m v buf), snd (m v buf), True))"
  proof (cases "items r")
    case Nil
    then show ?thesis
      using solo_pop_empty [OF assms Nil] popMarshal_empty [OF assms Nil] by (auto intro: exI [of _ 2])
  next
    case (Cons v vs)
    then show ?thesis
      using solo_pop_nonempty [OF assms Cons] popMarshal_nonempty [OF assms Cons] by (auto intro: exI [of _ 5])
  qed
qed

end
