(* ===== verification/Ring_Progress.thy ===== *)
theory Ring_Progress
  imports Ring_Linear
begin

text \<open>
  The retry loops of \<^verbatim>\<open>ringbuf.go\<close> under interference. \<^verbatim>\<open>push\<close> and \<^verbatim>\<open>pop\<close> reload their cursor
  and try again when another goroutine got in between; the comments of \<^verbatim>\<open>push\<close> call this
  lock-free and not wait-free: a goroutine only retries because another one made progress.
  A rank of the program counter makes that precise: every step of a goroutine lowers its
  own rank, and only a successful compare-and-swap of some goroutine can raise it again.
\<close>

section \<open>The slot under the current cursor\<close>

text \<open>A producer at the current tail never sees a sequence number ahead of its position, and
  a consumer at the current head never sees one ahead of a published one.\<close>

lemma sint_neg_nat: "0 < n \<Longrightarrow> n \<le> 2 ^ 63 \<Longrightarrow> sint (- of_nat n :: u64) < 0"
  using sint_of_int_u64 [of "- int n"] by simp

lemma tail_not_ahead:
  assumes inv: "conc_inv s" and w: "no_wrap s"
  shows "seq_at (ring s) (length (claims s)) - of_nat (length (claims s)) = 0 \<or>
    sint (seq_at (ring s) (length (claims s)) - of_nat (length (claims s))) < 0"
proof -
  note n = inv_numbers [OF inv w]
  let ?l = "length (claims s)" and ?n = "cap (ring s)"
  have le: "?n \<le> 2 ^ 63" by (rule cap_le [OF n(1)])
  have "seq_at (ring s) ?l - of_nat ?l \<in> {0, 1 - of_nat ?n, - of_nat ?n}"
  proof (cases "?l < taken s + ?n")
    case True
    with inv have "seq_at (ring s) ?l = of_nat ?l \<or> (?n \<le> ?l \<and> seq_at (ring s) ?l = of_nat (?l - ?n) + 1)"
      unfolding conc_inv_def free_ok_def by blast
    then show ?thesis by (auto simp: of_nat_diff)
  next
    case False
    with n(4) have eq: "?l = taken s + ?n" by simp
    moreover have "seq_at (ring s) (taken s) = of_nat (taken s) + 1 \<or> seq_at (ring s) (taken s) = of_nat (taken s)"
      using inv eq n(2) unfolding conc_inv_def queued_ok_def by auto
    ultimately show ?thesis by (auto simp: eq seq_at_add_cap)
  qed
  then show ?thesis
    using sint_full_diff(2) [OF n(2) le] sint_neg_nat [of ?n] n(2) le by auto
qed

lemma head_not_ahead:
  assumes inv: "conc_inv s" and w: "no_wrap s"
  shows "seq_at (ring s) (taken s) - (of_nat (taken s) + 1) = 0 \<or>
    sint (seq_at (ring s) (taken s) - (of_nat (taken s) + 1)) < 0"
proof -
  note n = inv_numbers [OF inv w]
  let ?h = "taken s" and ?n = "cap (ring s)"
  have le: "?n \<le> 2 ^ 63" by (rule cap_le [OF n(1)])
  have "seq_at (ring s) ?h - (of_nat ?h + 1) \<in> {0, - of_nat 1, - of_nat ?n}"
  proof (cases "?h < length (claims s)")
    case True
    with inv show ?thesis unfolding conc_inv_def queued_ok_def by auto
  next
    case False
    with n(3) have "length (claims s) = ?h" by simp
    with inv n(2) have "seq_at (ring s) ?h = of_nat ?h \<or> (?n \<le> ?h \<and> seq_at (ring s) ?h = of_nat (?h - ?n) + 1)"
      unfolding conc_inv_def free_ok_def by force
    then show ?thesis by (auto simp: of_nat_diff)
  qed
  then show ?thesis
    using sint_neg_nat [of ?n] sint_neg_nat [of 1] n(2) le by auto
qed

section \<open>The rank of a program counter\<close>

text \<open>
  \<open>budget p n\<close>: the steps left to a push that is about to load the tail, has used \<open>n\<close> of its
  eviction attempts and is not disturbed. A position loaded before the cursor moved on is
  stale: the goroutine has to come back to its load.
\<close>

definition budget :: "BackpressurePolicy \<Rightarrow> int \<Rightarrow> nat" where
  "budget p n = (if p = DropNewest then 5 else 7 * nat (maxEvictRetries - n) + 5)"

fun rank :: "nat \<Rightarrow> nat \<Rightarrow> 'a pc \<Rightarrow> nat" where
  "rank h l (PTail x p n) = budget p n"
| "rank h l (PSeq x p n pos) = (if unat pos < l then budget p n + 2 else budget p n - 1)"
| "rank h l (PCas x p n pos) = (if unat pos < l then budget p n + 1 else budget p n - 2)"
| "rank h l (PWrite x pos) = 2"
| "rank h l (PPub pos) = 1"
| "rank h l (EHead x p n) = budget p n + 5"
| "rank h l (ESeq x p n hp) = budget p n + 4"
| "rank h l (ECas x p n hp) = budget p n + 3"
| "rank h l (ERecycle x p n hp) = budget p n + 2"
| "rank h l (ECount x p n) = budget p n + 1"
| "rank h l CHead = 5"
| "rank h l (CSeq pos) = (if unat pos < h then 7 else 4)"
| "rank h l (CCas pos) = (if unat pos < h then 6 else 3)"
| "rank h l (CRead pos) = 2"
| "rank h l (CRecycle pos x) = 1"
| "rank h l c = 0"

definition rank_of :: "nat \<Rightarrow> 'a sys \<Rightarrow> nat" where
  "rank_of t s = rank (taken s) (length (claims s)) (threads s t)"

text \<open>The successful compare-and-swaps so far, on tail and on head.\<close>

definition progress :: "'a sys \<Rightarrow> nat" where
  "progress s = length (claims s) + taken s"

lemma budget_retry: "p \<noteq> DropNewest \<Longrightarrow> \<not> n + 1 > maxEvictRetries \<Longrightarrow> budget p n = budget p (n + 1) + 7"
  by (simp add: budget_def)

lemma rank_pos: "\<not> at_rest c \<Longrightarrow> 0 < rank h l c"
  by (cases c) (simp_all add: budget_def)

text \<open>The cursors moving under a goroutine cost it at most three steps each.\<close>

lemma rank_interference:
  assumes "h \<le> h'" and "l \<le> l'"
  shows "rank h' l' c \<le> rank h l c + 3 * ((l' + h') - (l + h))"
  using assms by (cases c) auto

section \<open>Steps lower the rank\<close>

lemma own_step:
  assumes inv: "conc_inv s" and w: "no_wrap s" and busy: "\<not> at_rest (threads s t)"
  shows "rank_of t (run_thread t s) < rank_of t s"
proof -
  note n = inv_numbers [OF inv w]
  note k = inv_knows [OF inv refl, of t]
  have hd: "unat (head (ring s)) = taken s" and tl: "unat (tail (ring s)) = length (claims s)"
    using n(7,8) by auto
  have stale: "unat q < unat c" if "c \<noteq> q" "unat q \<le> unat c" for c q :: u64
    using that by (metis le_neq_implies_less word_unat_eq_iff)
  have ix: "seqs (ring s) ! idx (ring s) q = seq_at (ring s) (unat q)" for q
    by (simp add: seq_at_def idx_unat [OF n(1)])
  have at_tail: "seq_at (ring s) (unat q) - q = 0 \<or> sint (seq_at (ring s) (unat q) - q) < 0"
    if "\<not> unat q < length (claims s)" "unat q \<le> length (claims s)" for q
    using tail_not_ahead [OF inv w] that of_nat_unat_u64 [of q] by (metis le_antisym not_less)
  have at_head: "seq_at (ring s) (unat q) - (q + 1) = 0 \<or> sint (seq_at (ring s) (unat q) - (q + 1)) < 0"
    if "\<not> unat q < taken s" "unat q \<le> taken s" for q
    using head_not_ahead [OF inv w] that of_nat_unat_u64 [of q] by (metis le_antisym not_less)
  show ?thesis
  proof (cases "threads s t")
    case (PSeq x p m pos)
    then show ?thesis
      using k at_tail [of pos] budget_retry [of p m]
      by (auto simp: rank_of_def run_thread_simps Let_def ix budget_def)
  next
    case (CSeq pos)
    then show ?thesis
      using k at_head [of pos] by (auto simp: rank_of_def run_thread_simps Let_def ix)
  next
    case (PCas x p m pos)
    with k tl stale [of "tail (ring s)" pos] show ?thesis
      by (auto simp: rank_of_def run_thread_simps budget_def)
  next
    case (CCas pos)
    with k hd stale [of "head (ring s)" pos] show ?thesis by (auto simp: rank_of_def run_thread_simps)
  qed (use busy k hd tl in \<open>auto simp: rank_of_def run_thread_simps budget_def\<close>)
qed

lemma taken_record_step: "taken s \<le> taken (record_step c s)"
  by (cases "(c, s)" rule: record_step.cases) auto

lemma perform_grows: "length (claims s) \<le> length (claims (perform a s)) \<and> taken s \<le> taken (perform a s)"
  by (cases a) (simp_all add: run_thread_simps claims_record_step taken_record_step)

text \<open>One action of the schedule, while \<open>t\<close> is inside an operation.\<close>

lemma rank_action:
  assumes "conc_inv s" and "no_wrap s" and busy: "\<not> at_rest (threads s t)"
  shows "rank_of t (perform a s) + of_bool (a = Run t) \<le> rank_of t s + 3 * (progress (perform a s) - progress s)"
proof (cases "a = Run t")
  case True
  with own_step [OF assms] busy show ?thesis by simp
next
  case False
  then have "threads (perform a s) t = threads s t"
    using busy by (cases a) (auto simp: run_thread_simps)
  with False rank_interference [of "taken s" "taken (perform a s)" "length (claims s)" "length (claims (perform a s))" "threads s t"]
    perform_grows [of s a] show ?thesis by (simp add: rank_of_def progress_def)
qed

lemma perform_inv: "conc_inv s \<Longrightarrow> no_wrap (perform a s) \<Longrightarrow> no_wrap s \<and> conc_inv (perform a s)"
  using perform_step [of a s] conc.within_back [of s "perform a s"] conc.good_step [of s "perform a s"] by auto

lemma fold_no_wrap: "no_wrap (fold perform as s) \<Longrightarrow> no_wrap s"
proof (induction as arbitrary: s)
  case (Cons a as)
  then have "no_wrap (perform a s)" by simp
  with perform_step [of a s] conc.within_back [of s "perform a s"] show ?case by auto
qed simp

lemma progress_fold: "progress s \<le> progress (fold perform as s)"
proof (induction as arbitrary: s)
  case (Cons a as)
  with perform_grows [of s a] show ?case
    by (simp add: progress_def) (meson add_mono le_trans)
qed simp

text \<open>A goroutine that is inside one operation throughout a schedule has taken fewer steps
  than its rank and three for every compare-and-swap that succeeded meanwhile.\<close>

lemma busy_bound:
  assumes "conc_inv s" and "no_wrap (fold perform as s)"
    and "\<And>k. k \<le> length as \<Longrightarrow> \<not> at_rest (threads (fold perform (take k as) s) t)"
  shows "count_list as (Run t) < rank_of t s + 3 * (progress (fold perform as s) - progress s)"
  using assms
proof (induction as arbitrary: s)
  case Nil
  from Nil.prems(3) [of 0] show ?case by (simp add: rank_of_def rank_pos)
next
  case (Cons a as)
  let ?s = "perform a s"
  have w: "no_wrap ?s" using Cons.prems(2) fold_no_wrap [of as ?s] by simp
  note inv = perform_inv [OF Cons.prems(1) w]
  have "count_list as (Run t) < rank_of t ?s + 3 * (progress (fold perform as ?s) - progress ?s)"
  proof (rule Cons.IH)
    show "\<not> at_rest (threads (fold perform (take k as) ?s) t)" if "k \<le> length as" for k
      using Cons.prems(3) [of "Suc k"] that by simp
  qed (use inv Cons.prems(2) in simp_all)
  moreover have "rank_of t ?s + of_bool (a = Run t) \<le> rank_of t s + 3 * (progress ?s - progress s)"
    using rank_action [of s t a] Cons.prems(1) Cons.prems(3) [of 0] inv by simp
  moreover have "progress s \<le> progress ?s" "progress ?s \<le> progress (fold perform as ?s)"
    using progress_fold [of s "[a]"] progress_fold by simp_all
  ultimately show ?case by (cases "a = Run t") (simp_all del: perform.simps)
qed

section \<open>Lock freedom\<close>

text \<open>The steps a call needs when nobody disturbs it: a pop, a push that does not evict, and
  a push that may use all its eviction attempts.\<close>

fun own_steps :: "'a pc \<Rightarrow> nat" where
  "own_steps (PTail x p n) = (if p = DropNewest then 5 else 901)"
| "own_steps c = 5"

text \<open>
  C10: lock freedom. Take any interleaving \<open>as\<close> from a reachable state in which goroutine \<open>t\<close>
  has just called \<^verbatim>\<open>push\<close> or \<^verbatim>\<open>pop\<close>. If \<open>t\<close> is scheduled at least \<open>own_steps\<close> times, plus three
  times for every compare-and-swap on tail or head that succeeds meanwhile, by whichever goroutine,
  then its call returns within \<open>as\<close>. So a goroutine can be kept from returning only by others
  that accept or remove items, and neither a stalled producer nor a stalled consumer can block it.
\<close>

theorem operations_lock_free:
  assumes "newRingbuf z sz = Ret r" and "sz \<noteq> 1" and "reachable r s" and "no_wrap (fold perform as s)"
    and "threads s t = PTail x p 0 \<or> threads s t = CHead"
    and "own_steps (threads s t) + 3 * (progress (fold perform as s) - progress s) \<le> count_list as (Run t)"
  shows "\<exists>k \<le> length as. at_rest (threads (fold perform (take k as) s) t)"
proof (rule ccontr)
  assume "\<not> ?thesis"
  moreover have "conc_inv s"
    using reachable_inv [OF assms(3) fresh_newRingbuf [OF assms(1,2)] fold_no_wrap [OF assms(4)]] .
  moreover have "rank_of t s \<le> own_steps (threads s t)"
    using assms(5) by (auto simp: rank_of_def budget_def maxEvictRetries_def)
  ultimately show False using busy_bound [of s as t] assms(4,6) by force
qed

text \<open>A producer stalls after claiming the only item's slot; another one still returns, refused,
  after its eviction attempts.\<close>

theorem operations_lock_free_witness:
  "\<exists>s k. reachable ring2 s \<and> threads s 0 = PWrite 7 0 \<and> threads s 1 = PTail 9 DropOldest 0 \<and>
     at_rest (threads (fold perform (take k (replicate 901 (Run 1))) s) 1)"
proof -
  let ?acts = "CallPush 0 7 DropNewest # replicate 3 (Run 0) @ CallPush 1 8 DropNewest # replicate 5 (Run 1) @
    [CallPush 1 9 DropOldest]"
  define s where "s = fold perform ?acts (init_sys ring2)"
  define s' where "s' = fold perform (?acts @ replicate 901 (Run 1)) (init_sys ring2)"
  have s: "reachable ring2 s" by (simp only: s_def schedule_reachable)
  have s': "fold perform (replicate 901 (Run 1)) s = s'" by (simp only: s_def s'_def fold_append comp_def)
  have th: "threads s 0 = PWrite 7 0" "threads s 1 = PTail 9 DropOldest 0" "length (claims s) = 2" "taken s = 0"
    unfolding s_def by code_simp+
  have c: "length (claims s') = 2" "taken s' = 0" unfolding s'_def by code_simp+
  then have w: "no_wrap s'" using schedule_no_wrap [OF s'_def] cap_ring2 by simp
  have "count_list (replicate 901 (Run 1 :: nat action)) (Run 1) = 901" by code_simp
  then have "\<exists>k \<le> length (replicate 901 (Run 1 :: nat action)).
      at_rest (threads (fold perform (take k (replicate 901 (Run 1))) s) 1)"
    by (intro operations_lock_free [OF newRingbuf_ring2 _ s]) (simp_all only: s' w th c progress_def own_steps.simps, simp_all)
  with s th show ?thesis by blast
qed

end
