(* ===== verification/Ring_Results.thy ===== *)
theory Ring_Results
  imports Ring_Progress
begin

text \<open>
  What the results of \<^verbatim>\<open>push\<close> and \<^verbatim>\<open>pop\<close> (\<^verbatim>\<open>ringbuf.go\<close>) mean while other goroutines are inside
  the ring. A consumer sees an item once it and everything claimed before it is published: the
  \<open>visible\<close> items. A pop takes the first visible item, and reports an empty ring exactly when
  there is none; a push is refused only on a slot that is still in use.
\<close>

section \<open>Visible items\<close>

definition published :: "'a sys \<Rightarrow> nat \<Rightarrow> bool" where
  "published s p \<longleftrightarrow> seq_at (ring s) p = of_nat p + 1"

definition visible :: "'a sys \<Rightarrow> 'a list" where
  "visible s = map ((!) (claims s)) (takeWhile (published s) [taken s..<length (claims s)])"

text \<open>The bound under which a signed difference of positions has the right sign: fewer than
  \<open>2 ^ 63\<close> minus the capacity pushes have been accepted.\<close>

definition short_run :: "'a sys \<Rightarrow> bool" where
  "short_run s \<longleftrightarrow> length (claims s) + cap (ring s) < 2 ^ 63"

lemma short_run_no_wrap: "short_run s \<Longrightarrow> no_wrap s"
  by (simp add: short_run_def no_wrap_def)

lemma schedule_short:
  "s = fold perform as (init_sys r) \<Longrightarrow> length (claims s) < 2 ^ 62 \<Longrightarrow> cap r \<le> 2 ^ 62 \<Longrightarrow> short_run s"
  by (simp add: short_run_def) (simp add: init_sys_def)

lemma length_visible: "length (visible s) \<le> length (claims s) - taken s"
  unfolding visible_def length_map using length_takeWhile_le [of "published s" "[taken s..<length (claims s)]"] by simp

section \<open>Stale positions\<close>

text \<open>The position of the current window that shares the slot of \<open>p\<close>.\<close>

lemma window_position:
  assumes "0 < (n::nat)" and "p < h"
  shows "\<exists>q. h \<le> q \<and> q < h + n \<and> q mod n = p mod n \<and> p + n \<le> q"
proof -
  define q where "q = h + (p + n * h - h) mod n"
  have "h \<le> n * h" using assms(1) by simp
  then have "h + (p + n * h - h) = p + n * h" by linarith
  then have "q mod n = (p + n * h) mod n" unfolding q_def by (simp only: mod_add_right_eq)
  then have same: "q mod n = p mod n" by simp
  moreover have "h \<le> q" "q < h + n" using assms(1) by (simp_all add: q_def)
  moreover have "n dvd q - p" using same \<open>h \<le> q\<close> assms(2) by (simp add: mod_eq_dvd_iff_nat)
  ultimately show ?thesis using assms(2) dvd_imp_le [of n "q - p"] by (intro exI [of _ q]) linarith
qed

text \<open>The slot of a position that has been taken shows that position, or a later one.\<close>

lemma past_slot:
  assumes inv: "conc_inv s" and w: "no_wrap s" and p: "p < taken s"
  obtains m where "seq_at (ring s) p = of_nat m" and "p < m" and "m \<le> taken s + cap (ring s)"
proof -
  note n = inv_numbers [OF inv w]
  let ?N = "cap (ring s)"
  obtain q where q: "taken s \<le> q" "q < taken s + ?N" "q mod ?N = p mod ?N" "p + ?N \<le> q"
    using window_position [of ?N p "taken s"] n(2) p by auto
  have same: "seq_at (ring s) p = seq_at (ring s) q" by (simp add: seq_at_def q(3))
  have "\<exists>m \<in> {q, Suc q, Suc (q - ?N)}. seq_at (ring s) q = of_nat m"
  proof (cases "q < length (claims s)")
    case True
    with inv q(1) show ?thesis unfolding conc_inv_def queued_ok_def by (force simp: add.commute)
  next
    case False
    with inv q(2) show ?thesis unfolding conc_inv_def free_ok_def by (force simp: add.commute not_less)
  qed
  with q same that show ?thesis by force
qed

lemma not_behind:
  assumes "p \<le> m" and "m < 2 ^ 63"
  shows "\<not> sint (of_nat m - of_nat p :: u64) < 0"
  using sint_of_int_u64 [of "int m - int p"] assms by simp

lemma slot_read: "conc_inv s \<Longrightarrow> no_wrap s \<Longrightarrow> seqs (ring s) ! idx (ring s) q = seq_at (ring s) (unat q)"
  using inv_numbers(1) [of s] by (simp add: seq_at_def idx_unat)

section \<open>What the results mean\<close>

lemma visible_empty_iff:
  assumes "conc_inv s" and "no_wrap s"
  shows "visible s = [] \<longleftrightarrow> \<not> published s (taken s)"
proof -
  have "taken s < length (claims s)" if "published s (taken s)"
    using head_slot_published(1) [OF assms] that by (simp add: published_def)
  then show ?thesis by (auto simp: visible_def upt_rec [of "taken s"])
qed

lemma pop_empty_iff:
  assumes inv: "conc_inv s" and short: "short_run s" and th: "threads s t = CSeq pos"
  shows "snd (astep (ring s) (CSeq pos)) = CRet None \<longleftrightarrow> unat pos = taken s \<and> visible s = []"
proof -
  note w = short_run_no_wrap [OF short]
  have le: "unat pos \<le> taken s" using inv_knows [OF inv th] by simp
  have pos: "pos = of_nat (unat pos)" by simp
  show ?thesis
  proof (cases "unat pos = taken s")
    case True
    with pos have eq: "pos = of_nat (taken s)" by simp
    show ?thesis
      using head_not_ahead [OF inv w] visible_empty_iff [OF inv w] True
      by (auto simp: slot_read [OF inv w] Let_def eq published_def simp del: of_nat_unat)
  next
    case False
    with le have "unat pos < taken s" by simp
    then obtain m where m: "seq_at (ring s) (unat pos) = of_nat m" "unat pos < m" "m \<le> taken s + cap (ring s)"
      by (rule past_slot [OF inv w])
    have "m < 2 ^ 63" using m(3) short inv_numbers(3) [OF inv w] by (simp add: short_run_def)
    then have "\<not> sint (seq_at (ring s) (unat pos) - (pos + 1)) < 0"
      using not_behind [of "Suc (unat pos)" m] m(1,2) by (simp add: add.commute)
    with False show ?thesis by (simp add: slot_read [OF inv w] Let_def)
  qed
qed

lemma push_refused:
  assumes inv: "conc_inv s" and short: "short_run s" and th: "threads s t = PSeq x p n pos"
    and neg: "sint (seqs (ring s) ! idx (ring s) pos - pos) < 0"
  shows "unat pos = length (claims s) \<and>
    (length (claims s) = taken s + cap (ring s) \<or>
     cap (ring s) \<le> length (claims s) \<and> (\<exists>u. holds (threads s u) = Some (length (claims s) - cap (ring s))))"
proof -
  note w = short_run_no_wrap [OF short]
  note k = inv_numbers [OF inv w]
  let ?l = "length (claims s)" and ?N = "cap (ring s)"
  have le: "unat pos \<le> ?l" using inv_knows [OF inv th] by simp
  have behind: "sint (seq_at (ring s) (unat pos) - of_nat (unat pos)) < 0"
    using neg by (simp add: slot_read [OF inv w])
  have small: "taken s + ?N < 2 ^ 63" "?l < 2 ^ 63" using short k(3) by (simp_all add: short_run_def)
  have "\<not> unat pos < taken s"
  proof
    assume "unat pos < taken s"
    then obtain m where "seq_at (ring s) (unat pos) = of_nat m" "unat pos < m" "m \<le> taken s + ?N"
      by (rule past_slot [OF inv w])
    with behind small not_behind [of "unat pos" m] show False by simp
  qed
  moreover have "\<not> (taken s \<le> unat pos \<and> unat pos < ?l)"
  proof
    assume "taken s \<le> unat pos \<and> unat pos < ?l"
    with inv have "seq_at (ring s) (unat pos) \<in> {of_nat (Suc (unat pos)), of_nat (unat pos)}"
      unfolding conc_inv_def queued_ok_def by (auto simp: add.commute)
    with behind le small not_behind [of "unat pos" "unat pos"] not_behind [of "unat pos" "Suc (unat pos)"]
      \<open>taken s \<le> unat pos \<and> unat pos < ?l\<close> show False by auto
  qed
  ultimately have eq: "unat pos = ?l" using le by linarith
  moreover have "?l = taken s + ?N \<or> ?N \<le> ?l \<and> (\<exists>u. holds (threads s u) = Some (?l - ?N))"
  proof (cases "?l < taken s + ?N")
    case True
    have "seq_at (ring s) ?l \<noteq> of_nat ?l" using behind eq by auto
    with True inv have "?N \<le> ?l \<and> ?l - ?N \<in> ran (held (threads s))" unfolding conc_inv_def free_ok_def by blast
    then show ?thesis using ran_heldD [of "?l - ?N" s] by auto
  qed (use k(4) in simp)
  ultimately show ?thesis by simp
qed

section \<open>How the visible items change\<close>

lemma takeWhile_extends:
  "(\<And>x. x \<in> set xs \<Longrightarrow> P x \<Longrightarrow> Q x) \<Longrightarrow> \<exists>zs. takeWhile Q (xs @ ys) = takeWhile P xs @ zs"
  by (induction xs) auto

text \<open>Items become visible behind the visible ones while no compare-and-swap on head succeeds.\<close>

lemma visible_grows:
  assumes "taken s' = taken s" and "claims s' = claims s @ new" and "taken s \<le> length (claims s)"
    and "\<And>p. taken s \<le> p \<Longrightarrow> p < length (claims s) \<Longrightarrow> published s p \<Longrightarrow> published s' p"
  shows "\<exists>xs. visible s' = visible s @ xs"
proof -
  let ?old = "[taken s..<length (claims s)]"
  have "[taken s'..<length (claims s')] = ?old @ [length (claims s)..<length (claims s')]"
    using assms(1,2) upt_add_eq_append [OF assms(3), of "length new"] by simp
  then obtain zs where "takeWhile (published s') [taken s'..<length (claims s')] = takeWhile (published s) ?old @ zs"
    using takeWhile_extends [of ?old "published s" "published s'"] assms(4) by force
  moreover have "map ((!) (claims s')) (takeWhile (published s) ?old) = visible s"
    unfolding visible_def assms(2) by (rule map_cong [OF refl]) (auto simp: nth_append dest: set_takeWhileD)
  ultimately show ?thesis unfolding visible_def [of s'] by simp
qed

text \<open>A successful compare-and-swap on head removes the first one.\<close>

lemma visible_take:
  assumes "taken s' = Suc (taken s)" and "claims s' = claims s" and "taken s < length (claims s)"
    and "published s (taken s)" and "published s' = published s"
  shows "visible s = claims s ! taken s # visible s'"
  using assms by (simp add: visible_def upt_conv_Cons)

lemma queue_slot_kept:
  assumes inv: "conc_inv s" and w: "no_wrap s" and p: "taken s \<le> p" "p < length (claims s)"
    and th: "threads s t \<noteq> PPub (of_nat p)"
  shows "seq_at (ring (run_thread t s)) p = seq_at (ring s) p"
proof -
  note n = inv_numbers [OF inv w]
  have upd: "seq_at ((ring s)\<lparr>seqs := (seqs (ring s))[idx (ring s) pos := v]\<rparr>) p =
      (if p mod cap (ring s) = unat pos mod cap (ring s) then v else seq_at (ring s) p)" for pos v
    using seq_at_update [OF n(1), of "unat pos" v p] by (simp add: idx_unat [OF n(1)])
  have taken_slot: "p mod cap (ring s) \<noteq> q mod cap (ring s)" if "holds (threads s t) = Some q" for q
    using recycled_slot(1) [OF inv w that, of p] holdsD(2) [OF inv that] p n(4) by auto
  show ?thesis
  proof (cases "threads s t")
    case (PPub pos)
    with th have "p \<noteq> unat pos" by auto
    with PPub writesD [OF inv, of t "unat pos"] window_slots [of "taken s" p "cap (ring s)" "unat pos"] p n(4)
    have "p mod cap (ring s) \<noteq> unat pos mod cap (ring s)" by force
    with PPub show ?thesis by (simp add: upd)
  next
    case (ERecycle x b m pos)
    with taken_slot [of "unat pos"] show ?thesis by (simp add: upd)
  next
    case (CRecycle pos x)
    with taken_slot [of "unat pos"] show ?thesis by (simp add: upd)
  qed (simp_all add: Let_def)
qed

lemma published_run:
  assumes inv: "conc_inv s" and w: "no_wrap s"
    and p: "taken s \<le> p" "p < length (claims s)" "published s p"
  shows "published (run_thread t s) p"
proof (cases "threads s t = PPub (of_nat p)")
  case True
  have "seq_at (ring s) p = of_nat p" using inv_knows [OF inv True] inv_numbers(6) [OF inv w] p(2)
    by (simp add: unat_of_nat_u64)
  with p(3) show ?thesis by (simp add: published_def)
next
  case False
  with queue_slot_kept [OF inv w p(1,2) False] p(3) show ?thesis by (simp add: published_def)
qed

text \<open>The goroutine whose next step is a compare-and-swap on head that succeeds.\<close>

fun takes :: "'a ringbuf \<Rightarrow> 'a pc \<Rightarrow> bool" where
  "takes r (CCas pos) = (head r = pos)"
| "takes r (ECas x p n pos) = (head r = pos)"
| "takes r c = False"

lemma visible_run:
  assumes inv: "conc_inv s" and w: "no_wrap s"
  shows "if takes (ring s) (threads s t) then visible s = claims s ! taken s # visible (run_thread t s)
    else \<exists>xs. visible (run_thread t s) = visible s @ xs"
proof (cases "takes (ring s) (threads s t)")
  case True
  then obtain pos where c: "threads s t = CCas pos \<or> (\<exists>x p n. threads s t = ECas x p n pos)" "head (ring s) = pos"
    by (cases "threads s t") auto
  have "published s (taken s)"
    using inv_knows [OF inv refl, of t] inv_numbers(7) [OF inv w c(2)] c(1) by (auto simp: published_def)
  with take_step [OF inv w c] c show ?thesis
    by (auto intro!: visible_take simp: run_thread_simps published_def fun_eq_iff)
next
  case False
  then have "taken (run_thread t s) = taken s" "\<exists>new. claims (run_thread t s) = claims s @ new"
    by (cases "threads s t"; simp add: run_thread_simps)+
  with False inv_numbers(3) [OF inv w] published_run [OF inv w, of _ t] show ?thesis
    by (auto intro!: visible_grows)
qed

text \<open>A step that publishes nothing and takes nothing leaves them as they are.\<close>

lemma visible_kept:
  assumes "taken s' = taken s" and "claims s' = claims s"
    and "\<And>p. taken s \<le> p \<Longrightarrow> p < length (claims s) \<Longrightarrow> seq_at (ring s') p = seq_at (ring s) p"
  shows "visible s' = visible s"
proof -
  have "takeWhile (published s') [taken s..<length (claims s)] = takeWhile (published s) [taken s..<length (claims s)]"
    by (rule takeWhile_cong) (auto simp: published_def assms(3))
  then show ?thesis by (simp add: visible_def assms(1,2))
qed

text \<open>All items seen so far by the consumers: those taken and those visible.\<close>

definition seen :: "'a sys \<Rightarrow> 'a list" where
  "seen s = take (taken s) (claims s) @ visible s"

lemma map_nth_upt_take: "n \<le> length xs - a \<Longrightarrow> map ((!) xs) (take n [a..<length xs]) = take n (drop a xs)"
  by (rule nth_equalityI) auto

lemma seen_prefix:
  assumes "taken s \<le> length (claims s)"
  shows "seen s = take (taken s + length (visible s)) (claims s)"
proof -
  let ?n = "length (takeWhile (published s) [taken s..<length (claims s)])"
  have "takeWhile (published s) [taken s..<length (claims s)] = take ?n [taken s..<length (claims s)]"
    by (rule takeWhile_eq_take)
  then have "visible s = take (length (visible s)) (drop (taken s) (claims s))"
    using map_nth_upt_take [of ?n "claims s" "taken s"] length_visible [of s] by (simp add: visible_def)
  then show ?thesis using assms by (simp add: seen_def take_add)
qed

text \<open>When no producer is between its claim and its publication, every claimed item is seen.\<close>

lemma seen_quiet:
  assumes inv: "conc_inv s" and w: "no_wrap s" and quiet: "ran (writing (threads s)) = {}"
  shows "seen s = claims s"
proof -
  have "published s p" if "taken s \<le> p" "p < length (claims s)" for p
    using inv quiet that unfolding conc_inv_def queued_ok_def published_def by blast
  then have "visible s = map ((!) (claims s)) [taken s..<length (claims s)]"
    unfolding visible_def by (subst takeWhile_eq_all_conv [THEN iffD2]) auto
  then show ?thesis using seen_prefix [OF inv_numbers(3) [OF inv w]] inv_numbers(3) [OF inv w] by simp
qed

section \<open>Properties\<close>

text \<open>Why nothing is visible: nothing is queued, or the producer of the oldest item has claimed its
  slot and not yet published it.\<close>

lemma visible_empty_why:
  assumes inv: "conc_inv s" and w: "no_wrap s" and "visible s = []"
  shows "fst (abs_queue s) = [] \<or> (\<exists>u. writes (threads s u) = Some (taken s))"
proof (cases "taken s < length (claims s)")
  case True
  with assms have "taken s \<in> ran (writing (threads s))"
    unfolding conc_inv_def queued_ok_def visible_empty_iff [OF inv w] published_def by blast
  then show ?thesis by (auto simp: ran_def owner_simps)
qed (simp add: abs_queue_def)

text \<open>
  C12: what an unsuccessful result means under concurrency, up to \<open>2 ^ 63\<close> minus the capacity
  accepted pushes. A pop reports an empty ring exactly when it looks at the current head and no
  item is visible: nothing is queued, or the oldest item is claimed by a producer that has not
  published it. A full ring is reported to a push (refused under \<^verbatim>\<open>DropNewest\<close>, one more eviction
  attempt otherwise) only at the current tail, and only when as many items are queued as there
  are slots or a goroutine has taken an item out of that slot and not yet recycled it. A stale
  cursor leads to neither.
\<close>

theorem result_meaning:
  assumes "newRingbuf z sz = Ret r" and "sz \<noteq> 1" and "reachable r s" and "short_run s"
  shows "(threads s t = CSeq pos \<longrightarrow>
      (threads (run_thread t s) t = CRet None \<longleftrightarrow> head (ring s) = pos \<and> visible s = [])) \<and>
    (visible s = [] \<longrightarrow> fst (abs_queue s) = [] \<or> (\<exists>u. writes (threads s u) = Some (taken s))) \<and>
    (threads s t = PSeq x p n pos \<and> threads (run_thread t s) t \<in> {PRet False, EHead x p (n + 1)} \<longrightarrow>
      tail (ring s) = pos \<and>
      (length (fst (abs_queue s)) = cap r \<or> (\<exists>u. holds (threads s u) = Some (length (claims s) - cap r))))"
proof -
  note w = short_run_no_wrap [OF assms(4)]
  note inv = reachable_inv [OF assms(3) fresh_newRingbuf [OF assms(1,2)] w]
  note n = inv_numbers [OF inv w]
  note cap = reachable_cap [OF assms(3)]
  have cur: "head (ring s) = pos \<longleftrightarrow> unat pos = taken s" "tail (ring s) = pos \<longleftrightarrow> unat pos = length (claims s)"
    using n(7,8) by (metis word_unat_eq_iff)+
  have q: "length (fst (abs_queue s)) = cap r" if "length (claims s) = taken s + cap (ring s)"
    using that cap by (simp add: abs_queue_def)
  have "tail (ring s) = pos \<and> (length (fst (abs_queue s)) = cap r \<or> (\<exists>u. holds (threads s u) = Some (length (claims s) - cap r)))"
    if "threads s t = PSeq x p n pos" "threads (run_thread t s) t \<in> {PRet False, EHead x p (n + 1)}"
  proof -
    have "sint (seqs (ring s) ! idx (ring s) pos - pos) < 0"
      using that by (auto simp: run_thread_simps Let_def split: if_splits)
    from push_refused [OF inv assms(4) that(1) this] q cap cur(2) show ?thesis by auto
  qed
  moreover have "threads (run_thread t s) t = CRet None \<longleftrightarrow> head (ring s) = pos \<and> visible s = []" if "threads s t = CSeq pos"
    using pop_empty_iff [OF inv assms(4) that] cur(1) that by (simp add: run_thread_simps del: astep.simps)
  ultimately show ?thesis using visible_empty_why [OF inv w] by blast
qed

text \<open>
  \<^verbatim>\<open>pop\<close> can miss a completed push: a push has returned true and its item is queued, and
  a pop that starts afterwards still reports an empty ring, because an older push has claimed its
  slot and not yet written it.
\<close>

lemma pop_misses_completed_push:
  "\<exists>s. reachable ring2 s \<and> threads s 1 = PRet True \<and> fst (abs_queue s) = [7, 9] \<and>
     threads (fold perform [CallPop 2, Run 2, Run 2] s) 2 = CRet None"
proof -
  define s where "s = fold perform (CallPush 0 7 DropNewest # replicate 3 (Run 0) @ CallPush 1 9 DropNewest # replicate 5 (Run 1))
    (init_sys ring2)"
  have "threads s 1 = PRet True" "fst (abs_queue s) = [7, 9]"
    "threads (fold perform [CallPop 2, Run 2, Run 2] s) 2 = CRet None" unfolding s_def by code_simp+
  moreover have "reachable ring2 s" by (simp only: s_def schedule_reachable)
  ultimately show ?thesis by blast
qed

text \<open>In that state the pop at the head, and a third push at the tail, have just loaded their cursors.\<close>

theorem result_meaning_witness:
  "\<exists>s. reachable ring2 s \<and> threads s 2 = CSeq 0 \<and> threads (run_thread 2 s) 2 = CRet None \<and> visible s = [] \<and>
     threads s 3 = PSeq 5 DropNewest 0 2 \<and> threads (run_thread 3 s) 3 = PRet False \<and> length (fst (abs_queue s)) = 2"
proof -
  define s where "s = fold perform (CallPush 0 7 DropNewest # replicate 3 (Run 0) @ CallPush 1 9 DropNewest # replicate 5 (Run 1) @
    [CallPop 2, Run 2, CallPush 3 5 DropNewest, Run 3]) (init_sys ring2)"
  have s: "reachable ring2 s" by (simp only: s_def schedule_reachable)
  have th: "threads s 2 = CSeq 0" "threads s 3 = PSeq 5 DropNewest 0 2" "length (claims s) = 2" "threads (run_thread 2 s) 2 = CRet None"
    "threads (run_thread 3 s) 3 = PRet False" unfolding s_def by code_simp+
  have short: "short_run s" using schedule_short [OF s_def] th(3) cap_ring2 by simp
  have "visible s = []"
    using result_meaning [OF newRingbuf_ring2 _ s short, of 2 0 5 DropNewest 0] th by simp
  moreover have "length (fst (abs_queue s)) = 2" unfolding s_def by code_simp
  ultimately show ?thesis using s th by blast
qed

end
