(* ===== verification/Ring_Consumer.thy ===== *)
theory Ring_Consumer
  imports Ring_Results
begin

text \<open>
  The ring as the engine uses it: one goroutine pops (the drain loop of \<^verbatim>\<open>batcher.go\<close>), any number
  of others push under \<^verbatim>\<open>DropNewest\<close>. Whatever the interleaving of atomic operations, what the
  popping goroutine sees is a sequential queue into which the items arrive between its calls.
\<close>

section \<open>One consumer among producers\<close>

fun producing :: "'a pc \<Rightarrow> bool" where
  "producing Idle = True"
| "producing (PTail x p n) = (p = DropNewest)"
| "producing (PSeq x p n pos) = (p = DropNewest)"
| "producing (PCas x p n pos) = (p = DropNewest)"
| "producing (PWrite x pos) = True"
| "producing (PPub pos) = True"
| "producing (PRet b) = True"
| "producing c = False"

fun consuming :: "'a pc \<Rightarrow> bool" where
  "consuming Idle = True"
| "consuming CHead = True"
| "consuming (CSeq pos) = True"
| "consuming (CCas pos) = True"
| "consuming (CRead pos) = True"
| "consuming (CRecycle pos x) = True"
| "consuming (CRet y) = True"
| "consuming c = False"

definition roles :: "nat \<Rightarrow> 'a sys \<Rightarrow> bool" where
  "roles t s \<longleftrightarrow> consuming (threads s t) \<and> (\<forall>u. u \<noteq> t \<longrightarrow> producing (threads s u))"

fun role_action :: "nat \<Rightarrow> 'a action \<Rightarrow> bool" where
  "role_action t (CallPush u x p) = (u \<noteq> t \<and> p = DropNewest)"
| "role_action t (CallPop u) = (u = t)"
| "role_action t (Run u) = True"

lemma astep_roles:
  "producing c \<Longrightarrow> producing (snd (astep r c))" "consuming c \<Longrightarrow> consuming (snd (astep r c))"
  by (cases c; simp add: Let_def)+

lemma roles_perform: "roles t s \<Longrightarrow> role_action t a \<Longrightarrow> roles t (perform a s)"
  by (cases a) (auto simp: roles_def run_thread_simps astep_roles)

section \<open>The queue in front of the consumer\<close>

text \<open>The item that the consumer has taken and not yet returned, before the visible ones.\<close>

fun pending :: "'a list \<Rightarrow> 'a pc \<Rightarrow> 'a list" where
  "pending cl (CRead pos) = [cl ! unat pos]"
| "pending cl (CRecycle pos x) = [x]"
| "pending cl c = []"

definition front :: "nat \<Rightarrow> 'a sys \<Rightarrow> 'a list" where
  "front t s = pending (claims s) (threads s t) @ visible s"

text \<open>The result that a call returns in the step from \<open>c\<close> to \<open>c'\<close>, and the results of the calls
  that return in a schedule.\<close>

fun outcome :: "'a pc \<Rightarrow> 'a pc \<Rightarrow> 'a option list" where
  "outcome c (CRet y) = (if at_rest c then [] else [y])"
| "outcome c c' = []"

primrec pop_results :: "nat \<Rightarrow> 'a action list \<Rightarrow> 'a sys \<Rightarrow> 'a option list" where
  "pop_results t [] s = []"
| "pop_results t (a # as) s = outcome (threads s t) (threads (perform a s) t) @ pop_results t as (perform a s)"

text \<open>What a step does to the queue \<open>q\<close> in front of the consumer: new items arrive at its back, or
  a call returns its first item, or a call finds it empty.\<close>

fun served :: "'a option list \<Rightarrow> 'a list \<Rightarrow> 'a list \<Rightarrow> 'a list \<Rightarrow> bool" where
  "served [] q new q' = (q' = q @ new)"
| "served (None # ys) q new q' = (ys = [] \<and> new = [] \<and> q = [] \<and> q' = [])"
| "served (Some x # ys) q new q' = (ys = [] \<and> new = [] \<and> q = x # q')"

lemma outcome_rest [simp]: "at_rest c \<Longrightarrow> outcome c c' = []"
  by (cases c') simp_all

lemma outcome_same [simp]: "outcome c c = []"
  by (cases c) simp_all

lemma pending_rest [simp]: "at_rest c \<Longrightarrow> pending cl c = []"
  by (cases c) simp_all

lemma length_front:
  assumes inv: "conc_inv s" and w: "no_wrap s"
  shows "length (front t s) \<le> cap (ring s)"
proof -
  note n = inv_numbers [OF inv w]
  show ?thesis
  proof (cases "pending (claims s) (threads s t) = []")
    case False
    then obtain pos where "holds (threads s t) = Some pos" "length (pending (claims s) (threads s t)) = 1"
      by (cases "threads s t") auto
    with holdsD(1,2) [OF inv this(1)] length_visible [of s] n(2,3) show ?thesis by (simp add: front_def)
  qed (use length_visible [of s] n(3,4) in \<open>simp add: front_def\<close>)
qed

lemma seen_kept: "visible s' = visible s \<Longrightarrow> taken s' = taken s \<Longrightarrow> claims s' = claims s \<Longrightarrow> seen s' = seen s"
  by (simp add: seen_def)

text \<open>A step of a goroutine that does not take an item lets new ones arrive.\<close>

lemma arrival:
  assumes inv: "conc_inv s" and w: "no_wrap s" and nt: "\<not> takes (ring s) (threads s u)"
  shows "\<exists>new. visible (run_thread u s) = visible s @ new \<and> seen (run_thread u s) = seen s @ new"
proof -
  obtain new where "visible (run_thread u s) = visible s @ new" using visible_run [OF inv w, of u] nt by auto
  moreover have "taken (run_thread u s) = taken s \<and> take (taken s) (claims (run_thread u s)) = take (taken s) (claims s)"
    using nt inv_numbers(3) [OF inv w] by (cases "threads s u") (simp_all add: run_thread_simps)
  ultimately show ?thesis by (simp add: seen_def)
qed

lemma producer_step:
  assumes inv: "conc_inv s" and w: "no_wrap s" and r: "producing (threads s u)" and u: "u \<noteq> t"
  shows "\<exists>new. front t (run_thread u s) = front t s @ new \<and> seen (run_thread u s) = seen s @ new"
proof -
  have "\<not> takes (ring s) (threads s u)" using r by (cases "threads s u") auto
  from arrival [OF inv w this] obtain new where new: "visible (run_thread u s) = visible s @ new"
    "seen (run_thread u s) = seen s @ new" by blast
  have same: "threads (run_thread u s) t = threads s t" using u by (simp add: run_thread_simps)
  have "pending (claims (run_thread u s)) (threads s t) = pending (claims s) (threads s t)"
  proof (cases "threads s t")
    case (CRead pos)
    have "unat pos < length (claims s)"
      using inv_knows [OF inv CRead] inv_numbers(3) [OF inv w] by simp
    then have "claims (run_thread u s) ! unat pos = claims s ! unat pos"
      by (cases "threads s u") (auto simp: run_thread_simps nth_append)
    with CRead show ?thesis by simp
  qed simp_all
  with new same show ?thesis by (simp add: front_def)
qed

lemma consumer_step:
  assumes inv: "conc_inv s" and short: "short_run s" and r: "consuming (threads s t)" and busy: "\<not> at_rest (threads s t)"
  shows "\<exists>new. served (outcome (threads s t) (threads (run_thread t s) t)) (front t s) new (front t (run_thread t s)) \<and>
    seen (run_thread t s) = seen s @ new"
proof -
  note w = short_run_no_wrap [OF short]
  have kept: "visible (run_thread t s) = visible s" "seen (run_thread t s) = seen s"
    if "\<not> takes (ring s) (threads s t)" "\<And>pos. threads s t \<noteq> PPub pos" "claims (run_thread t s) = claims s"
  proof -
    have "taken (run_thread t s) = taken s" using that(1) by (cases "threads s t") (simp_all add: run_thread_simps)
    with that show "visible (run_thread t s) = visible s" "seen (run_thread t s) = seen s"
      using queue_slot_kept [OF inv w] by (auto intro!: visible_kept simp: seen_def)
  qed
  show ?thesis
  proof (cases "threads s t")
    case (CSeq pos)
    note k = kept [unfolded CSeq]
    let ?c = "snd (astep (ring s) (CSeq pos))"
    have "threads (run_thread t s) t = ?c" by (simp add: CSeq run_thread_simps)
    moreover have "?c = CRet None \<Longrightarrow> visible s = []" using pop_empty_iff [OF inv short CSeq] by simp
    moreover have "?c = CCas pos \<or> ?c = CRet None \<or> ?c = CHead" by (simp add: Let_def)
    ultimately show ?thesis using k CSeq by (auto simp: front_def run_thread_simps)
  next
    case (CCas pos)
    show ?thesis
    proof (cases "head (ring s) = pos")
      case True
      have "taken s < length (claims s)" using take_step [OF inv w, of t pos] CCas True by simp
      moreover have "unat pos = taken s" by (rule inv_numbers(7) [OF inv w True])
      moreover have "visible s = claims s ! taken s # visible (run_thread t s)"
        using visible_run [OF inv w, of t] CCas True by simp
      ultimately show ?thesis
        using CCas True by (simp add: front_def seen_def run_thread_simps take_Suc_conv_app_nth)
    qed (use kept CCas in \<open>simp add: front_def run_thread_simps\<close>)
  next
    case (CRead pos)
    have "data (ring s) ! idx (ring s) pos = claims s ! unat pos"
      using inv_knows [OF inv CRead] idx_unat [OF inv_numbers(1) [OF inv w]] by (simp add: data_at_def)
    with CRead kept show ?thesis by (simp add: front_def run_thread_simps)
  qed (use r busy kept in \<open>simp_all add: front_def run_thread_simps\<close>)
qed

lemma front_perform:
  assumes inv: "conc_inv s" and short: "short_run s" and r: "roles t s" and a: "role_action t a"
  shows "\<exists>new. served (outcome (threads s t) (threads (perform a s) t)) (front t s) new (front t (perform a s)) \<and>
    seen (perform a s) = seen s @ new"
proof (cases a)
  case (Run u)
  show ?thesis
  proof (cases "at_rest (threads s u)")
    case busy: False
    show ?thesis
    proof (cases "u = t")
      case True
      with busy Run consumer_step [OF inv short, of t] r show ?thesis by (simp add: roles_def)
    next
      case False
      with r have "producing (threads s u)" by (simp add: roles_def)
      from producer_step [OF inv short_run_no_wrap [OF short] this False] False busy Run show ?thesis
        by (auto simp: run_thread_simps)
    qed
  qed (simp add: Run)
qed (use a in \<open>auto simp: front_def seen_def visible_def published_def [abs_def]\<close>)

section \<open>A sequence of pops\<close>

text \<open>
  The sequential explanation of a list of results: before each pop some items arrive, there are
  never more than \<open>n\<close>, and the pop returns the first one, or \<open>None\<close> when there is none.
\<close>

fun explains :: "nat \<Rightarrow> 'a list \<Rightarrow> 'a list list \<Rightarrow> 'a option list \<Rightarrow> 'a list \<Rightarrow> bool" where
  "explains n q [] [] q' = (q' = q)"
| "explains n q (xs # arr) (y # ys) q' =
     (length (q @ xs) \<le> n \<and>
      (case q @ xs of [] \<Rightarrow> y = None \<and> explains n [] arr ys q' | x # q1 \<Rightarrow> y = Some x \<and> explains n q1 arr ys q'))"
| "explains n q arr ys q' = False"

lemma short_run_fold: "short_run (fold perform as s) \<Longrightarrow> short_run s"
proof (induction as arbitrary: s)
  case (Cons a as)
  then have "short_run (perform a s)" by simp
  moreover have "cap (ring (perform a s)) = cap (ring s)" using cap_schedule [of "[a]" s] by simp
  moreover have "length (claims s) \<le> length (claims (perform a s))" using perform_grows [of s a] by simp
  ultimately show ?case by (simp add: short_run_def del: perform.simps)
qed simp

lemma results_explained:
  assumes "conc_inv s" and "short_run (fold perform as s)" and "roles t s" and "\<forall>a \<in> set as. role_action t a"
    and "q @ pre = front t s"
  shows "\<exists>arr q' rest new. explains (cap (ring s)) q arr (pop_results t as s) q' \<and>
    q' @ rest = front t (fold perform as s) \<and> seen (fold perform as s) = seen s @ new \<and> pre @ new = concat arr @ rest"
  using assms
proof (induction as arbitrary: s q pre)
  case Nil
  then show ?case by (intro exI [of _ "[]"] exI [of _ q] exI [of _ pre] exI [of _ "[]"]) simp
next
  case (Cons a as)
  let ?s = "perform a s"
  have short': "short_run ?s" and short: "short_run s"
    using short_run_fold [of as ?s] short_run_fold [of "a # as" s] Cons.prems(2) by simp_all
  note w = short_run_no_wrap [OF short]
  have inv': "conc_inv ?s" using perform_inv [OF Cons.prems(1) short_run_no_wrap [OF short']] by simp
  have r': "roles t ?s" using roles_perform [OF Cons.prems(3), of a] Cons.prems(4) by simp
  obtain new where st: "served (outcome (threads s t) (threads ?s t)) (front t s) new (front t ?s)"
    "seen ?s = seen s @ new"
    using front_perform [OF Cons.prems(1) short Cons.prems(3)] Cons.prems(4) by auto
  have cap: "cap (ring ?s) = cap (ring s)" using cap_schedule [of "[a]" s] by simp
  note IH = Cons.IH [OF inv' _ r', simplified cap]
  show ?case
  proof (cases "outcome (threads s t) (threads ?s t)")
    case Nil
    with st Cons.prems(5) have "q @ (pre @ new) = front t ?s" by simp
    from IH [OF _ _ this] Cons.prems(2,4) Nil st(2) show ?thesis by auto
  next
    case ret: (Cons y ys)
    with st(1) have one: "ys = []" "new = []" "case y of None \<Rightarrow> front t s = [] \<and> front t ?s = [] | Some x \<Rightarrow> front t s = x # front t ?s"
      by (cases y; simp)+
    have len: "length (q @ pre) \<le> cap (ring s)" using length_front [OF Cons.prems(1) w] Cons.prems(5) by simp
    obtain arr q' rest new' where ex: "explains (cap (ring s)) (front t ?s) arr (pop_results t as ?s) q'"
      "q' @ rest = front t (fold perform as ?s)" "seen (fold perform as ?s) = seen ?s @ new'" "new' = concat arr @ rest"
      using IH [of "front t ?s" "[]"] Cons.prems(2,4) by auto
    have "explains (cap (ring s)) q (pre # arr) (pop_results t (a # as) s) q'"
      using ex(1) one len ret Cons.prems(5) by (cases y) auto
    with ex st(2) one(2) show ?thesis by (intro exI [of _ "pre # arr"] exI [of _ q'] exI [of _ rest] exI [of _ new']) simp
  qed
qed

end
