(* ===== verification/Engine_Config.thy ===== *)
theory Engine_Config
  imports Ringbuf
begin

unbundle bit_operations_syntax

text \<open>
  The first half of \<^verbatim>\<open>batcher.go\<close>: \<^verbatim>\<open>Config\<close>, the \<^verbatim>\<open>Batcher\<close> struct, its constructors, \<^verbatim>\<open>Push\<close>,
  the counters and \<^verbatim>\<open>Stats\<close>, and \<^verbatim>\<open>Start\<close>'s single-use guard. The interfaces \<^verbatim>\<open>Sink\<close> and
  \<^verbatim>\<open>Compressor\<close> are records of functions over a state \<open>'s\<close> of the outside world (sockets, the
  receiver, the scheduler), which stands for code outside the package; \<^verbatim>\<open>Serializable.Marshal\<close>
  is an argument of the operations that call it. Allocation is taken to succeed.
\<close>

section \<open>Interfaces\<close>

datatype error =
    ErrFlushTimeout
  | ErrCompressRange int     \<comment> \<open>compressor returned out-of-range n\<close>
  | ErrShutdown int          \<comment> \<open>shutdown flush did not complete within the timeout\<close>
  | ErrPayloadTooLong nat
  | ErrShortWrite int int
  | Foreign string           \<comment> \<open>an error of a sink or a compressor\<close>

text \<open>A context: \<^verbatim>\<open>context.Background()\<close>, or one with a timeout derived from another.\<close>

datatype go_context = Background | WithTimeout go_context int

text \<open>
  How a call of \<^verbatim>\<open>Sink.Flush\<close> ends. \<open>Returns e\<close>: it returns \<open>e\<close> (\<open>None\<close> for nil) before any
  deadline that bounds the wait. \<open>ReturnsUnstored e\<close>: the same, and when it runs on its own
  goroutine that goroutine is descheduled between sending the result and clearing
  \<^verbatim>\<open>flushInFlight\<close>. \<open>Stalls\<close>: it does not return before the deadline, or not at all when there
  is none.
\<close>

datatype completion = Returns "error option" | ReturnsUnstored "error option" | Stalls

record 's sink_ops =
  Flush :: "go_context \<Rightarrow> bytes \<Rightarrow> 's \<Rightarrow> 's \<times> completion"
  Reliable :: bool

text \<open>\<open>c dst src s\<close>: what \<^verbatim>\<open>Compress(dst, src)\<close> leaves in \<^verbatim>\<open>dst\<close>, its count and its error.\<close>

type_synonym 's compressor = "bytes \<Rightarrow> bytes \<Rightarrow> 's \<Rightarrow> 's \<times> bytes \<times> int \<times> error option"

record 's world =
  env :: 's
  slog :: "error list"

section \<open>Config and Batcher\<close>

record 's Config =
  Sink :: "'s sink_ops option"
  Compressor :: "'s compressor option"
  OnFlushError :: "('s \<Rightarrow> error \<Rightarrow> 's) option"
  QueueSize :: u64
  MaxBatchSize :: int
  MaxItemSize :: int
  TickRate :: int
  Backpressure :: BackpressurePolicy
  ShutdownTimeout :: int
  FlushTimeout :: int
  DeltaEncoding :: bool
  KeyframeInterval :: u32

record ('a, 's) Batcher =
  byteBuffer :: bytes
  previousState :: bytes
  deltaBuffer :: bytes
  compressBuffer :: bytes
  timeoutBuf :: bytes
  ring :: "'a ringbuf"
  cfg :: "'s Config"
  started :: bool
  dropped :: u64
  sequenceID :: u32
  truncated :: u64
  flushedBatches :: u64
  flushedItems :: u64
  flushErrs :: u64
  bytesFlushed :: u64
  lastFlushAt :: int
  coalescedTicks :: u64
  lastLogTime :: int
  flushInFlight :: bool

definition batch_headerSize :: int where "batch_headerSize = 8"

text \<open>The errors of \<^verbatim>\<open>New\<close>, all of which wrap \<^verbatim>\<open>ErrInvalidConfig\<close>.\<close>

datatype config_error =
    BadQueueSize | BatchBelowHeader | BadBackpressure | BadMaxItemSize | BatchBelowItem
  | TickRateNotPositive | TickRateTooHigh | UnreliableDeltaSink

definition make_bytes :: "int \<Rightarrow> bytes" where
  "make_bytes n = replicate (nat n) 0"

text \<open>\<open>zero\<close> and \<open>sizeofT\<close>: the zero value of the item type and its \<^verbatim>\<open>unsafe.Sizeof\<close>.\<close>

definition New :: "'a \<Rightarrow> int \<Rightarrow> 's Config \<Rightarrow> (config_error + ('a, 's) Batcher) go" where
  "New zero sizeofT c0 =
     (if QueueSize c0 = 0 \<or> QueueSize c0 AND (QueueSize c0 - 1) \<noteq> 0 then Ret (Inl BadQueueSize)
      else if MaxBatchSize c0 < batch_headerSize then Ret (Inl BatchBelowHeader)
      else if Backpressure c0 \<noteq> DropNewest \<and> Backpressure c0 \<noteq> DropOldest then Ret (Inl BadBackpressure)
      else
        let c = (if MaxItemSize c0 = 0 then c0\<lparr>MaxItemSize := sizeofT\<rparr> else c0) in
        if MaxItemSize c \<le> 0 then Ret (Inl BadMaxItemSize)
        else if MaxBatchSize c < wrap64 (batch_headerSize + MaxItemSize c) then Ret (Inl BatchBelowItem)
        else if TickRate c \<le> 0 then Ret (Inl TickRateNotPositive)
        else if TickRate c > 1000000000 then Ret (Inl TickRateTooHigh)
        else if DeltaEncoding c \<and> (case Sink c of None \<Rightarrow> False | Some s \<Rightarrow> \<not> Reliable s)
        then Ret (Inl UnreliableDeltaSink)
        else
          go_bind (newRingbuf zero (QueueSize c)) (\<lambda>r.
          Ret (Inr \<lparr>byteBuffer = make_bytes (MaxBatchSize c),
                previousState = (if DeltaEncoding c then make_bytes (MaxBatchSize c) else []),
                deltaBuffer = (if DeltaEncoding c then make_bytes (MaxBatchSize c) else []),
                compressBuffer = (if Compressor c \<noteq> None then make_bytes (MaxBatchSize c) else []),
                timeoutBuf = (if FlushTimeout c > 0 then make_bytes (MaxBatchSize c) else []),
                ring = r, cfg = c, started = False, dropped = 0, sequenceID = 0, truncated = 0,
                flushedBatches = 0, flushedItems = 0, flushErrs = 0, bytesFlushed = 0, lastFlushAt = 0,
                coalescedTicks = 0, lastLogTime = 0, flushInFlight = False\<rparr>)))"

text \<open>The texts of the errors, with the verbs of \<^verbatim>\<open>fmt.Errorf\<close> in place of the numbers it formats.\<close>

definition config_message :: "config_error \<Rightarrow> string" where
  "config_message e = ''tickbatch: invalid config: '' @ (case e of
       BadQueueSize \<Rightarrow> ''QueueSize must be a positive power of two, got %d''
     | BatchBelowHeader \<Rightarrow> ''MaxBatchSize must be at least %d bytes (the fixed batch header)''
     | BadBackpressure \<Rightarrow> ''Backpressure is not a valid BackpressurePolicy''
     | BadMaxItemSize \<Rightarrow> ''MaxItemSize must be positive''
     | BatchBelowItem \<Rightarrow> ''MaxBatchSize must be >= headerSize + MaxItemSize (%d + %d = %d minimum)''
     | TickRateNotPositive \<Rightarrow> ''TickRate must be positive''
     | TickRateTooHigh \<Rightarrow> ''TickRate must not exceed 1_000_000_000 (1 GHz; interval would round to zero)''
     | UnreliableDeltaSink \<Rightarrow>
         ''DeltaEncoding requires a ReliableSink; UDPSink and other fire-and-forget sinks are incompatible'')"

definition MustNew :: "'a \<Rightarrow> int \<Rightarrow> 's Config \<Rightarrow> ('a, 's) Batcher go" where
  "MustNew zero sizeofT c =
     go_bind (New zero sizeofT c) (\<lambda>res.
       case res of Inl err \<Rightarrow> Panics (PanicMsg (config_message err)) | Inr b \<Rightarrow> Ret b)"

section \<open>Push and the counters\<close>

definition Push :: "('a, 's) Batcher \<Rightarrow> 'a \<Rightarrow> ('a, 's) Batcher go" where
  "Push b item =
     (case push (ring b) item (Backpressure (cfg b)) of
        None \<Rightarrow> Hangs
      | Some (r, ok) \<Rightarrow>
          if \<not> ok then Ret (b\<lparr>ring := r, dropped := dropped b + 1\<rparr>) else Ret (b\<lparr>ring := r\<rparr>))"

definition DroppedCount :: "('a, 's) Batcher \<Rightarrow> u64" where "DroppedCount b = dropped b"
definition EvictedCount :: "('a, 's) Batcher \<Rightarrow> u64" where "EvictedCount b = evicted (ring b)"
definition TruncatedCount :: "('a, 's) Batcher \<Rightarrow> u64" where "TruncatedCount b = truncated b"
definition FlushedBatches :: "('a, 's) Batcher \<Rightarrow> u64" where "FlushedBatches b = flushedBatches b"
definition FlushedItems :: "('a, 's) Batcher \<Rightarrow> u64" where "FlushedItems b = flushedItems b"
definition FlushErrorCount :: "('a, 's) Batcher \<Rightarrow> u64" where "FlushErrorCount b = flushErrs b"
definition BytesFlushed :: "('a, 's) Batcher \<Rightarrow> u64" where "BytesFlushed b = bytesFlushed b"
definition CoalescedTicks :: "('a, 's) Batcher \<Rightarrow> u64" where "CoalescedTicks b = coalescedTicks b"

text \<open>Unix nanoseconds, \<open>None\<close> for the zero \<^verbatim>\<open>time.Time\<close>.\<close>

definition LastFlushAt :: "('a, 's) Batcher \<Rightarrow> int option" where
  "LastFlushAt b = (let ns = lastFlushAt b in if ns = 0 then None else Some ns)"

definition QueueDepth :: "('a, 's) Batcher \<Rightarrow> u64" where
  "QueueDepth b =
     (let tl = tail (ring b); hd = head (ring b) in if tl \<ge> hd then tl - hd else 0)"

definition QueueCap :: "('a, 's) Batcher \<Rightarrow> u64" where
  "QueueCap b = rmask (ring b) + 1"

record stats =
  sLastFlushAt :: "int option"
  sDropped :: u64
  sEvicted :: u64
  sTruncated :: u64
  sFlushedBatches :: u64
  sFlushedItems :: u64
  sFlushErrors :: u64
  sBytesFlushed :: u64
  sCoalescedTicks :: u64
  sQueueDepth :: u64
  sQueueCap :: u64

definition Stats :: "('a, 's) Batcher \<Rightarrow> stats" where
  "Stats b = \<lparr>sLastFlushAt = LastFlushAt b, sDropped = dropped b, sEvicted = evicted (ring b),
     sTruncated = truncated b, sFlushedBatches = flushedBatches b, sFlushedItems = flushedItems b,
     sFlushErrors = flushErrs b, sBytesFlushed = bytesFlushed b, sCoalescedTicks = coalescedTicks b,
     sQueueDepth = QueueDepth b, sQueueCap = QueueCap b\<rparr>"

text \<open>The guard of \<^verbatim>\<open>Start\<close>; the goroutine it launches runs \<open>runLoop\<close> (theory \<^verbatim>\<open>Engine_Run\<close>).\<close>

definition Start :: "('a, 's) Batcher \<Rightarrow> ('a, 's) Batcher go" where
  "Start b = (if started b then Panics (PanicMsg ''tickbatch: Start called more than once'')
              else Ret (b\<lparr>started := True\<rparr>))"

section \<open>Invariant\<close>

text \<open>What \<^verbatim>\<open>New\<close> establishes about the configuration it stores (less its size test, which may overflow).\<close>

definition cfg_ok :: "'s Config \<Rightarrow> bool" where
  "cfg_ok c \<longleftrightarrow> is_pow2 (QueueSize c) \<and> QueueSize c \<noteq> 1 \<and> batch_headerSize \<le> MaxBatchSize c \<and>
     0 < MaxItemSize c \<and> 1 \<le> TickRate c \<and> TickRate c \<le> 1000000000 \<and>
     Backpressure c \<in> {DropNewest, DropOldest} \<and>
     (DeltaEncoding c \<longrightarrow> (\<forall>s. Sink c = Some s \<longrightarrow> Reliable s))"

text \<open>The buffers keep the sizes \<^verbatim>\<open>New\<close> gave them.\<close>

definition buffers_ok :: "('a, 's) Batcher \<Rightarrow> bool" where
  "buffers_ok b \<longleftrightarrow> (let n = nat (MaxBatchSize (cfg b)) in
     length (byteBuffer b) = n \<and>
     (DeltaEncoding (cfg b) \<longrightarrow> length (previousState b) = n \<and> length (deltaBuffer b) = n) \<and>
     (Compressor (cfg b) \<noteq> None \<longrightarrow> length (compressBuffer b) = n) \<and>
     length (timeoutBuf b) = (if FlushTimeout (cfg b) > 0 then n else 0))"

definition engine_inv :: "('a, 's) Batcher \<Rightarrow> bool" where
  "engine_inv b \<longleftrightarrow> cfg_ok (cfg b) \<and> buffers_ok b \<and> ring_inv (ring b) \<and>
     cap (ring b) = unat (QueueSize (cfg b))"

lemma length_make_bytes [simp]: "length (make_bytes n) = nat n"
  by (simp add: make_bytes_def)

text \<open>The configuration as \<^verbatim>\<open>New\<close> stores it, and the test it applies to it.\<close>

definition effective :: "int \<Rightarrow> 's Config \<Rightarrow> 's Config" where
  "effective sizeofT c = (if MaxItemSize c = 0 then c\<lparr>MaxItemSize := sizeofT\<rparr> else c)"

definition accepted :: "'s Config \<Rightarrow> bool" where
  "accepted c \<longleftrightarrow> is_pow2 (QueueSize c) \<and> 8 \<le> MaxBatchSize c \<and> Backpressure c \<in> {DropNewest, DropOldest} \<and>
     0 < MaxItemSize c \<and> wrap64 (8 + MaxItemSize c) \<le> MaxBatchSize c \<and>
     0 < TickRate c \<and> TickRate c \<le> 1000000000 \<and>
     (DeltaEncoding c \<longrightarrow> (\<forall>s. Sink c = Some s \<longrightarrow> Reliable s))"

lemma effective_simps [simp]:
  "QueueSize (effective z c) = QueueSize c" "MaxBatchSize (effective z c) = MaxBatchSize c"
  "Backpressure (effective z c) = Backpressure c" "TickRate (effective z c) = TickRate c"
  "DeltaEncoding (effective z c) = DeltaEncoding c" "Sink (effective z c) = Sink c"
  by (simp_all add: effective_def)

lemma New_cases:
  "if accepted (effective sizeofT c)
   then \<exists>b. New zero sizeofT c = Ret (Inr b) \<and> cfg b = effective sizeofT c \<and>
     newRingbuf zero (QueueSize c) = Ret (ring b) \<and> buffers_ok b \<and> started b = False \<and>
     byteBuffer b = make_bytes (MaxBatchSize c) \<and>
     (DeltaEncoding c \<longrightarrow> previousState b = make_bytes (MaxBatchSize c)) \<and>
     sequenceID b = 0 \<and> dropped b = 0 \<and> truncated b = 0 \<and> flushedItems b = 0 \<and> flushErrs b = 0 \<and>
     flushedBatches b = 0 \<and> flushInFlight b = False
   else \<exists>e. New zero sizeofT c = Ret (Inl e)"
proof -
  have pow2: "is_pow2 (QueueSize c) \<longleftrightarrow> \<not> (QueueSize c = 0 \<or> QueueSize c AND (QueueSize c - 1) \<noteq> 0)"
    by (simp add: is_pow2_def)
  show ?thesis
    unfolding New_def effective_def [symmetric] Let_def accepted_def pow2 batch_headerSize_def
    by (auto simp: newRingbuf_def is_pow2_def buffers_ok_def Let_def split: option.splits)
qed

lemma rmask_cap: "ring_shape r \<Longrightarrow> rmask r + 1 = of_nat (cap r)"
  by (rule rmask_Suc)

text \<open>The effect of \<^verbatim>\<open>Push\<close> on the queue and on the loss counters.\<close>

lemma Push_ring:
  assumes inv: "engine_inv b"
  shows "\<exists>r. Push b x = Ret (b\<lparr>ring := r, dropped := dropped b +
        (if Backpressure (cfg b) = DropNewest \<and> depth (ring b) = cap (ring b) then 1 else 0)\<rparr>) \<and>
    ring_inv r \<and> cap r = cap (ring b) \<and>
    items r = (if depth (ring b) < cap (ring b) then items (ring b) @ [x]
               else if Backpressure (cfg b) = DropNewest then items (ring b)
               else tl (items (ring b)) @ [x]) \<and>
    evicted r = evicted (ring b) +
      (if Backpressure (cfg b) \<noteq> DropNewest \<and> depth (ring b) = cap (ring b) then 1 else 0)"
proof -
  have ring: "ring_inv (ring b)" and pol: "Backpressure (cfg b) = DropNewest \<or> Backpressure (cfg b) = DropOldest"
    using inv by (auto simp: engine_inv_def cfg_ok_def)
  have d: "depth (ring b) \<le> cap (ring b)" by (rule ring_invD(2) [OF ring])
  show ?thesis
  proof (cases "depth (ring b) < cap (ring b)")
    case True
    have "push (ring b) x (Backpressure (cfg b)) = Some (enq (ring b) x, True)"
      using push_loop_room [OF ring True] by (simp add: push_def)
    then show ?thesis
      using enq_props [OF ring True, of x] True by (intro exI [of _ "enq (ring b) x"]) (simp add: Push_def)
  next
    case False
    with d have full: "depth (ring b) = cap (ring b)" by simp
    from pol show ?thesis
    proof
      assume "Backpressure (cfg b) = DropNewest"
      then show ?thesis
        using push_DropNewest [OF ring, of x] ring full by (intro exI [of _ "ring b"]) (simp add: Push_def)
    next
      assume old: "Backpressure (cfg b) = DropOldest"
      obtain r where r: "push_oldest (ring b) x = Some (r, True)" "evicted r = evicted (ring b) + 1"
        using push_oldest_evicted [OF ring] False by auto
      have "ring_inv r" "cap r = cap (ring b)" "items r = tl (items (ring b)) @ [x]"
        using rq_oldest.put_full [OF ring, of x] r(1) full by auto
      then show ?thesis using r full old by (intro exI [of _ r]) (simp add: Push_def)
    qed
  qed
qed

lemma Push_inv: "engine_inv b \<Longrightarrow> Push b x = Ret b' \<Longrightarrow> engine_inv b'"
  using Push_ring [of b x] by (auto simp: engine_inv_def buffers_ok_def Let_def)

lemma New_inv:
  assumes "accepted (effective sizeofT c)" and "QueueSize c \<noteq> 1"
  shows "\<exists>b. New zero sizeofT c = Ret (Inr b) \<and> cfg b = effective sizeofT c \<and> engine_inv b \<and> items (ring b) = [] \<and>
    byteBuffer b = make_bytes (MaxBatchSize c) \<and> started b = False \<and>
    (DeltaEncoding c \<longrightarrow> previousState b = make_bytes (MaxBatchSize c)) \<and>
    sequenceID b = 0 \<and> dropped b = 0 \<and> truncated b = 0 \<and> flushedItems b = 0 \<and> flushErrs b = 0 \<and>
    flushedBatches b = 0 \<and> flushInFlight b = False \<and> evicted (ring b) = 0"
  using New_cases [of sizeofT c zero] newRingbuf_inv [of "QueueSize c" zero] assms
  by (auto simp: engine_inv_def accepted_def cfg_ok_def batch_headerSize_def)

section \<open>Properties\<close>

text \<open>
  C26: \<^verbatim>\<open>New\<close> never panics (allocation taken to succeed). It returns a batcher exactly when the configuration (with the item
  size defaulted to the size of the item type) passes every documented check, the size check
  being computed in 64-bit arithmetic; the batcher then has its buffers allocated, and, for
  a queue of at least two slots, an empty ring and the engine's invariant. Without overflow the
  batch buffer has room for the header and an item. \<^verbatim>\<open>MustNew\<close> panics exactly where \<^verbatim>\<open>New\<close>
  returns an error.
\<close>

theorem New_exact:
  "if accepted (effective sizeofT c)
   then \<exists>b. New zero sizeofT c = Ret (Inr b) \<and> MustNew zero sizeofT c = Ret b \<and>
     cfg b = effective sizeofT c \<and> buffers_ok b \<and>
     (QueueSize c \<noteq> 1 \<longrightarrow> engine_inv b \<and> items (ring b) = []) \<and>
     (MaxItemSize (cfg b) < 2 ^ 63 - 8 \<longrightarrow> 8 + MaxItemSize (cfg b) \<le> MaxBatchSize (cfg b))
   else (\<exists>e. New zero sizeofT c = Ret (Inl e)) \<and> \<not> no_panic (MustNew zero sizeofT c)"
proof (cases "accepted (effective sizeofT c)")
  case True
  then obtain b where b: "New zero sizeofT c = Ret (Inr b)" "cfg b = effective sizeofT c"
    "newRingbuf zero (QueueSize c) = Ret (ring b)" "buffers_ok b"
    using New_cases [of sizeofT c zero] by auto
  have "engine_inv b \<and> items (ring b) = []" if "QueueSize c \<noteq> 1"
    using New_inv [OF True that, of zero] b(1) by auto
  moreover have "8 + MaxItemSize (cfg b) \<le> MaxBatchSize (cfg b)" if "MaxItemSize (cfg b) < 2 ^ 63 - 8"
  proof -
    have "int64_range (8 + MaxItemSize (cfg b))"
      using that True b(2) by (simp add: int64_range_def accepted_def)
    then show ?thesis using True b(2) by (simp add: accepted_def)
  qed
  ultimately show ?thesis using True b by (simp add: MustNew_def)
next
  case False
  then obtain e where "New zero sizeofT c = Ret (Inl e)" using New_cases [of sizeofT c zero] by auto
  then show ?thesis using False by (simp add: MustNew_def)
qed

text \<open>A configuration for the witnesses: no sink, four slots, batches of at most 24 bytes.\<close>

definition small_config :: "unit Config" where
  "small_config = \<lparr>Sink = None, Compressor = None, OnFlushError = None, QueueSize = 4, MaxBatchSize = 24,
     MaxItemSize = 0, TickRate = 60, Backpressure = DropOldest, ShutdownTimeout = 0, FlushTimeout = 0,
     DeltaEncoding = False, KeyframeInterval = 0\<rparr>"

lemma small_config_accepted: "accepted (effective 4 small_config)"
  by (simp add: accepted_def effective_def small_config_def is_pow2_def wrap64_def)

lemma small_batcher:
  "\<exists>b. New (0::nat) 4 small_config = Ret (Inr b) \<and> engine_inv b \<and> items (ring b) = [] \<and> cfg b = effective 4 small_config"
  using New_inv [OF small_config_accepted, of "0::nat"] by (auto simp: small_config_def)

theorem New_exact_witness:
  "\<exists>b. New (0::nat) 4 small_config = Ret (Inr b) \<and> engine_inv b \<and> items (ring b) = [] \<and>
     8 + MaxItemSize (cfg b) \<le> MaxBatchSize (cfg b)"
  using New_exact [of 4 small_config "0::nat"] small_config_accepted
  by (auto simp: small_config_def effective_def)

text \<open>
  The size check of \<^verbatim>\<open>New\<close> overflows: an item size of \<open>2 ^ 63 - 1\<close> is accepted with a batch
  buffer of 8 bytes, which has no room for any item.
\<close>

lemma New_size_check_overflows:
  "\<exists>b. New zero sizeofT (small_config\<lparr>MaxItemSize := 2 ^ 63 - 1, MaxBatchSize := 8\<rparr>) = Ret (Inr b) \<and>
     MaxBatchSize (cfg b) < 8 + MaxItemSize (cfg b) \<and> length (byteBuffer b) = 8"
  using New_cases [of sizeofT "small_config\<lparr>MaxItemSize := 2 ^ 63 - 1, MaxBatchSize := 8\<rparr>" zero]
  by (auto simp: accepted_def effective_def small_config_def is_pow2_def wrap64_def)

text \<open>
  \<^verbatim>\<open>Push\<close> always returns, keeps the invariant and accounts for every item: with room the
  item joins the back of the queue and no counter moves; on a full queue \<^verbatim>\<open>DropNewest\<close> counts
  the item as dropped and leaves the queue alone, and \<^verbatim>\<open>DropOldest\<close> counts the head as evicted
  and appends the item.
\<close>

lemma Push_accounts:
  assumes "engine_inv b"
  shows "\<exists>b'. Push b x = Ret b' \<and> engine_inv b' \<and> cfg b' = cfg b \<and>
    (if length (items (ring b)) < unat (QueueSize (cfg b))
     then items (ring b') = items (ring b) @ [x] \<and> DroppedCount b' = DroppedCount b \<and> EvictedCount b' = EvictedCount b
     else if Backpressure (cfg b) = DropNewest
     then items (ring b') = items (ring b) \<and> DroppedCount b' = DroppedCount b + 1 \<and> EvictedCount b' = EvictedCount b
     else items (ring b') = tl (items (ring b)) @ [x] \<and> DroppedCount b' = DroppedCount b \<and>
          EvictedCount b' = EvictedCount b + 1)"
proof -
  obtain b' where b': "Push b x = Ret b'" using Push_ring [OF assms] by blast
  have "depth (ring b) \<le> cap (ring b)" "cap (ring b) = unat (QueueSize (cfg b))"
    using assms ring_invD(2) [of "ring b"] by (simp_all add: engine_inv_def)
  with Push_ring [OF assms, of x] Push_inv [OF assms b'] b' show ?thesis
    by (auto simp: DroppedCount_def EvictedCount_def)
qed

end
