(* ===== verification/Engine_Drain.thy ===== *)
theory Engine_Drain
  imports Engine_Config "HOL-Library.Sublist"
begin

unbundle bit_operations_syntax

text \<open>
  The loop at the start of \<^verbatim>\<open>drainAndFlush\<close> (\<^verbatim>\<open>batcher.go\<close>), which serialises queued items into
  the batch buffer, as a client of the queue interface \<open>marshal_queue\<close>: its lemmas are proved
  once in that locale and used for the ring through the interpretation \<open>rq_marshal\<close>. The
  contract of \<^verbatim>\<open>Serializable.Marshal\<close> is the locale \<open>serializable\<close>.
\<close>

section \<open>The loop\<close>

text \<open>
  \<open>pull q room\<close> is \<^verbatim>\<open>popMarshal\<close> on the sub-slice \<open>room\<close>; it may change the bytes of that slice
  and not its length, which \<open>go_copy\<close> says.
\<close>

function drain_loop ::
  "('q \<Rightarrow> bytes \<Rightarrow> ('q \<times> bytes \<times> int \<times> bool) option) \<Rightarrow> int \<Rightarrow> 'q \<Rightarrow> bytes \<Rightarrow> int \<Rightarrow> nat \<Rightarrow> u64 \<Rightarrow>
   ('q \<times> bytes \<times> int \<times> nat \<times> u64) go" where
  "drain_loop pull maxItem q buf offset n trunc =
     (if n < 65535
      then
        let avail = int (length buf) - offset in
        if avail < maxItem then Ret (q, buf, offset, n, trunc)
        else go_bind (go_slice buf offset (int (length buf))) (\<lambda>room.
          case pull q room of
            None \<Rightarrow> Hangs
          | Some (q', room', written, ok) \<Rightarrow>
              let buf' = overwrite buf (nat offset) (go_copy room room') in
              if \<not> ok then Ret (q', buf', offset, n, trunc)
              else if written \<le> 0 \<or> written > avail then Ret (q', buf', offset, n, trunc + 1)
              else drain_loop pull maxItem q' buf' (offset + written) (n + 1) trunc)
      else Ret (q, buf, offset, n, trunc))"
  by pat_completeness auto
termination
  by (relation "measure (\<lambda>(pull, maxItem, q, buf, offset, n, trunc). 65535 - n)") auto

declare drain_loop.simps [simp del]

section \<open>Producers during the loop\<close>

text \<open>
  Other goroutines call \<^verbatim>\<open>Push\<close> while the loop runs. \<open>arr\<close> is one schedule: its first element lists the
  items whose push takes effect before the first \<^verbatim>\<open>popMarshal\<close>, the second those before the next
  one, and so on; what the loop does not get to is pushed before the batch is sent.
\<close>

fun pushes :: "'a list \<Rightarrow> ('a, 's) Batcher \<Rightarrow> ('a, 's) Batcher go" where
  "pushes [] b = Ret b"
| "pushes (x # xs) b = go_bind (Push b x) (pushes xs)"

definition pull_among ::
  "'a marshal \<Rightarrow> ('a, 's) Batcher \<times> 'a list list \<Rightarrow> bytes \<Rightarrow> ((('a, 's) Batcher \<times> 'a list list) \<times> bytes \<times> int \<times> bool) option" where
  "pull_among marshal q room = (case q of (b, arr) \<Rightarrow>
     (case pushes (concat (take 1 arr)) b of
        Ret b1 \<Rightarrow> map_option (\<lambda>(r, room', written, ok). ((b1\<lparr>ring := r\<rparr>, drop 1 arr), room', written, ok))
                    (popMarshal marshal (ring b1) room)
      | _ \<Rightarrow> None))"

definition drain_queue :: "'a marshal \<Rightarrow> 'a list list \<Rightarrow> ('a, 's) Batcher \<Rightarrow> (('a, 's) Batcher \<times> int \<times> nat) go" where
  "drain_queue marshal arr b =
     go_bind (drain_loop (pull_among marshal) (MaxItemSize (cfg b)) (b, arr) (byteBuffer b) batch_headerSize 0 (truncated b))
       (\<lambda>((b1, rest), buf, offset, n, trunc).
       go_bind (pushes (concat rest) b1) (\<lambda>b2.
       Ret (b2\<lparr>byteBuffer := buf, truncated := trunc\<rparr>, offset, n)))"

section \<open>What it computes\<close>

text \<open>The loop on the list of queued items: what remains queued, and the state it leaves.\<close>

fun gather :: "'a marshal \<Rightarrow> int \<Rightarrow> 'a list \<Rightarrow> bytes \<Rightarrow> int \<Rightarrow> nat \<Rightarrow> u64 \<Rightarrow> 'a list \<times> bytes \<times> int \<times> nat \<times> u64" where
  "gather m maxItem [] buf offset n trunc = ([], buf, offset, n, trunc)"
| "gather m maxItem (x # xs) buf offset n trunc =
     (if 65535 \<le> n \<or> int (length buf) - offset < maxItem then (x # xs, buf, offset, n, trunc)
      else
        let room = drop (nat offset) buf; w = snd (m x room);
            buf' = overwrite buf (nat offset) (go_copy room (fst (m x room))) in
        if w \<le> 0 \<or> w > int (length buf) - offset then (xs, buf', offset, n, trunc + 1)
        else gather m maxItem xs buf' (offset + w) (n + 1) trunc)"

lemma length_marshalled [simp]:
  "offset \<le> length buf \<Longrightarrow> length (overwrite buf offset (go_copy (drop offset buf) z)) = length buf"
  by (intro length_overwrite) simp

text \<open>One round of the loop, by cases: it stops, it finds the queue empty, or it takes an item.\<close>

abbreviation full :: "int \<Rightarrow> bytes \<Rightarrow> int \<Rightarrow> nat \<Rightarrow> bool" where
  "full maxItem buf offset n \<equiv> 65535 \<le> n \<or> int (length buf) - offset < maxItem"

abbreviation bad_count :: "bytes \<Rightarrow> int \<Rightarrow> int \<Rightarrow> bool" where
  "bad_count buf offset w \<equiv> w \<le> 0 \<or> w > int (length buf) - offset"

lemma drain_loop_full: "full maxItem buf offset n \<Longrightarrow> drain_loop pull maxItem q buf offset n trunc = Ret (q, buf, offset, n, trunc)"
  by (auto simp: drain_loop.simps Let_def)

lemma drain_loop_empty:
  assumes "\<not> full maxItem buf offset n" and "0 \<le> offset" and "offset \<le> int (length buf)"
    and "pull q (drop (nat offset) buf) = Some (q', drop (nat offset) buf, w, False)"
  shows "drain_loop pull maxItem q buf offset n trunc = Ret (q', buf, offset, n, trunc)"
proof -
  have "overwrite buf (nat offset) (drop (nat offset) buf) = buf" using assms(2,3) by (simp add: overwrite_def)
  then show ?thesis using assms by (subst drain_loop.simps) (simp add: Let_def go_slice_def)
qed

lemma drain_loop_item:
  assumes "\<not> full maxItem buf offset n" and "0 \<le> offset" and "offset \<le> int (length buf)"
    and "pull q (drop (nat offset) buf) = Some (q', room, w, True)"
    and "buf' = overwrite buf (nat offset) (go_copy (drop (nat offset) buf) room)"
  shows "drain_loop pull maxItem q buf offset n trunc =
    (if bad_count buf offset w then Ret (q', buf', offset, n, trunc + 1)
     else drain_loop pull maxItem q' buf' (offset + w) (n + 1) trunc)"
  using assms by (subst drain_loop.simps) (simp add: Let_def go_slice_def)

lemma gather_item:
  assumes "\<not> full maxItem buf offset n"
  shows "gather m maxItem (x # xs) buf offset n trunc =
    (let w = snd (m x (drop (nat offset) buf));
         buf' = overwrite buf (nat offset) (go_copy (drop (nat offset) buf) (fst (m x (drop (nat offset) buf)))) in
     if bad_count buf offset w then (xs, buf', offset, n, trunc + 1)
     else gather m maxItem xs buf' (offset + w) (n + 1) trunc)"
  using assms by (simp add: Let_def)

context marshal_queue
begin

lemma drain_gather:
  assumes "invar q" and "0 \<le> offset" and "offset \<le> int (length buf)"
  shows "\<exists>q' buf' offset' n' trunc'.
    drain_loop (pull m) maxItem q buf offset n trunc = Ret (q', buf', offset', n', trunc') \<and>
    invar q' \<and> capacity q' = capacity q \<and>
    gather m maxItem (contents q) buf offset n trunc = (contents q', buf', offset', n', trunc')"
  using assms
proof (induction "contents q" arbitrary: q buf offset n)
  case Nil
  show ?case
  proof (cases "full maxItem buf offset n")
    case False
    with Nil.prems pull_empty [OF Nil.prems(1), of m] Nil.hyps show ?thesis
      using drain_loop_empty [OF False] by (metis gather.simps(1))
  qed (use Nil in \<open>simp add: drain_loop_full flip: Nil.hyps\<close>)
next
  case (Cons x xs)
  let ?room = "drop (nat offset) buf"
  let ?w = "snd (m x ?room)" and ?buf = "overwrite buf (nat offset) (go_copy ?room (fst (m x ?room)))"
  obtain q' where q': "pull m q ?room = Some (q', fst (m x ?room), ?w, True)" "invar q'"
    "contents q' = xs" "capacity q' = capacity q"
    using pull_Cons [OF Cons.prems(1) Cons.hyps(2) [symmetric], of m] by blast
  show ?case
  proof (cases "full maxItem buf offset n")
    case True
    then have "gather m maxItem (contents q) buf offset n trunc = (contents q, buf, offset, n, trunc)"
      using Cons.hyps(2) by (metis gather.simps(2))
    with True Cons.prems(1) show ?thesis by (simp add: drain_loop_full)
  next
    case False
    note loop = drain_loop_item [where pull = "pull m", OF False Cons.prems(2,3) q'(1) refl]
      and spec = gather_item [OF False, of m x xs, unfolded Cons.hyps(2)]
    show ?thesis
    proof (cases "bad_count buf offset ?w")
      case True
      then show ?thesis using loop spec q' by (auto simp: Let_def)
    next
      case ok: False
      have "length ?buf = length buf" using Cons.prems by simp
      with ok Cons.prems have "0 \<le> offset + ?w" "offset + ?w \<le> int (length ?buf)" by auto
      from Cons.hyps(1) [OF q'(3) [symmetric] q'(2) this, of "n + 1"] show ?thesis
        using loop spec ok q'(3,4) by (simp add: Let_def)
    qed
  qed
qed

end

text \<open>Facts about \<open>gather\<close> that hold for any \<^verbatim>\<open>Marshal\<close>, however it misbehaves.\<close>

lemma gather_bounds:
  assumes "gather m maxItem xs buf offset n trunc = (rest, buf', offset', n', trunc')"
    and "0 \<le> offset" and "offset \<le> int (length buf)" and "n \<le> 65535"
  shows "length buf' = length buf \<and> offset \<le> offset' \<and> offset' \<le> int (length buf) \<and>
    n \<le> n' \<and> n' \<le> 65535 \<and> (n' = n \<longleftrightarrow> offset' = offset) \<and>
    (\<exists>d \<le> (1::nat). trunc' = trunc + of_nat d \<and> length xs = length rest + (n' - n) + d \<and>
      rest = drop (n' - n + d) xs) \<and>
    take (nat offset) buf' = take (nat offset) buf"
  using assms
proof (induction m maxItem xs buf offset n trunc rule: gather.induct)
  case (2 m maxItem x xs buf offset n trunc)
  let ?room = "drop (nat offset) buf"
  let ?w = "snd (m x ?room)" and ?buf = "overwrite buf (nat offset) (go_copy ?room (fst (m x ?room)))"
  have len: "length ?buf = length buf" using "2.prems" by simp
  have pre: "take (nat offset) ?buf = take (nat offset) buf" using "2.prems" by simp
  consider "65535 \<le> n \<or> int (length buf) - offset < maxItem"
    | "\<not> (65535 \<le> n \<or> int (length buf) - offset < maxItem)" "?w \<le> 0 \<or> ?w > int (length buf) - offset"
    | "\<not> (65535 \<le> n \<or> int (length buf) - offset < maxItem)" "\<not> (?w \<le> 0 \<or> ?w > int (length buf) - offset)"
    by blast
  then show ?case
  proof cases
    case 1
    then show ?thesis using "2.prems" by (auto intro: exI [of _ 0])
  next
    case 2
    then show ?thesis using "2.prems" len pre by (auto simp: Let_def intro: exI [of _ 1])
  next
    case 3
    then have rec: "gather m maxItem xs ?buf (offset + ?w) (n + 1) trunc = (rest, buf', offset', n', trunc')"
      using "2.prems"(1) by (simp add: Let_def)
    have bounds: "0 \<le> offset + ?w" "offset + ?w \<le> int (length ?buf)" "n + 1 \<le> 65535"
      using 3 "2.prems" len by auto
    note IH = "2.IH" [OF 3(1) refl refl refl 3(2) rec bounds]
    have "take (nat offset) (take (nat (offset + ?w)) buf') = take (nat offset) (take (nat (offset + ?w)) ?buf)"
      using IH by metis
    moreover have "nat offset \<le> nat (offset + ?w)" using 3 by (intro nat_mono) simp
    ultimately have tk: "take (nat offset) buf' = take (nat offset) buf" using pre by (simp add: min_absorb1)
    obtain d where d: "d \<le> (1::nat)" "trunc' = trunc + of_nat d" "length xs = length rest + (n' - (n + 1)) + d"
      "rest = drop (n' - (n + 1) + d) xs" using IH by blast
    have nums: "length buf' = length buf" "offset + ?w \<le> offset'" "offset' \<le> int (length buf)" "n + 1 \<le> n'" "n' \<le> 65535"
      using IH len by simp_all
    then have "n' - n + d = Suc (n' - (n + 1) + d)" by linarith
    with d nums have "length (x # xs) = length rest + (n' - n) + d \<and> rest = drop (n' - n + d) (x # xs)" by simp
    moreover have "offset < offset'" "n < n'" using nums 3 by linarith+
    ultimately show ?thesis using d(1,2) tk nums(1,3,5) by (intro conjI) (linarith | blast | simp)+
  qed
qed (auto intro: exI [of _ 0])

section \<open>Pushes and pops on the queue\<close>

text \<open>
  \<open>flow b xs ys r d\<close>: the items \<open>xs\<close> were pushed and \<open>ys\<close> popped, which left the ring \<open>r\<close> and \<open>d\<close> dropped
  items. The popped items and then the queued ones are a subsequence of the queue at
  the start and then the pushed ones; the difference is what \<^verbatim>\<open>dropped\<close> and \<^verbatim>\<open>evicted\<close> count, and
  there is none when everything fits.
\<close>

definition flow :: "('a, 's) Batcher \<Rightarrow> 'a list \<Rightarrow> 'a list \<Rightarrow> 'a ringbuf \<Rightarrow> u64 \<Rightarrow> bool" where
  "flow b xs ys r d \<longleftrightarrow> ring_inv r \<and> cap r = cap (ring b) \<and>
     subseq (ys @ items r) (items (ring b) @ xs) \<and>
     d + evicted r + of_nat (length (ys @ items r)) =
       dropped b + evicted (ring b) + of_nat (length (items (ring b) @ xs)) \<and>
     (length (items (ring b) @ xs) \<le> cap (ring b) \<longrightarrow> items (ring b) @ xs = ys @ items r)"

lemma ring_dropped_swap [simp]: "b\<lparr>dropped := d, ring := r\<rparr> = b\<lparr>ring := r, dropped := d\<rparr>"
  by simp

lemma flow_refl: "ring_inv (ring b) \<Longrightarrow> flow b [] [] (ring b) (dropped b)"
  by (simp add: flow_def)

lemma flow_trans:
  assumes "flow b xs ys r d" and "flow (b\<lparr>ring := r, dropped := d\<rparr>) xs' ys' r' d'"
  shows "flow b (xs @ xs') (ys @ ys') r' d'"
proof -
  let ?q = "items (ring b)"
  have s: "subseq (ys @ items r) (?q @ xs)" "subseq (ys' @ items r') (items r @ xs')"
    using assms by (simp_all add: flow_def)
  have "subseq (ys @ ys' @ items r') (ys @ items r @ xs')" using s(2) by (simp add: subseq_append')
  also have "subseq (ys @ items r @ xs') ((?q @ xs) @ xs')" using s(1) by (simp flip: append_assoc)
  finally have sub: "subseq ((ys @ ys') @ items r') (?q @ xs @ xs')" by simp
  have exact: "?q @ xs @ xs' = (ys @ ys') @ items r'" if fit: "length (?q @ xs @ xs') \<le> cap (ring b)"
  proof -
    have e: "?q @ xs = ys @ items r" using assms(1) fit by (simp add: flow_def)
    then have "length (?q @ xs) = length (ys @ items r)" by simp
    then have "length (items r @ xs') \<le> cap r" using fit assms(1) by (simp add: flow_def)
    then have "items r @ xs' = ys' @ items r'" using assms(2) by (simp add: flow_def)
    then show ?thesis using e by (metis append.assoc)
  qed
  show ?thesis using assms sub exact by (simp add: flow_def algebra_simps)
qed

lemma flow_push:
  assumes "engine_inv b"
  shows "\<exists>r d. Push b x = Ret (b\<lparr>ring := r, dropped := d\<rparr>) \<and> flow b [x] [] r d"
proof -
  have inv: "ring_inv (ring b)" using assms by (simp add: engine_inv_def)
  note c = rq.nonzero [OF inv] rq.bounded [OF inv]
  have tl: "subseq (tl q @ [x]) (q @ [x])" for q :: "'a list" by (cases q) auto
  let ?d = "dropped b + (if Backpressure (cfg b) = DropNewest \<and> depth (ring b) = cap (ring b) then 1 else 0)"
  obtain r where r: "Push b x = Ret (b\<lparr>ring := r, dropped := ?d\<rparr>)" "ring_inv r" "cap r = cap (ring b)"
    "items r = (if depth (ring b) < cap (ring b) then items (ring b) @ [x]
               else if Backpressure (cfg b) = DropNewest then items (ring b) else tl (items (ring b)) @ [x])"
    "evicted r = evicted (ring b) +
      (if Backpressure (cfg b) \<noteq> DropNewest \<and> depth (ring b) = cap (ring b) then 1 else 0)"
    using Push_ring [OF assms, of x] by blast
  have "depth (ring b) = cap (ring b)" if "\<not> depth (ring b) < cap (ring b)" using that c by simp
  then have "flow b [x] [] r ?d"
    using r(2-5) c tl by (cases "depth (ring b) < cap (ring b)"; cases "Backpressure (cfg b) = DropNewest")
      (simp_all add: flow_def subseq_rev_drop_many)
  with r(1) show ?thesis by blast
qed

lemma flow_inv: "engine_inv b \<Longrightarrow> flow b xs ys r d \<Longrightarrow> engine_inv (b\<lparr>ring := r, dropped := d\<rparr>)"
  by (simp add: flow_def engine_inv_def buffers_ok_def Let_def)

lemma flow_pushes:
  assumes "engine_inv b"
  shows "\<exists>r d. pushes xs b = Ret (b\<lparr>ring := r, dropped := d\<rparr>) \<and> flow b xs [] r d"
  using assms
proof (induction xs arbitrary: b)
  case Nil
  then show ?case using flow_refl [of b] by (intro exI [of _ "ring b"] exI [of _ "dropped b"]) (simp add: engine_inv_def)
next
  case (Cons x xs)
  obtain r d where p: "Push b x = Ret (b\<lparr>ring := r, dropped := d\<rparr>)" "flow b [x] [] r d"
    using flow_push [OF Cons.prems] by blast
  obtain r' d' where "pushes xs (b\<lparr>ring := r, dropped := d\<rparr>) = Ret (b\<lparr>ring := r', dropped := d'\<rparr>)"
    "flow (b\<lparr>ring := r, dropped := d\<rparr>) xs [] r' d'"
    using Cons.IH [OF flow_inv [OF Cons.prems p(2)]] by auto
  with p flow_trans [OF p(2)] show ?case by fastforce
qed

lemma popMarshal_evicted:
  assumes "ring_inv r" and "popMarshal m r buf = Some (r', x)"
  shows "evicted r' = evicted r"
proof (cases "items r")
  case Nil
  then show ?thesis using popMarshal_empty [OF assms(1) Nil, of m buf] assms by simp
next
  case (Cons y ys)
  then have "depth r \<noteq> 0" using length_items [of r] by auto
  with Cons show ?thesis
    using popMarshal_nonempty [OF assms(1) Cons, of m buf] assms deq_props [OF assms(1)] by auto
qed

text \<open>One pull: the pushes due before it, and then the head of the queue, if there is one.\<close>

lemma pull_among_step:
  assumes "engine_inv b"
  shows "\<exists>r d. case items r of
      [] \<Rightarrow> pull_among m (b, arr) room = Some ((b\<lparr>ring := r, dropped := d\<rparr>, drop 1 arr), room, 0, False) \<and>
        flow b (concat (take 1 arr)) [] r d
    | x # xs \<Rightarrow> \<exists>r'. pull_among m (b, arr) room =
          Some ((b\<lparr>ring := r', dropped := d\<rparr>, drop 1 arr), fst (m x room), snd (m x room), True) \<and>
        flow b (concat (take 1 arr)) [x] r' d"
proof -
  obtain r d where p: "pushes (concat (take 1 arr)) b = Ret (b\<lparr>ring := r, dropped := d\<rparr>)"
    and f: "flow b (concat (take 1 arr)) [] r d"
    using flow_pushes [OF assms] by blast
  have inv: "ring_inv r" using f by (simp add: flow_def)
  show ?thesis
  proof (cases "items r")
    case Nil
    with rq_marshal.pull_empty [OF inv Nil, of m room] p f show ?thesis
      by (intro exI [of _ r] exI [of _ d]) (simp add: pull_among_def)
  next
    case (Cons x xs)
    obtain r' where r': "popMarshal m r room = Some (r', fst (m x room), snd (m x room), True)" "ring_inv r'"
      "items r' = xs" "cap r' = cap r"
      using rq_marshal.pull_Cons [OF inv Cons, of m room] by blast
    have "flow (b\<lparr>ring := r, dropped := d\<rparr>) [] [x] r' d"
      using r' Cons popMarshal_evicted [OF inv r'(1)] length_items [of r] by (simp add: flow_def)
    from flow_trans [OF f this] p r'(1) Cons show ?thesis
      by (intro exI [of _ r] exI [of _ d]) (auto simp: pull_among_def)
  qed
qed

text \<open>
  The loop among producers. \<open>ys\<close> are the items it took, in order, and the batch is what \<open>gather\<close>
  makes of them. It ended because the queue was found empty, the count field or the buffer was
  full, or an item was truncated.
\<close>

definition drained_among ::
  "'a marshal \<Rightarrow> int \<Rightarrow> ('a, 's) Batcher \<Rightarrow> 'a list list \<Rightarrow> bytes \<Rightarrow> int \<Rightarrow> nat \<Rightarrow> u64 \<Rightarrow> bool" where
  "drained_among m maxItem b arr buf offset n trunc \<longleftrightarrow> (\<exists>r d rest ys buf' offset' n' trunc'.
    drain_loop (pull_among m) maxItem (b, arr) buf offset n trunc =
      Ret ((b\<lparr>ring := r, dropped := d\<rparr>, rest), buf', offset', n', trunc') \<and>
    (\<exists>due. arr = due @ rest \<and> flow b (concat due) ys r d) \<and>
    gather m maxItem ys buf offset n trunc = ([], buf', offset', n', trunc') \<and>
    (items r = [] \<or> full maxItem buf' offset' n' \<or> trunc' = trunc + 1))"

lemma among_full:
  assumes "engine_inv b" and "full maxItem buf offset n"
  shows "drained_among m maxItem b arr buf offset n trunc"
proof -
  have "ring_inv (ring b)" using assms(1) by (simp add: engine_inv_def)
  then have "arr = [] @ arr \<and> flow b (concat []) [] (ring b) (dropped b)" using flow_refl [of b] by simp
  moreover have "(b, arr) = (b\<lparr>ring := ring b, dropped := dropped b\<rparr>, arr)" by simp
  ultimately show ?thesis
    unfolding drained_among_def using assms(2) drain_loop_full [OF assms(2), of "pull_among m" "(b, arr)"] gather.simps(1) by metis
qed

lemma among_item:
  assumes more: "\<not> full maxItem buf offset n" and sz: "0 \<le> offset" "offset \<le> int (length buf)"
    and p: "pull_among m (b, arr) (drop (nat offset) buf) =
      Some ((b\<lparr>ring := r', dropped := d\<rparr>, drop 1 arr), fst (m x (drop (nat offset) buf)), snd (m x (drop (nat offset) buf)), True)"
    and f: "flow b (concat (take 1 arr)) [x] r' d"
    and rest: "\<And>w. w = snd (m x (drop (nat offset) buf)) \<Longrightarrow> \<not> bad_count buf offset w \<Longrightarrow>
      drained_among m maxItem (b\<lparr>ring := r', dropped := d\<rparr>) (drop 1 arr)
        (overwrite buf (nat offset) (go_copy (drop (nat offset) buf) (fst (m x (drop (nat offset) buf))))) (offset + w) (n + 1) trunc"
  shows "drained_among m maxItem b arr buf offset n trunc"
proof -
  let ?room = "drop (nat offset) buf"
  let ?w = "snd (m x ?room)" and ?buf = "overwrite buf (nat offset) (go_copy ?room (fst (m x ?room)))"
  note loop = drain_loop_item [where pull = "pull_among m", OF more sz p refl] and spec = gather_item [OF more, of m x, unfolded Let_def]
  have due: "arr = take 1 arr @ drop 1 arr" by simp
  show ?thesis
  proof (cases "bad_count buf offset ?w")
    case True
    with loop spec [of "[]"] f due show ?thesis unfolding drained_among_def by (metis (no_types, lifting))
  next
    case ok: False
    from rest [OF refl ok] obtain r2 d2 rest ys buf' offset' n' trunc' due' where
      l: "drain_loop (pull_among m) maxItem (b\<lparr>ring := r', dropped := d\<rparr>, drop 1 arr) ?buf (offset + ?w) (n + 1) trunc =
        Ret ((b\<lparr>ring := r2, dropped := d2\<rparr>, rest), buf', offset', n', trunc')"
      and g: "drop 1 arr = due' @ rest" "flow (b\<lparr>ring := r', dropped := d\<rparr>) (concat due') ys r2 d2"
        "gather m maxItem ys ?buf (offset + ?w) (n + 1) trunc = ([], buf', offset', n', trunc')"
        "items r2 = [] \<or> full maxItem buf' offset' n' \<or> trunc' = trunc + 1"
      unfolding drained_among_def by (auto simp del: One_nat_def)
    have "flow b (concat (take 1 arr @ due')) (x # ys) r2 d2" using flow_trans [OF f g(2)] by simp
    moreover have "arr = (take 1 arr @ due') @ rest" using g(1) by (metis append.assoc append_take_drop_id)
    ultimately show ?thesis unfolding drained_among_def using loop spec [of ys] ok l g(3,4) by (metis (no_types, lifting))
  qed
qed

lemma drain_among:
  assumes "engine_inv b" and "0 \<le> offset" and "offset \<le> int (length buf)"
  shows "drained_among m maxItem b arr buf offset n trunc"
  using assms
proof (induction "65535 - n" arbitrary: b arr buf offset n rule: less_induct)
  case less
  note sz = less.prems(2,3)
  let ?room = "drop (nat offset) buf"
  show ?case
  proof (cases "full maxItem buf offset n")
    case True
    then show ?thesis by (rule among_full [OF less.prems(1)])
  next
    case False
    obtain r d where step: "case items r of
        [] \<Rightarrow> pull_among m (b, arr) ?room = Some ((b\<lparr>ring := r, dropped := d\<rparr>, drop 1 arr), ?room, 0, False) \<and>
          flow b (concat (take 1 arr)) [] r d
      | x # xs \<Rightarrow> \<exists>r'. pull_among m (b, arr) ?room =
            Some ((b\<lparr>ring := r', dropped := d\<rparr>, drop 1 arr), fst (m x ?room), snd (m x ?room), True) \<and>
          flow b (concat (take 1 arr)) [x] r' d"
      using pull_among_step [OF less.prems(1)] by blast
    show ?thesis
    proof (cases "items r")
      case Nil
      then have p: "pull_among m (b, arr) ?room = Some ((b\<lparr>ring := r, dropped := d\<rparr>, drop 1 arr), ?room, 0, False)"
        "flow b (concat (take 1 arr)) [] r d" using step by simp_all
      have "arr = take 1 arr @ drop 1 arr" by simp
      with drain_loop_empty [where pull = "pull_among m", OF False sz p(1), of trunc] p(2) Nil show ?thesis
        unfolding drained_among_def by (metis gather.simps(1))
    next
      case (Cons x xs)
      then obtain r' where p: "pull_among m (b, arr) ?room =
          Some ((b\<lparr>ring := r', dropped := d\<rparr>, drop 1 arr), fst (m x ?room), snd (m x ?room), True)"
        and f: "flow b (concat (take 1 arr)) [x] r' d" using step by auto
      have "65535 - (n + 1) < 65535 - n" using False by arith
      then show ?thesis
        by (intro among_item [OF False sz p f] less.hyps flow_inv [OF less.prems(1) f]) (use sz in auto)
    qed
  qed
qed

text \<open>
  What a whole drain collects: the ring \<open>r\<close> and the count \<open>d\<close> of dropped items it leaves, the items
  \<open>ys\<close> it took, and the batch they make; and why it ended, when no producer interfered.
\<close>

definition collects ::
  "'a marshal \<Rightarrow> 'a list list \<Rightarrow> ('a, 's) Batcher \<Rightarrow> 'a list \<Rightarrow> 'a ringbuf \<Rightarrow> u64 \<Rightarrow> bytes \<Rightarrow> int \<Rightarrow> nat \<Rightarrow> u64 \<Rightarrow> bool" where
  "collects marshal arr b ys r d buf offset n trunc \<longleftrightarrow>
     drain_queue marshal arr b = Ret (b\<lparr>ring := r, dropped := d, byteBuffer := buf, truncated := trunc\<rparr>, offset, n) \<and>
     flow b (concat arr) ys r d \<and>
     gather marshal (MaxItemSize (cfg b)) ys (byteBuffer b) 8 0 (truncated b) = ([], buf, offset, n, trunc) \<and>
     (concat arr = [] \<longrightarrow> items r = [] \<or> 65535 \<le> n \<or> int (length buf) - offset < MaxItemSize (cfg b) \<or>
        trunc = truncated b + 1)"

lemma engine_sizes:
  assumes "engine_inv b"
  shows "8 \<le> int (length (byteBuffer b))"
    and "DeltaEncoding (cfg b) \<Longrightarrow> length (previousState b) = length (byteBuffer b)"
    and "DeltaEncoding (cfg b) \<Longrightarrow> length (deltaBuffer b) = length (byteBuffer b)"
    and "FlushTimeout (cfg b) > 0 \<Longrightarrow> length (timeoutBuf b) = length (byteBuffer b)"
  using assms by (auto simp: engine_inv_def cfg_ok_def buffers_ok_def batch_headerSize_def Let_def)

lemma collects_exists:
  assumes "engine_inv b"
  shows "\<exists>ys r d buf offset n trunc. collects marshal arr b ys r d buf offset n trunc"
proof -
  obtain r d rest ys buf offset n trunc due where
    l: "drain_loop (pull_among marshal) (MaxItemSize (cfg b)) (b, arr) (byteBuffer b) 8 0 (truncated b) =
      Ret ((b\<lparr>ring := r, dropped := d\<rparr>, rest), buf, offset, n, trunc)"
    and f: "arr = due @ rest" "flow b (concat due) ys r d"
    and g: "gather marshal (MaxItemSize (cfg b)) ys (byteBuffer b) 8 0 (truncated b) = ([], buf, offset, n, trunc)"
    and stop: "items r = [] \<or> 65535 \<le> n \<or> int (length buf) - offset < MaxItemSize (cfg b) \<or> trunc = truncated b + 1"
    using drain_among [OF assms, of 8 "byteBuffer b" marshal "MaxItemSize (cfg b)" arr 0 "truncated b", unfolded drained_among_def]
      engine_sizes(1) [OF assms] by auto
  obtain r' d' where p: "pushes (concat rest) (b\<lparr>ring := r, dropped := d\<rparr>) = Ret (b\<lparr>ring := r', dropped := d'\<rparr>)"
    "flow (b\<lparr>ring := r, dropped := d\<rparr>) (concat rest) [] r' d'"
    using flow_pushes [OF flow_inv [OF assms f(2)], of "concat rest"] by auto
  have "drain_queue marshal arr b = Ret (b\<lparr>ring := r', dropped := d', byteBuffer := buf, truncated := trunc\<rparr>, offset, n)"
    using l p(1) by (simp add: drain_queue_def batch_headerSize_def)
  moreover have "flow b (concat arr) ys r' d'" using flow_trans [OF f(2) p(2)] f(1) by simp
  moreover have "items r' = items r" if "concat arr = []"
  proof -
    have "concat rest = []" using that f(1) by simp
    with p(1) have "r' = r" by (metis Batcher.ext_inject Batcher.surjective Batcher.update_convs(6,9) go.inject pushes.simps(1))
    then show ?thesis by simp
  qed
  ultimately show ?thesis using g stop unfolding collects_def by metis
qed

lemma collects_bounds:
  assumes "engine_inv b" and "collects marshal arr b ys r d buf offset n trunc"
  shows "length buf = length (byteBuffer b)" and "8 \<le> offset" and "offset \<le> int (length (byteBuffer b))"
    and "n \<le> 65535" and "n = 0 \<longleftrightarrow> offset = 8"
    and "\<exists>t \<le> (1::nat). trunc = truncated b + of_nat t \<and> length ys = n + t"
  using gather_bounds [of marshal "MaxItemSize (cfg b)" ys "byteBuffer b" 8 0 "truncated b" "[]" buf offset n trunc]
    assms(2) engine_sizes(1) [OF assms(1)] by (auto simp: collects_def)

section \<open>The contract of Marshal\<close>

text \<open>
  \<^verbatim>\<open>Serializable\<close> (\<^verbatim>\<open>serializable.go\<close>) with the use \<^verbatim>\<open>Config.MaxItemSize\<close> makes of it: given room for
  \<open>maxItem\<close> bytes, \<^verbatim>\<open>Marshal\<close> writes the encoding of the item at the start of the slice, leaves
  the rest alone, and returns its length.
\<close>

locale serializable =
  fixes marshal :: "'a marshal" and enc :: "'a \<Rightarrow> bytes" and maxItem :: int
  assumes marshal_room: "maxItem \<le> int (length buf) \<Longrightarrow>
      marshal x buf = (enc x @ drop (length (enc x)) buf, int (length (enc x)))"
    and enc_size: "enc x \<noteq> []" "int (length (enc x)) \<le> maxItem"
begin

lemma marshalled_prefix:
  assumes "offset \<le> length buf" and "maxItem \<le> int (length buf - offset)"
  shows "take (offset + length (enc x)) (overwrite buf offset
      (go_copy (drop offset buf) (fst (marshal x (drop offset buf))))) = take offset buf @ enc x"
proof -
  have "fst (marshal x (drop offset buf)) = enc x @ drop (length (enc x)) (drop offset buf)"
    using marshal_room [of "drop offset buf" x] assms(2) by simp
  moreover have "length (enc x) \<le> length buf - offset" using enc_size(2) [of x] assms by linarith
  ultimately show ?thesis
    using assms by (simp add: take_overwrite_upto)
qed

text \<open>The batch is the encodings of the longest prefix of the queue that fits, in order.\<close>

lemma gather_enc:
  assumes "0 \<le> offset" and "offset \<le> int (length buf)" and "n \<le> 65535"
  shows "\<exists>k buf' offset'. gather marshal maxItem xs buf offset n trunc = (drop k xs, buf', offset', n + k, trunc) \<and>
    k \<le> length xs \<and> offset' = offset + int (length (concat (map enc (take k xs)))) \<and>
    take (nat offset') buf' = take (nat offset) buf @ concat (map enc (take k xs)) \<and>
    (k < length xs \<longrightarrow> n + k = 65535 \<or> int (length buf) - offset' < maxItem)"
  using assms
proof (induction xs arbitrary: buf offset n)
  case Nil
  then show ?case by (auto intro: exI [of _ 0])
next
  case (Cons x xs)
  let ?room = "drop (nat offset) buf"
  let ?buf = "overwrite buf (nat offset) (go_copy ?room (fst (marshal x ?room)))"
  show ?case
  proof (cases "65535 \<le> n \<or> int (length buf) - offset < maxItem")
    case True
    then show ?thesis using Cons.prems by (auto intro!: exI [of _ 0])
  next
    case False
    have room: "maxItem \<le> int (length ?room)" using False Cons.prems by simp
    have w: "snd (marshal x ?room) = int (length (enc x))" using marshal_room [OF room] by simp
    have len: "length ?buf = length buf" using Cons.prems by simp
    let ?off = "offset + int (length (enc x))"
    have pre: "take (nat ?off) ?buf = take (nat offset) buf @ enc x"
      using marshalled_prefix [of "nat offset" buf x] room Cons.prems by (simp add: nat_add_distrib)
    have fits: "\<not> (int (length (enc x)) \<le> 0 \<or> int (length (enc x)) > int (length buf) - offset)"
      using enc_size [of x] False by auto
    have "gather marshal maxItem (x # xs) buf offset n trunc = gather marshal maxItem xs ?buf ?off (n + 1) trunc"
      using False fits w by (simp add: Let_def)
    moreover obtain k buf' offset' where "gather marshal maxItem xs ?buf ?off (n + 1) trunc = (drop k xs, buf', offset', n + 1 + k, trunc)"
      "k \<le> length xs" "offset' = ?off + int (length (concat (map enc (take k xs))))"
      "take (nat offset') buf' = take (nat ?off) ?buf @ concat (map enc (take k xs))"
      "k < length xs \<longrightarrow> n + 1 + k = 65535 \<or> int (length buf) - offset' < maxItem"
      using Cons.IH [of ?off ?buf "n + 1"] Cons.prems fits False len by auto
    ultimately show ?thesis using pre by (intro exI [of _ "Suc k"] exI [of _ buf'] exI [of _ offset']) auto
  qed
qed

end

text \<open>With a \<^verbatim>\<open>Marshal\<close> that keeps its contract every item taken is in the batch.\<close>

lemma collects_enc:
  assumes inv: "engine_inv b" and ser: "serializable marshal enc (MaxItemSize (cfg b))"
    and col: "collects marshal arr b ys r d buf offset n trunc"
  shows "n = length ys" and "trunc = truncated b" and "offset = 8 + int (length (concat (map enc ys)))"
    and "take (nat offset) buf = take 8 (byteBuffer b) @ concat (map enc ys)"
proof -
  note sz = engine_sizes(1) [OF inv]
  obtain k buf' offset' where g: "gather marshal (MaxItemSize (cfg b)) ys (byteBuffer b) 8 0 (truncated b) =
      (drop k ys, buf', offset', 0 + k, truncated b)" "k \<le> length ys"
    "offset' = 8 + int (length (concat (map enc (take k ys))))"
    "take (nat offset') buf' = take (nat 8) (byteBuffer b) @ concat (map enc (take k ys))"
    using serializable.gather_enc [OF ser, of 8 "byteBuffer b" 0 ys "truncated b"] sz by auto
  then have "drop k ys = []" "buf' = buf" "offset' = offset" "n = k" "trunc = truncated b"
    using col by (auto simp: collects_def)
  with g show "n = length ys" "trunc = truncated b" "offset = 8 + int (length (concat (map enc ys)))"
    "take (nat offset) buf = take 8 (byteBuffer b) @ concat (map enc ys)" by simp_all
qed

end
