(* ===== verification/Concurrent_Drain.thy ===== *)
theory Concurrent_Drain
  imports Ring_Consumer Engine_Drain
begin

text \<open>
  The drain loop of \<^verbatim>\<open>drainAndFlush\<close> (\<^verbatim>\<open>batcher.go\<close>) over the ring of \<^verbatim>\<open>ringbuf.go\<close> at the level of
  atomic operations: the drain goroutine pops while other goroutines are inside \<^verbatim>\<open>push\<close>. The engine
  theories let the pushes take effect between two pops (\<open>drain_queue\<close>, \<open>arr\<close>); here this is shown to
  be no restriction.
\<close>

section \<open>The loop over the results of its pops\<close>

text \<open>\<^verbatim>\<open>popMarshal\<close> as the drain goroutine sees it: the next result of its pops, an item of which is
  marshalled into \<open>room\<close>. There is no next result while its call has not returned.\<close>

fun pull_results :: "'a marshal \<Rightarrow> 'a option list \<Rightarrow> bytes \<Rightarrow> ('a option list \<times> bytes \<times> int \<times> bool) option" where
  "pull_results m [] room = None"
| "pull_results m (None # ys) room = Some (ys, room, 0, False)"
| "pull_results m (Some x # ys) room = Some (ys, fst (m x room), snd (m x room), True)"

text \<open>The drain of batcher \<open>b\<close> by goroutine \<open>t\<close>, interleaved with others by the schedule \<open>as\<close> from state \<open>s\<close>.\<close>

definition interleaved_drain ::
  "'a marshal \<Rightarrow> nat \<Rightarrow> 'a action list \<Rightarrow> 'a sys \<Rightarrow> ('a, 's) Batcher \<Rightarrow> ('a option list \<times> bytes \<times> int \<times> nat \<times> u64) go" where
  "interleaved_drain m t as s b =
     drain_loop (pull_results m) (MaxItemSize (cfg b)) (pop_results t as s) (byteBuffer b) batch_headerSize 0 (truncated b)"

text \<open>One pull, when the arriving items fit.\<close>

lemma pull_among_fits:
  fixes b :: "('a, 's) Batcher"
  assumes inv: "engine_inv b" and fit: "length (items (Batcher.ring b) @ xs) \<le> cap (Batcher.ring b)"
  obtains r d where "engine_inv (b\<lparr>Batcher.ring := r, dropped := d\<rparr>)" and "cap r = cap (Batcher.ring b)"
    and "d + evicted r = dropped b + evicted (Batcher.ring b)"
    and "case items (Batcher.ring b) @ xs of
        [] \<Rightarrow> items r = [] \<and> pull_among m (b, xs # arr) room = Some ((b\<lparr>Batcher.ring := r, dropped := d\<rparr>, arr), room, 0, False)
      | x # q \<Rightarrow> items r = q \<and>
          pull_among m (b, xs # arr) room = Some ((b\<lparr>Batcher.ring := r, dropped := d\<rparr>, arr), fst (m x room), snd (m x room), True)"
proof -
  have simps: "drop 1 (xs # arr) = arr" "concat (take 1 (xs # arr)) = xs" by simp_all
  from pull_among_step [OF inv, of m "xs # arr" room, unfolded simps] obtain r d where
    step: "case items r of
      [] \<Rightarrow> pull_among m (b, xs # arr) room = Some ((b\<lparr>Batcher.ring := r, dropped := d\<rparr>, arr), room, 0, False) \<and> flow b xs [] r d
    | x # ys \<Rightarrow> \<exists>r'. pull_among m (b, xs # arr) room =
          Some ((b\<lparr>Batcher.ring := r', dropped := d\<rparr>, arr), fst (m x room), snd (m x room), True) \<and> flow b xs [x] r' d"
    by blast
  have fin: "engine_inv (b\<lparr>Batcher.ring := r', dropped := d\<rparr>) \<and> cap r' = cap (Batcher.ring b) \<and>
      d + evicted r' = dropped b + evicted (Batcher.ring b) \<and> items (Batcher.ring b) @ xs = ys @ items r'"
    if "flow b xs ys r' d" for ys r'
  proof -
    have eq: "items (Batcher.ring b) @ xs = ys @ items r'" using that fit by (simp add: flow_def)
    then show ?thesis using that flow_inv [OF inv that] arg_cong [OF eq, of length] by (simp add: flow_def)
  qed
  show thesis
  proof (cases "items r")
    case Nil
    with step fin [of "[]" r] that [of d r] show thesis by auto
  next
    case (Cons x ys)
    with step obtain r' where "pull_among m (b, xs # arr) room =
        Some ((b\<lparr>Batcher.ring := r', dropped := d\<rparr>, arr), fst (m x room), snd (m x room), True)" "flow b xs [x] r' d" by auto
    with fin [of "[x]" r'] that [of d r'] show thesis by auto
  qed
qed

lemma explains_Nil: "explains n q arr [] q' \<longleftrightarrow> arr = [] \<and> q' = q"
  by (cases arr) auto

text \<open>The first pull of an explained sequence has the result it should have.\<close>

lemma explained_pull:
  fixes b :: "('a, 's) Batcher"
  assumes inv: "engine_inv b" and ex: "explains (cap (Batcher.ring b)) (items (Batcher.ring b)) arr (y # ys) q'"
  obtains b' arr' where "engine_inv b'" and "explains (cap (Batcher.ring b')) (items (Batcher.ring b')) arr' ys q'"
    and "dropped b' + evicted (Batcher.ring b') = dropped b + evicted (Batcher.ring b)"
    and "pull_among m (b, arr) room = (case y of None \<Rightarrow> Some ((b', arr'), room, 0, False)
      | Some x \<Rightarrow> Some ((b', arr'), fst (m x room), snd (m x room), True))"
proof -
  obtain xs arr' where arr: "arr = xs # arr'" using ex by (cases arr) simp_all
  have fit: "length (items (Batcher.ring b) @ xs) \<le> cap (Batcher.ring b)" using ex arr by simp
  obtain r d where p: "engine_inv (b\<lparr>Batcher.ring := r, dropped := d\<rparr>)" "cap r = cap (Batcher.ring b)"
    "d + evicted r = dropped b + evicted (Batcher.ring b)"
    "case items (Batcher.ring b) @ xs of
        [] \<Rightarrow> items r = [] \<and> pull_among m (b, xs # arr') room = Some ((b\<lparr>Batcher.ring := r, dropped := d\<rparr>, arr'), room, 0, False)
      | x # q \<Rightarrow> items r = q \<and>
          pull_among m (b, xs # arr') room = Some ((b\<lparr>Batcher.ring := r, dropped := d\<rparr>, arr'), fst (m x room), snd (m x room), True)"
    by (rule pull_among_fits [OF inv fit])
  from ex arr p(2,4) show thesis
    by (intro that [of "b\<lparr>Batcher.ring := r, dropped := d\<rparr>" arr']) (use p(1,3) in \<open>auto split: list.splits\<close>)
qed

text \<open>One round of the loop over results.\<close>

lemma results_empty:
  assumes "\<not> full maxItem buf offset n" and "0 \<le> offset" and "offset \<le> int (length buf)"
  shows "drain_loop (pull_results m) maxItem (None # ys) buf offset n trunc = Ret (ys, buf, offset, n, trunc)"
  by (rule drain_loop_empty [OF assms]) simp

lemma results_item:
  fixes buf offset
  defines "room \<equiv> drop (nat offset) buf"
  assumes "\<not> full maxItem buf offset n" and "0 \<le> offset" and "offset \<le> int (length buf)"
  shows "drain_loop (pull_results m) maxItem (Some x # ys) buf offset n trunc =
    (if bad_count buf offset (snd (m x room)) then Ret (ys, overwrite buf (nat offset) (go_copy room (fst (m x room))), offset, n, trunc + 1)
     else drain_loop (pull_results m) maxItem ys (overwrite buf (nat offset) (go_copy room (fst (m x room))))
       (offset + snd (m x room)) (n + 1) trunc)"
  unfolding room_def by (rule drain_loop_item [OF assms(2-4) _ refl]) simp

lemma explained_drain:
  fixes b :: "('a, 's) Batcher"
  assumes "engine_inv b" and "explains (cap (Batcher.ring b)) (items (Batcher.ring b)) arr ys q'"
    and "0 \<le> offset" and "offset \<le> int (length buf)"
    and "drain_loop (pull_results m) maxItem ys buf offset n trunc = Ret ([], buf', offset', n', trunc')"
  shows "\<exists>b'. drain_loop (pull_among m) maxItem (b, arr) buf offset n trunc = Ret ((b', []), buf', offset', n', trunc') \<and>
    items (Batcher.ring b') = q' \<and> dropped b' + evicted (Batcher.ring b') = dropped b + evicted (Batcher.ring b)"
  using assms
proof (induction ys arbitrary: b arr buf offset n)
  case Nil
  have "full maxItem buf offset n"
    using Nil.prems(3-5) by (rule_tac ccontr) (simp add: drain_loop.simps [where q = "[]"] Let_def go_slice_def)
  with Nil.prems(2,5) show ?case by (simp add: drain_loop_full explains_Nil)
next
  case (Cons y ys)
  let ?room = "drop (nat offset) buf"
  have nf: "\<not> full maxItem buf offset n" using Cons.prems(5) drain_loop_full [where pull = "pull_results m" and q = "y # ys"] by fastforce
  note sz = Cons.prems(3,4)
  obtain b1 arr' where p: "engine_inv b1" "explains (cap (Batcher.ring b1)) (items (Batcher.ring b1)) arr' ys q'"
    "dropped b1 + evicted (Batcher.ring b1) = dropped b + evicted (Batcher.ring b)"
    "pull_among m (b, arr) ?room = (case y of None \<Rightarrow> Some ((b1, arr'), ?room, 0, False)
      | Some x \<Rightarrow> Some ((b1, arr'), fst (m x ?room), snd (m x ?room), True))"
    by (rule explained_pull [OF Cons.prems(1,2)])
  show ?case
  proof (cases y)
    case None
    with drain_loop_empty [where pull = "pull_among m", OF nf sz, of "(b, arr)"] Cons.prems(5) p show ?thesis
      by (simp add: explains_Nil results_empty [OF nf sz])
  next
    case (Some x)
    let ?w = "snd (m x ?room)" and ?buf = "overwrite buf (nat offset) (go_copy ?room (fst (m x ?room)))"
    have "pull_among m (b, arr) ?room = Some ((b1, arr'), fst (m x ?room), ?w, True)" using Some p(4) by simp
    note loop = results_item [OF nf sz, of m x ys trunc] drain_loop_item [where pull = "pull_among m", OF nf sz this refl]
    show ?thesis
    proof (cases "bad_count buf offset ?w")
      case True
      with loop Cons.prems(5) Some p show ?thesis by (auto simp: explains_Nil)
    next
      case False
      then have "0 \<le> offset + ?w" "offset + ?w \<le> int (length ?buf)" using sz by auto
      from Cons.IH [OF p(1,2) this] loop False Cons.prems(5) p(3) Some show ?thesis by simp
    qed
  qed
qed

section \<open>The loop ends\<close>

text \<open>Each round takes a result; each but the last one stores at least a byte and counts an item.\<close>

lemma min_room:
  assumes "(a::nat) + 1 \<le> c" and "1 \<le> min (N - n) (l - a)"
  shows "min (N - (n + 1)) (l - c) + 1 \<le> min (N - n) (l - a)"
proof -
  have "N - (n + 1) + 1 = N - n" "l - c + 1 \<le> l - a" using assms by auto
  then show ?thesis by (metis min_add_distrib_left min.mono order_refl)
qed

lemma pulls_bounded:
  assumes "0 \<le> offset" and "offset \<le> int (length buf)" and "0 < maxItem"
    and "min (65535 - n) (length buf - nat offset) \<le> length ys"
  shows "\<exists>k buf' offset' n' trunc'. drain_loop (pull_results m) maxItem ys buf offset n trunc = Ret (drop k ys, buf', offset', n', trunc') \<and>
    k \<le> min (65535 - n) (length buf - nat offset)"
  using assms
proof (induction ys arbitrary: buf offset n)
  case Nil
  then have "full maxItem buf offset n" by (auto simp: min_def split: if_splits)
  then show ?case by (auto simp: drain_loop_full)
next
  case (Cons y ys)
  note sz = Cons.prems(1,2)
  show ?case
  proof (cases "full maxItem buf offset n")
    case True
    then show ?thesis by (auto simp: drain_loop_full intro: exI [of _ "0::nat"])
  next
    case False
    then have one: "1 \<le> min (65535 - n) (length buf - nat offset)" using Cons.prems(1-3) by (simp add: nat_less_iff) linarith
    let ?room = "drop (nat offset) buf"
    consider "y = None" | x where "y = Some x" "bad_count buf offset (snd (m x ?room))"
      | x where "y = Some x" "\<not> bad_count buf offset (snd (m x ?room))" by (cases y) auto
    then show ?thesis
    proof cases
      case (3 x)
      let ?w = "snd (m x ?room)" and ?buf = "overwrite buf (nat offset) (go_copy ?room (fst (m x ?room)))"
      have len: "length ?buf = length buf" using sz by simp
      have "nat offset + 1 \<le> nat (offset + ?w)" using 3(2) sz(1) by linarith
      note less = min_room [OF this one]
      have off: "0 \<le> offset + ?w" "offset + ?w \<le> int (length ?buf)" using 3(2) sz len by auto
      have "min (65535 - (n + 1)) (length ?buf - nat (offset + ?w)) \<le> length ys"
        using less Cons.prems(4) unfolding len list.size by linarith
      from Cons.IH [OF off Cons.prems(3) this] obtain k buf' offset' n' trunc' where
        "drain_loop (pull_results m) maxItem ys ?buf (offset + ?w) (n + 1) trunc = Ret (drop k ys, buf', offset', n', trunc')"
        "k \<le> min (65535 - (n + 1)) (length ?buf - nat (offset + ?w))" by blast
      moreover from this(2) less have "Suc k \<le> min (65535 - n) (length buf - nat offset)" unfolding len by linarith
      ultimately show ?thesis using results_item [OF False sz, of m x ys trunc] 3 by (intro exI [of _ "Suc k"]) auto
    qed (use one in \<open>auto simp: results_empty [OF False sz] results_item [OF False sz] intro!: exI [of _ "1::nat"]\<close>)
  qed
qed

section \<open>Properties\<close>

text \<open>
  C13: a drain ends however fast producers push, for any \<^verbatim>\<open>Marshal\<close>. It is over once its pops have
  returned as many results as the smaller of 65535 and the bytes of the batch buffer behind the
  header, and it uses no more of them. (That each single pop returns is \<open>operations_lock_free\<close>.)
\<close>

theorem drain_terminates:
  assumes "engine_inv b" and "min 65535 (length (byteBuffer b) - 8) \<le> length (pop_results t as s)"
  shows "\<exists>k buf offset n trunc. interleaved_drain m t as s b = Ret (drop k (pop_results t as s), buf, offset, n, trunc) \<and>
    k \<le> min 65535 (length (byteBuffer b) - 8)"
  using pulls_bounded [of batch_headerSize "byteBuffer b" "MaxItemSize (cfg b)" 0] assms engine_sizes(1) [OF assms(1)]
  by (simp add: interleaved_drain_def batch_headerSize_def engine_inv_def cfg_ok_def)

text \<open>
  C6: the drain under real concurrency. One goroutine drains while any others push under
  \<^verbatim>\<open>DropNewest\<close>, all interleaved at their atomic operations, from a state whose visible items are
  those queued in \<open>b\<close>. If the drain loop comes to its end, then what it has built is what
  \<open>drain_queue\<close> builds for pushes that take effect between its pops: the same batch bytes,
  length, item count and truncation counter. Those pushes are the items that became visible
  during the schedule, in the order in which they were accepted, and none of them is dropped or
  evicted; what is left is what is queued in the ring. Once all goroutines have returned,
  every accepted item has become visible.
\<close>

theorem concurrent_drain:
  fixes b :: "('a, 's) Batcher"
  assumes "newRingbuf z sz = Ret r" and "sz \<noteq> 1" and "s = fold perform before (init_sys r)" and "s' = fold perform as s"
    and "\<forall>a \<in> set (before @ as). role_action t a" and "at_rest (threads s t)" and "short_run s'"
    and "engine_inv b" and "items (Batcher.ring b) = visible s" and "cap (Batcher.ring b) = cap r"
    and "interleaved_drain m t as s b = Ret ([], buf, offset, n, trunc)"
  shows "\<exists>arr late b'. drain_queue m arr b = Ret (b'\<lparr>byteBuffer := buf, truncated := trunc\<rparr>, offset, n) \<and>
    seen s' = seen s @ concat arr @ late \<and> items (Batcher.ring b') @ late = front t s' \<and>
    dropped b' + evicted (Batcher.ring b') = dropped b + evicted (Batcher.ring b) \<and>
    prefix (seen s') (claims s') \<and> ((\<forall>u. at_rest (threads s' u)) \<longrightarrow> seen s' = claims s')"
proof -
  have s: "reachable r s" and s': "reachable r s'"
    using schedule_reachable [of r before] schedule_reachable [of r "before @ as"] assms(3,4) by simp_all
  note fresh = fresh_newRingbuf [OF assms(1,2)]
  have w': "no_wrap s'" and w: "no_wrap s"
    using short_run_no_wrap [OF assms(7)] fold_no_wrap [of as s] assms(4) by simp_all
  note inv = reachable_inv [OF s fresh w] and inv' = reachable_inv [OF s' fresh w']
  have "roles t (fold perform acts (init_sys r))" if "\<forall>a \<in> set acts. role_action t a" for acts
    using that by (induction acts rule: rev_induct) (simp_all add: roles_def init_sys_def, simp add: roles_perform flip: roles_def)
  then have roles: "roles t s" using assms(3,5) by simp
  have front: "items (Batcher.ring b) @ [] = front t s" using assms(6,9) by (simp add: front_def)
  have cap: "cap (sys.ring s) = cap (Batcher.ring b)" using assms(3,10) by (simp add: init_sys_def)
  obtain arr q' late where ex: "explains (cap (Batcher.ring b)) (items (Batcher.ring b)) arr (pop_results t as s) q'"
    "q' @ late = front t s'" "seen s' = seen s @ concat arr @ late"
    using results_explained [OF inv _ roles _ front, of as] assms(4,5,7) cap by auto
  have off: "0 \<le> batch_headerSize" "batch_headerSize \<le> int (length (byteBuffer b))"
    using engine_sizes [OF assms(8)] by (simp_all add: batch_headerSize_def)
  obtain b' where b': "drain_loop (pull_among m) (MaxItemSize (cfg b)) (b, arr) (byteBuffer b) batch_headerSize 0 (truncated b) =
      Ret ((b', []), buf, offset, n, trunc)" "items (Batcher.ring b') = q'"
    "dropped b' + evicted (Batcher.ring b') = dropped b + evicted (Batcher.ring b)"
    using explained_drain [OF assms(8) ex(1) off assms(11) [unfolded interleaved_drain_def]] by blast
  have "prefix (seen s') (claims s')"
    using seen_prefix [OF inv_numbers(3) [OF inv' w']] by (metis take_is_prefix)
  moreover have "(\<forall>u. at_rest (threads s' u)) \<longrightarrow> seen s' = claims s'"
    using seen_quiet [OF inv' w'] quiescent_owners(1) [of s'] by simp
  ultimately show ?thesis
    using b' ex by (intro exI [of _ arr] exI [of _ late] exI [of _ b']) (simp add: drain_queue_def)
qed

text \<open>
  Producer 1 has pushed 7, producer 2 claims the next slot before the drain starts and writes 9
  while goroutine 0 is marshalling 7; the drain returns both items.
\<close>

definition duel :: "nat action list" where
  "duel = [CallPush 1 7 DropNewest, CallPush 2 9 DropNewest] @ replicate 5 (Run 1) @ replicate 3 (Run 2) @
     CallPop 0 # replicate 3 (Run 0) @ replicate 2 (Run 2) @ replicate 2 (Run 0) @
     CallPop 0 # replicate 5 (Run 0) @ CallPop 0 # replicate 2 (Run 0)"

definition four_bytes :: "nat marshal" where
  "four_bytes x room = (room, 4)"

theorem concurrent_drain_witness:
  "\<exists>b arr late b'. New (0::nat) 4 (small_config\<lparr>QueueSize := 2, Backpressure := DropNewest\<rparr>) = Ret (Inr b) \<and>
     pop_results 0 duel (init_sys ring2) = [Some 7, Some 9, None] \<and>
     drain_queue four_bytes arr b = Ret (b', 16, 2) \<and> concat arr @ late = [7, 9]"
proof -
  let ?c = "small_config\<lparr>QueueSize := 2, Backpressure := DropNewest\<rparr>"
  have "accepted (effective 4 ?c)"
    by (simp add: accepted_def effective_def small_config_def is_pow2_def wrap64_def)
  from New_inv [OF this, of "0::nat"] obtain b where b: "New (0::nat) 4 ?c = Ret (Inr b)" "engine_inv b"
    "items (Batcher.ring b) = []" "cfg b = effective 4 ?c" by (auto simp: small_config_def)
  have size: "length (byteBuffer b) = 24" "MaxItemSize (cfg b) = 4" "cap (Batcher.ring b) = 2"
    using b(2,4) by (simp_all add: engine_inv_def buffers_ok_def effective_def small_config_def Let_def)
  define s where "s = fold perform duel (init_sys ring2)"
  have pops: "pop_results 0 duel (init_sys ring2) = [Some 7, Some 9, None]" by code_simp
  have fin: "length (claims s) = 2" "seen s = [7, 9]" "front 0 s = []" unfolding s_def by code_simp+
  have roles: "\<forall>a \<in> set duel. role_action 0 a" by code_simp
  have start: "visible (init_sys ring2) = []" "seen (init_sys ring2) = []" "at_rest (threads (init_sys ring2) 0)" by code_simp+
  have short: "short_run s" using schedule_short [OF s_def] fin(1) cap_ring2 by simp
  have drain: "interleaved_drain four_bytes 0 duel (init_sys ring2) b = Ret ([], byteBuffer b, 16, 2, truncated b)"
    by (simp add: interleaved_drain_def pops batch_headerSize_def size drain_loop.simps Let_def go_slice_def four_bytes_def overwrite_def)
  from concurrent_drain [OF newRingbuf_ring2 _ _ s_def _ _ short b(2) _ _ drain, of "[]"] roles start size b(3) cap_ring2
  obtain arr late b' where "drain_queue four_bytes arr b = Ret (b', 16, 2)" "seen s = concat arr @ late" by auto
  with fin(2) b(1) pops show ?thesis by auto
qed

text \<open>A batch buffer of 16 bytes behind the header, a producer that pushes sixteen times, and a
  drain that stops after four items of four bytes.\<close>

definition flood :: "nat action list" where
  "flood = concat (replicate 16 (CallPush 1 7 DropNewest # replicate 5 (Run 1) @ CallPop 0 # replicate 5 (Run 0)))"

theorem drain_terminates_witness:
  "\<exists>b k buf offset n trunc. New (0::nat) 4 small_config = Ret (Inr b) \<and>
     interleaved_drain four_bytes 0 flood (init_sys ring2) b = Ret (drop k (replicate 16 (Some 7)), buf, offset, n, trunc) \<and> k \<le> 16"
proof -
  obtain b where b: "New (0::nat) 4 small_config = Ret (Inr b)" "engine_inv b" "cfg b = effective 4 small_config"
    using small_batcher by blast
  have size: "length (byteBuffer b) = 24"
    using b(2,3) by (simp add: engine_inv_def buffers_ok_def effective_def small_config_def Let_def)
  have pops: "pop_results 0 flood (init_sys ring2) = replicate 16 (Some 7)" by code_simp
  from drain_terminates [OF b(2), of 0 flood "init_sys ring2" four_bytes] size b(1) show ?thesis by (auto simp: pops)
qed

end
