(* ===== verification/Evicting_Drain.thy ===== *)
theory Evicting_Drain
  imports Concurrent_Drain
begin

text \<open>
  The drain loop of \<^verbatim>\<open>drainAndFlush\<close> (\<^verbatim>\<open>batcher.go\<close>) while producers push under either policy, so that
  under \<^verbatim>\<open>DropOldest\<close> they take items out of the ring (\<^verbatim>\<open>evictOldest\<close>, \<^verbatim>\<open>ringbuf.go\<close>) in competition with
  it. The batch holds the items the drain won, once each and in the order in which they were
  accepted; what it did not win was evicted.
\<close>

section \<open>One goroutine pops, any others push\<close>

fun lone_consumer :: "nat \<Rightarrow> 'a action \<Rightarrow> bool" where
  "lone_consumer t (CallPush u x p) = (u \<noteq> t)"
| "lone_consumer t (CallPop u) = (u = t)"
| "lone_consumer t (Run u) = True"

fun popping :: "'a pc \<Rightarrow> bool" where
  "popping CHead = True"
| "popping (CSeq pos) = True"
| "popping (CCas pos) = True"
| "popping (CRead pos) = True"
| "popping (CRecycle pos x) = True"
| "popping c = False"

definition sides :: "nat \<Rightarrow> 'a sys \<Rightarrow> bool" where
  "sides t s \<longleftrightarrow> consuming (threads s t) \<and> (\<forall>u. u \<noteq> t \<longrightarrow> \<not> popping (threads s u))"

lemma astep_not_popping: "\<not> popping c \<Longrightarrow> \<not> popping (snd (astep r c))"
  by (cases c) (simp_all add: Let_def)

lemma sides_perform: "sides t s \<Longrightarrow> lone_consumer t a \<Longrightarrow> sides t (perform a s)"
  by (cases a) (auto simp: sides_def run_thread_simps astep_roles astep_not_popping)

lemma sides_schedule: "\<forall>a \<in> set as. lone_consumer t a \<Longrightarrow> sides t (fold perform as (init_sys r))"
  by (induction as rule: rev_induct) (simp_all add: sides_perform, simp add: sides_def init_sys_def)

section \<open>Deliveries in order\<close>

text \<open>No position below this one will be handed to the consumer.\<close>

definition next_pos :: "nat \<Rightarrow> 'a sys \<Rightarrow> nat" where
  "next_pos t s = (case holds (threads s t) of None \<Rightarrow> taken s | Some p \<Rightarrow> p)"

definition won :: "'a option list \<Rightarrow> 'a list" where
  "won ys = concat (map (\<lambda>y. case y of None \<Rightarrow> [] | Some x \<Rightarrow> [x]) ys)"

lemma won_simps [simp]: "won [] = []" "won (None # ys) = won ys" "won (Some x # ys) = x # won ys" "won (ys @ zs) = won ys @ won zs"
  by (simp_all add: won_def)

lemma delivered_run_thread: "delivered (run_thread t s) = delivered (record_step (threads s t) s)"
  by (simp add: run_thread_def split: prod.split)

lemma not_popping_delivers: "\<not> popping c \<Longrightarrow> delivered (record_step c s) = delivered s"
  by (cases c) simp_all

text \<open>One action of the schedule hands the consumer nothing, or the item at the next position.\<close>

definition hands :: "nat \<Rightarrow> 'a sys \<Rightarrow> 'a sys \<Rightarrow> (nat \<times> 'a) list \<Rightarrow> bool" where
  "hands t s s' ds \<longleftrightarrow> delivered s' = delivered s @ ds \<and> won (outcome (threads s t) (threads s' t)) = map snd ds \<and>
     next_pos t s \<le> next_pos t s' \<and> (\<forall>d \<in> set ds. fst d = next_pos t s \<and> next_pos t s < next_pos t s') \<and> length ds \<le> 1"

lemma others_hand:
  assumes "\<not> popping (threads s u)" and "u \<noteq> t"
  shows "hands t s (run_thread u s) []"
proof -
  have "delivered (run_thread u s) = delivered s" "taken s \<le> taken (run_thread u s)"
    using assms(1) by (simp_all add: delivered_run_thread not_popping_delivers taken_run_thread taken_record_step)
  moreover have "threads (run_thread u s) t = threads s t" using assms(2) by (simp add: run_thread_simps)
  ultimately show ?thesis by (simp add: hands_def next_pos_def split: option.split)
qed

lemma consumer_hands:
  assumes inv: "conc_inv s" and w: "no_wrap s" and c: "consuming (threads s t)"
  shows "\<exists>ds. hands t s (run_thread t s) ds"
proof (cases "\<exists>pos x. threads s t = CRecycle pos x")
  case True
  then obtain pos x where th: "threads s t = CRecycle pos x" by blast
  with holdsD(1) [OF inv, of t "unat pos"] have "unat pos < taken s" by simp
  with th have "hands t s (run_thread t s) [(unat pos, x)]" by (simp add: hands_def next_pos_def delivered_run_thread run_thread_simps)
  then show ?thesis by blast
next
  case False
  have "next_pos t s \<le> next_pos t (run_thread t s)"
    using inv_numbers(7) [OF inv w] c False by (cases "threads s t") (auto simp: next_pos_def run_thread_simps Let_def)
  moreover have "delivered (run_thread t s) = delivered s" 
    using False by (cases "threads s t") (auto simp: delivered_run_thread)
  moreover have "won (outcome (threads s t) (threads (run_thread t s) t)) = []"
    using False c by (cases "threads s t") (auto simp: run_thread_simps Let_def)
  ultimately have "hands t s (run_thread t s) []" by (simp add: hands_def)
  then show ?thesis by blast
qed

lemma hands_nothing: "hands t s s []"
  by (simp add: hands_def)

lemma delivery_step:
  assumes "conc_inv s" and "no_wrap s" and r: "sides t s" and a: "lone_consumer t a"
  shows "\<exists>ds. hands t s (perform a s) ds"
proof (cases a)
  case (Run u)
  then show ?thesis
    using consumer_hands [OF assms(1,2)] others_hand [of s u t] hands_nothing [of t s] r
    by (cases "at_rest (threads s u)"; cases "u = t") (auto simp: sides_def)
next
  case (CallPush u x p)
  then have "hands t s (perform a s) []" using a by (simp add: hands_def next_pos_def split: option.split)
  then show ?thesis by blast
next
  case (CallPop u)
  have "next_pos t s \<le> taken s" if "at_rest (threads s t)" using that by (cases "threads s t") (simp_all add: next_pos_def)
  then have "hands t s (perform a s) []" using a CallPop by (auto simp: hands_def next_pos_def)
  then show ?thesis by blast
qed

lemma deliveries_in_order:
  assumes "conc_inv s" and "no_wrap (fold perform as s)" and "sides t s" and "\<forall>a \<in> set as. lone_consumer t a"
  shows "\<exists>ds. delivered (fold perform as s) = delivered s @ ds \<and> map snd ds = won (pop_results t as s) \<and>
    sorted_wrt (<) (map fst ds) \<and> (\<forall>d \<in> set ds. next_pos t s \<le> fst d)"
  using assms
proof (induction as arbitrary: s)
  case Nil
  then show ?case by simp
next
  case (Cons a as)
  have w: "no_wrap (perform a s)" using fold_no_wrap [of as "perform a s"] Cons.prems(2) by simp
  note pi = perform_inv [OF Cons.prems(1) w]
  obtain ds1 where d1: "hands t s (perform a s) ds1" using delivery_step [of s t a] pi Cons.prems by auto
  have "sides t (perform a s)" using sides_perform [OF Cons.prems(3), of a] Cons.prems(4) by simp
  then obtain ds2 where d2: "delivered (fold perform as (perform a s)) = delivered (perform a s) @ ds2"
    "map snd ds2 = won (pop_results t as (perform a s))" "sorted_wrt (<) (map fst ds2)" "\<forall>d \<in> set ds2. next_pos t (perform a s) \<le> fst d"
    using Cons.IH [of "perform a s"] pi Cons.prems by auto
  have "sorted_wrt (<) (map fst (ds1 @ ds2))"
    using d1 d2(3,4) by (cases ds1) (auto simp: hands_def dest: less_le_trans)
  moreover have "\<forall>d \<in> set (ds1 @ ds2). next_pos t s \<le> fst d" using d1 d2(4) by (auto simp: hands_def intro: order_trans)
  ultimately show ?case using d1 d2(1,2) by (intro exI [of _ "ds1 @ ds2"]) (simp add: hands_def)
qed

section \<open>The loop over what was won\<close>

lemma results_gathered:
  assumes "0 \<le> offset" and "offset \<le> int (length buf)"
    and "drain_loop (pull_results m) maxItem ys buf offset n trunc = Ret ([], buf', offset', n', trunc')"
  shows "gather m maxItem (won ys) buf offset n trunc = ([], buf', offset', n', trunc')"
  using assms
proof (induction ys arbitrary: buf offset n)
  case Nil
  have "full maxItem buf offset n"
    using Nil by (rule_tac ccontr) (simp add: drain_loop.simps [where q = "[]"] Let_def go_slice_def)
  with Nil show ?case by (simp add: drain_loop_full)
next
  case (Cons y ys)
  note sz = Cons.prems(1,2)
  let ?room = "drop (nat offset) buf"
  have nf: "\<not> full maxItem buf offset n" using Cons.prems(3) drain_loop_full [where pull = "pull_results m" and q = "y # ys"] by fastforce
  show ?case
  proof (cases y)
    case None
    with results_empty [OF nf sz, of m ys trunc] Cons.prems(3) show ?thesis by simp
  next
    case (Some x)
    let ?w = "snd (m x ?room)" and ?buf = "overwrite buf (nat offset) (go_copy ?room (fst (m x ?room)))"
    note loop = results_item [OF nf sz, of m x ys trunc]
    show ?thesis
    proof (cases "bad_count buf offset ?w")
      case True
      with loop Cons.prems(3) Some nf show ?thesis by (auto simp: Let_def)
    next
      case False
      then have "0 \<le> offset + ?w" "offset + ?w \<le> int (length ?buf)" using sz by auto
      from Cons.IH [OF this] loop False Cons.prems(3) Some nf show ?thesis by (auto simp: Let_def)
    qed
  qed
qed

section \<open>Properties\<close>

text \<open>
  C7: a drain in competition with evictions. One goroutine drains while any others push under any
  policy, all interleaved at their atomic operations. If the drain loop comes to its end, then the
  batch it built holds, behind its header, the encodings of items at strictly increasing positions
  \<open>ps\<close> among those that left the queue meanwhile: each item once, in the order in which the pushes
  were accepted, counted, none truncated. No item of the batch is evicted as well. Once all
  goroutines have returned, every item that left the queue is in the batch or was evicted, and
  \<^verbatim>\<open>evicted\<close> has counted those exactly.
\<close>

theorem evicting_drain:
  fixes b :: "('a, 's) Batcher"
  assumes "newRingbuf z sz = Ret r" and "sz \<noteq> 1" and "s = fold perform before (init_sys r)" and "s' = fold perform as s"
    and "\<forall>a \<in> set (before @ as). lone_consumer t a" and "at_rest (threads s t)" and "no_wrap s'"
    and "engine_inv b" and "serializable m enc (MaxItemSize (cfg b))"
    and "interleaved_drain m t as s b = Ret ([], buf, offset, n, trunc)"
  shows "\<exists>ps. take (nat offset) buf = take 8 (byteBuffer b) @ concat (map (\<lambda>p. enc (claims s' ! p)) ps) \<and>
    length ps = n \<and> trunc = truncated b \<and> sorted_wrt (<) ps \<and> set ps \<subseteq> {taken s..<taken s'} \<and>
    set ps \<inter> set (dropped_pos s') = {} \<and>
    ((\<forall>u. at_rest (threads s' u)) \<longrightarrow> {taken s..<taken s'} \<subseteq> set ps \<union> set (dropped_pos s') \<and>
       evicted (sys.ring s') = of_nat (length (dropped_pos s')))"
proof -
  have s: "reachable r s" and s': "reachable r s'"
    using schedule_reachable [of r before] schedule_reachable [of r "before @ as"] assms(3,4) by simp_all
  note fresh = fresh_newRingbuf [OF assms(1,2)]
  have w: "no_wrap s" using fold_no_wrap [of as s] assms(4,7) by simp
  note inv = reachable_inv [OF s fresh w] and inv' = reachable_inv [OF s' fresh assms(7)]
  have start: "next_pos t s = taken s" using assms(6) by (cases "threads s t") (simp_all add: next_pos_def)
  obtain ds where ds: "delivered s' = delivered s @ ds" "map snd ds = won (pop_results t as s)" "sorted_wrt (<) (map fst ds)"
    "\<forall>d \<in> set ds. taken s \<le> fst d"
    using deliveries_in_order [OF inv, of as t] sides_schedule [of before t r] assms(3-5,7) start by auto
  have hist: "distinct (gone s')" "ran (held (threads s')) \<union> set (gone s') = {0..<taken s'}" "\<forall>(p, x) \<in> set (delivered s'). x = claims s' ! p"
    "set (gone s) \<subseteq> {0..<taken s}"
    using inv inv' by (auto simp: conc_inv_def history_ok_def)
  let ?ps = "map fst ds"
  have enc: "map enc (won (pop_results t as s)) = map (\<lambda>p. enc (claims s' ! p)) ?ps"
    using hist(3) ds(1) unfolding ds(2) [symmetric] by (auto simp: split_def)
  have sz: "0 \<le> (8::int)" "8 \<le> int (length (byteBuffer b))" using engine_sizes(1) [OF assms(8)] by simp_all
  have "gather m (MaxItemSize (cfg b)) (won (pop_results t as s)) (byteBuffer b) 8 0 (truncated b) = ([], buf, offset, n, trunc)"
    using results_gathered [OF sz] assms(10) by (simp add: interleaved_drain_def batch_headerSize_def)
  with serializable.gather_enc [OF assms(9) sz, of 0 "won (pop_results t as s)" "truncated b"]
  have body: "take (nat offset) buf = take 8 (byteBuffer b) @ concat (map enc (won (pop_results t as s)))"
    "n = length (won (pop_results t as s))" "trunc = truncated b" by auto
  have "length ?ps = n" using body(2) arg_cong [OF ds(2), of length] by simp
  moreover have "set ?ps \<subseteq> {taken s..<taken s'}" using ds(1,4) hist(2) by (force simp: gone_def)
  moreover have "set ?ps \<inter> set (dropped_pos s') = {}" using hist(1) ds(1) by (auto simp: gone_def)
  moreover have "{taken s..<taken s'} \<subseteq> set ?ps \<union> set (dropped_pos s')" if rest: "\<forall>u. at_rest (threads s' u)"
  proof
    fix p assume p: "p \<in> {taken s..<taken s'}"
    then have "p \<in> set (gone s')" using hist(2) quiescent_owners(2) [of s'] rest by auto
    moreover have "p \<notin> set (gone s)" using hist(4) p by auto
    ultimately show "p \<in> set ?ps \<union> set (dropped_pos s')" using ds(1) by (auto simp: gone_def)
  qed
  moreover have "evicted (sys.ring s') = of_nat (length (dropped_pos s'))" if "\<forall>u. at_rest (threads s' u)"
    using reachable_evicted_ok [OF s' fresh] quiescent_counting [OF that] by (simp add: evicted_ok_def)
  ultimately show ?thesis using body ds(3) enc by (intro exI [of _ ?ps]) simp
qed

text \<open>
  Two items are queued. The drain is about to take the first one when a push evicts it; it takes the
  other two.
\<close>

definition race_before :: "nat action list" where
  "race_before = CallPush 1 7 DropOldest # replicate 5 (Run 1) @ CallPush 1 8 DropOldest # replicate 5 (Run 1)"

definition race :: "nat action list" where
  "race = CallPop 0 # replicate 2 (Run 0) @ CallPush 1 9 DropOldest # replicate 12 (Run 1) @ replicate 6 (Run 0) @
     CallPop 0 # replicate 5 (Run 0) @ CallPop 0 # replicate 2 (Run 0)"

definition one_byte :: "nat marshal" where
  "one_byte x room = (if room = [] then (room, 0) else (of_nat x # tl room, 1))"

theorem evicting_drain_witness:
  "\<exists>b buf. New (0::nat) 4 (small_config\<lparr>QueueSize := 2, Backpressure := DropOldest\<rparr>) = Ret (Inr b) \<and>
     pop_results 0 race (fold perform race_before (init_sys ring2)) = [Some 8, Some 9, None] \<and>
     interleaved_drain one_byte 0 race (fold perform race_before (init_sys ring2)) b = Ret ([], buf, 10, 2, truncated b) \<and>
     drop 8 (take 10 buf) = [8, 9] \<and> dropped_pos (fold perform (race_before @ race) (init_sys ring2)) = [0]"
proof -
  let ?c = "small_config\<lparr>QueueSize := 2, Backpressure := DropOldest\<rparr>"
  have "accepted (effective 4 ?c)"
    by (simp add: accepted_def effective_def small_config_def is_pow2_def wrap64_def)
  from New_inv [OF this, of "0::nat"] obtain b where b: "New (0::nat) 4 ?c = Ret (Inr b)" "engine_inv b" "cfg b = effective 4 ?c"
    by (auto simp: small_config_def)
  have size: "length (byteBuffer b) = 24" "MaxItemSize (cfg b) = 4"
    using b(2,3) by (simp_all add: engine_inv_def buffers_ok_def effective_def small_config_def Let_def)
  define s where "s = fold perform race_before (init_sys ring2)"
  define s' where "s' = fold perform race s"
  have pops: "pop_results 0 race s = [Some 8, Some 9, None]" unfolding s_def by code_simp
  have s: "at_rest (threads s 0)" "taken s = 0" unfolding s_def by code_simp+
  have s': "length (claims s') = 3" "claims s' = [7, 8, 9]" "dropped_pos s' = [0]" "taken s' = 3" unfolding s_def s'_def by code_simp+
  have lone: "\<forall>a \<in> set (race_before @ race). lone_consumer 0 a" by code_simp
  have w: "no_wrap s'" using schedule_no_wrap [of s' "race_before @ race" ring2] s'(1) cap_ring2 by (simp add: s'_def s_def)
  have ser: "serializable one_byte (\<lambda>x. [of_nat x]) (MaxItemSize (cfg b))"
    by unfold_locales (auto simp: size one_byte_def drop_Suc)
  have "\<exists>buf. interleaved_drain one_byte 0 race s b = Ret ([], buf, 10, 2, truncated b)"
    by (simp add: interleaved_drain_def pops batch_headerSize_def size drain_loop.simps Let_def go_slice_def one_byte_def)
  then obtain buf where drain: "interleaved_drain one_byte 0 race s b = Ret ([], buf, 10, 2, truncated b)" by blast
  from evicting_drain [OF newRingbuf_ring2 _ s_def s'_def lone s(1) w b(2) ser drain] obtain ps where
    ps: "take 10 buf = take 8 (byteBuffer b) @ concat (map (\<lambda>p. [of_nat ([7, 8, 9] ! p)]) ps)" "length ps = 2" "sorted_wrt (<) ps"
      "set ps \<subseteq> {0..<3}" "0 \<notin> set ps" using s' s(2) by auto
  then obtain i j where "ps = [i, j]" by (auto simp: numeral_2_eq_2 length_Suc_conv)
  with ps have "ps = [1, 2]" by auto
  with ps(1) size have "drop 8 (take 10 buf) = [8, 9]" by simp
  with b(1) pops drain s'(3) show ?thesis by (auto simp: s_def s'_def)
qed

end
