(* ===== verification/Ring_Linearizable.thy ===== *)
theory Ring_Linearizable
  imports Ring_Results
begin

text \<open>
  The ring of \<^verbatim>\<open>ringbuf.go\<close> as a bounded queue with calls and returns: every run of the atomic
  operations, seen through the calls that goroutines make and the results they get back, is a run
  of a queue in which a push is accepted in one step between its call and its return, an eviction
  is one step of a push that found the queue full, and a pop takes the oldest item in one step
  between its call and its return.
\<close>

section \<open>Calls and returns\<close>

datatype 'a ring_event =
    CalledPush nat 'a BackpressurePolicy
  | ReturnedPush nat bool
  | CalledPop nat
  | ReturnedPop nat "'a option"

text \<open>What the caller of goroutine \<open>t\<close> sees when its program counter goes from \<open>c\<close> to \<open>c'\<close>.\<close>

fun returns :: "nat \<Rightarrow> 'a pc \<Rightarrow> 'a ring_event list" where
  "returns t (PRet b) = [ReturnedPush t b]"
| "returns t (CRet y) = [ReturnedPop t y]"
| "returns t c = []"

fun observe :: "'a action \<Rightarrow> 'a sys \<Rightarrow> 'a ring_event list" where
  "observe (CallPush t x p) s = (if at_rest (threads s t) then [CalledPush t x p] else [])"
| "observe (CallPop t) s = (if at_rest (threads s t) then [CalledPop t] else [])"
| "observe (Run t) s = (if at_rest (threads s t) then [] else returns t (threads (run_thread t s) t))"

section \<open>The queue it implements\<close>

text \<open>
  What a goroutine is doing: outside the ring, in a push that is not accepted yet (with the number
  of eviction attempts made), in one that has found the queue full, in one that has evicted the item
  at a position and not yet freed its slot, in one whose item is accepted at a position; in a pop
  that has no item yet, in one that has taken the item at a position.
\<close>

datatype 'a mode =
    Out
  | Pushing 'a BackpressurePolicy int
  | Blocked 'a BackpressurePolicy int
  | Evicting nat 'a BackpressurePolicy int
  | Pushed nat
  | Popping
  | Popped nat 'a

record 'a bqueue =
  room :: nat
  removed :: nat
  queue :: "'a list"
  modes :: "nat \<Rightarrow> 'a mode"

definition empty_queue :: "nat \<Rightarrow> 'a bqueue" where
  "empty_queue n = \<lparr>room = n, removed = 0, queue = [], modes = (\<lambda>_. Out)\<rparr>"

fun occupies :: "'a mode \<Rightarrow> nat option" where
  "occupies (Evicting i x p k) = Some i"
| "occupies (Popped i y) = Some i"
| "occupies m = None"

text \<open>A slot is wanted for the next item and there is none: as many items are queued as there are
  slots, or the item that was in the next slot has been taken and the slot is not free yet.\<close>

definition crowded :: "'a bqueue \<Rightarrow> bool" where
  "crowded q \<longleftrightarrow> length (queue q) = room q \<or>
     room q \<le> removed q + length (queue q) \<and>
     (\<exists>u. occupies (modes q u) = Some (removed q + length (queue q) - room q))"

text \<open>The oldest item can be taken: there is one, and its push has returned.\<close>

definition ready :: "'a bqueue \<Rightarrow> bool" where
  "ready q \<longleftrightarrow> queue q \<noteq> [] \<and> (\<forall>u. modes q u \<noteq> Pushed (removed q))"

definition go_on :: "nat \<Rightarrow> 'a mode \<Rightarrow> 'a bqueue \<Rightarrow> 'a bqueue" where
  "go_on t m q = q\<lparr>modes := (modes q)(t := m)\<rparr>"

inductive fifo_step :: "'a ring_event list \<Rightarrow> 'a bqueue \<Rightarrow> 'a bqueue \<Rightarrow> bool" where
  call_push: "modes q t = Out \<Longrightarrow> fifo_step [CalledPush t x p] q (go_on t (Pushing x p 0) q)"
| accept: "modes q t = Pushing x p k \<Longrightarrow> \<not> crowded q \<Longrightarrow> length (queue q) < room q \<Longrightarrow>
    fifo_step [] q (go_on t (Pushed (removed q + length (queue q))) (q\<lparr>queue := queue q @ [x]\<rparr>))"
| accepted: "modes q t = Pushed i \<Longrightarrow> fifo_step [ReturnedPush t True] q (go_on t Out q)"
| refuse: "modes q t = Pushing x p k \<Longrightarrow> crowded q \<Longrightarrow> p = DropNewest \<or> maxEvictRetries \<le> k \<Longrightarrow>
    fifo_step [ReturnedPush t False] q (go_on t Out q)"
| blocked: "modes q t = Pushing x p k \<Longrightarrow> crowded q \<Longrightarrow> p \<noteq> DropNewest \<Longrightarrow> k < maxEvictRetries \<Longrightarrow>
    fifo_step [] q (go_on t (Blocked x p (k + 1)) q)"
| retry: "modes q t = Blocked x p k \<Longrightarrow> fifo_step [] q (go_on t (Pushing x p k) q)"
| evict: "modes q t = Blocked x p k \<Longrightarrow> ready q \<Longrightarrow>
    fifo_step [] q (go_on t (Evicting (removed q) x p k) (q\<lparr>queue := tl (queue q), removed := Suc (removed q)\<rparr>))"
| freed: "modes q t = Evicting i x p k \<Longrightarrow> fifo_step [] q (go_on t (Pushing x p k) q)"
| call_pop: "modes q t = Out \<Longrightarrow> fifo_step [CalledPop t] q (go_on t Popping q)"
| take: "modes q t = Popping \<Longrightarrow> ready q \<Longrightarrow>
    fifo_step [] q (go_on t (Popped (removed q) (hd (queue q))) (q\<lparr>queue := tl (queue q), removed := Suc (removed q)\<rparr>))"
| popped: "modes q t = Popped i y \<Longrightarrow> fifo_step [ReturnedPop t (Some y)] q (go_on t Out q)"
| nothing: "modes q t = Popping \<Longrightarrow> \<not> ready q \<Longrightarrow> fifo_step [ReturnedPop t None] q (go_on t Out q)"
| internal: "fifo_step [] q q"

section \<open>From the ring to the queue\<close>

fun mode_of :: "'a list \<Rightarrow> 'a pc \<Rightarrow> 'a mode" where
  "mode_of cl (PTail x p n) = Pushing x p n"
| "mode_of cl (PSeq x p n pos) = Pushing x p n"
| "mode_of cl (PCas x p n pos) = Pushing x p n"
| "mode_of cl (PWrite x pos) = Pushed (unat pos)"
| "mode_of cl (PPub pos) = Pushed (unat pos)"
| "mode_of cl (EHead x p n) = Blocked x p n"
| "mode_of cl (ESeq x p n hp) = Blocked x p n"
| "mode_of cl (ECas x p n hp) = Blocked x p n"
| "mode_of cl (ERecycle x p n hp) = Evicting (unat hp) x p n"
| "mode_of cl (ECount x p n) = Pushing x p n"
| "mode_of cl CHead = Popping"
| "mode_of cl (CSeq pos) = Popping"
| "mode_of cl (CCas pos) = Popping"
| "mode_of cl (CRead pos) = Popped (unat pos) (cl ! unat pos)"
| "mode_of cl (CRecycle pos x) = Popped (unat pos) x"
| "mode_of cl c = Out"

definition queue_of :: "'a sys \<Rightarrow> 'a bqueue" where
  "queue_of s = \<lparr>room = cap (ring s), removed = taken s, queue = drop (taken s) (claims s),
     modes = (\<lambda>t. mode_of (claims s) (threads s t))\<rparr>"

lemma queue_of_simps [simp]:
  "room (queue_of s) = cap (ring s)" "removed (queue_of s) = taken s"
  "queue (queue_of s) = drop (taken s) (claims s)" "modes (queue_of s) t = mode_of (claims s) (threads s t)"
  by (simp_all add: queue_of_def)

lemma mode_of_rest [simp]: "at_rest c \<Longrightarrow> mode_of cl c = Out"
  by (cases c) simp_all

lemma mode_of_Pushed [simp]: "mode_of cl c = Pushed i \<longleftrightarrow> writes c = Some i"
  by (cases c) auto

lemma occupies_mode_of [simp]: "occupies (mode_of cl c) = holds c"
  by (cases c) simp_all

text \<open>A later claim does not change what the other goroutines are doing.\<close>

lemma mode_of_claim: "knows r h cl c \<Longrightarrow> h \<le> length cl \<Longrightarrow> mode_of (cl @ [x]) c = mode_of cl c"
  by (cases c) (simp_all add: nth_append)

section \<open>One step of the ring is one step of the queue\<close>

lemma queue_of_thread:
  "taken s' = taken s \<Longrightarrow> claims s' = claims s \<Longrightarrow> cap (ring s') = cap (ring s) \<Longrightarrow> threads s' = (threads s)(t := c) \<Longrightarrow>
   queue_of s' = go_on t (mode_of (claims s) c) (queue_of s)"
  by (auto simp: queue_of_def go_on_def)

lemma crowded_queue_of:
  assumes "taken s \<le> length (claims s)"
  shows "crowded (queue_of s) \<longleftrightarrow> length (claims s) = taken s + cap (ring s) \<or>
    cap (ring s) \<le> length (claims s) \<and> (\<exists>u. holds (threads s u) = Some (length (claims s) - cap (ring s)))"
  using assms by (auto simp: crowded_def)

lemma ready_queue_of:
  "ready (queue_of s) \<longleftrightarrow> taken s < length (claims s) \<and> (\<forall>u. writes (threads s u) \<noteq> Some (taken s))"
  by (auto simp: ready_def)

lemma not_ready:
  assumes "conc_inv s" and "no_wrap s" and "visible s = []"
  shows "\<not> ready (queue_of s)"
  using visible_empty_why [OF assms] by (auto simp: ready_queue_of abs_queue_def)

lemma winner_ready:
  assumes inv: "conc_inv s" and w: "no_wrap s"
    and c: "threads s t = CCas pos \<or> (\<exists>x p n. threads s t = ECas x p n pos)" "head (ring s) = pos"
  shows "ready (queue_of s)"
proof -
  have "seq_at (ring s) (taken s) = of_nat (taken s) + 1"
    using inv_knows [OF inv refl, of t] inv_numbers(7) [OF inv w c(2)] c(1) by auto
  from head_slot_published [OF inv w this] show ?thesis by (simp add: ready_queue_of)
qed

lemma winner_room:
  assumes inv: "conc_inv s" and w: "no_wrap s" and c: "threads s t = PCas x p n pos" "tail (ring s) = pos"
  shows "\<not> crowded (queue_of s)"
proof -
  note k = inv_numbers [OF inv w]
  let ?l = "length (claims s)" and ?N = "cap (ring s)"
  have seq: "seq_at (ring s) ?l = of_nat ?l" using inv_knows [OF inv c(1)] k(8) [OF c(2)] by simp
  have "holds (threads s u) \<noteq> Some (?l - ?N)" if "?N \<le> ?l" for u
  proof
    assume "holds (threads s u) = Some (?l - ?N)"
    from recycled_slot(2) [OF inv w this seq] that show False by (simp add: le_mod_geq)
  qed
  with tail_slot_free [OF inv w seq] show ?thesis by (auto simp: crowded_queue_of [OF k(3)])
qed

lemma queue_of_claim:
  assumes inv: "conc_inv s" and w: "no_wrap s" and c: "threads s t = PCas x p n pos" "tail (ring s) = pos"
  shows "fifo_step [] (queue_of s) (queue_of (run_thread t s))"
proof -
  note k = inv_numbers [OF inv w]
  have "mode_of (claims s @ [x]) (threads s u) = mode_of (claims s) (threads s u)" for u
    by (rule mode_of_claim [OF inv_knows [OF inv refl] k(3)])
  then have "queue_of (run_thread t s) =
      go_on t (Pushed (removed (queue_of s) + length (queue (queue_of s)))) ((queue_of s)\<lparr>queue := queue (queue_of s) @ [x]\<rparr>)"
    using c k(3) k(8) [OF c(2)] by (auto simp: queue_of_def go_on_def run_thread_simps)
  with fifo_step.accept [of "queue_of s" t x p n] winner_room [OF inv w c] claim_step [OF inv w c] c
  show ?thesis by simp
qed

lemma queue_of_take:
  assumes "taken s' = Suc (taken s)" and "claims s' = claims s" and "cap (ring s') = cap (ring s)"
    and "threads s' = (threads s)(t := c)"
  shows "queue_of s' = go_on t (mode_of (claims s) c)
    ((queue_of s)\<lparr>queue := tl (queue (queue_of s)), removed := Suc (removed (queue_of s))\<rparr>)"
  using assms by (auto simp: queue_of_def go_on_def drop_Suc tl_drop)

lemma fifo_refused:
  assumes inv: "conc_inv s" and short: "short_run s" and th: "threads s t = PSeq x p n pos"
  shows "fifo_step (returns t (threads (run_thread t s) t)) (queue_of s) (queue_of (run_thread t s))"
proof -
  note w = short_run_no_wrap [OF short]
  let ?c = "snd (astep (ring s) (PSeq x p n pos))"
  have eq: "queue_of (run_thread t s) = go_on t (mode_of (claims s) ?c) (queue_of s)"
    by (rule queue_of_thread) (simp_all add: run_thread_simps th Let_def)
  have m: "modes (queue_of s) t = Pushing x p n" by (simp add: th)
  have same: "go_on t (Pushing x p n) (queue_of s) = queue_of s" using m by (simp add: go_on_def fun_upd_idem)
  show ?thesis
  proof (cases "seqs (ring s) ! idx (ring s) pos - pos \<noteq> 0 \<and> sint (seqs (ring s) ! idx (ring s) pos - pos) < 0")
    case True
    with push_refused [OF inv short th] have "crowded (queue_of s)"
      using crowded_queue_of [OF inv_numbers(3) [OF inv w]] by blast
    with True m show ?thesis
      unfolding eq using fifo_step.refuse [OF m] fifo_step.blocked [OF m] by (auto simp: run_thread_simps th Let_def)
  next
    case False
    then show ?thesis
      unfolding eq using same fifo_step.internal [of "queue_of s"] by (auto simp: run_thread_simps th Let_def)
  qed
qed

lemma fifo_emptied:
  assumes inv: "conc_inv s" and short: "short_run s" and th: "threads s t = CSeq pos"
  shows "fifo_step (returns t (threads (run_thread t s) t)) (queue_of s) (queue_of (run_thread t s))"
proof -
  note w = short_run_no_wrap [OF short]
  let ?c = "snd (astep (ring s) (CSeq pos))"
  have eq: "queue_of (run_thread t s) = go_on t (mode_of (claims s) ?c) (queue_of s)"
    by (rule queue_of_thread) (simp_all add: run_thread_simps th Let_def)
  have m: "modes (queue_of s) t = Popping" by (simp add: th)
  have same: "go_on t Popping (queue_of s) = queue_of s" using m by (simp add: go_on_def fun_upd_idem)
  show ?thesis
  proof (cases "?c = CRet None")
    case True
    with pop_empty_iff [OF inv short th] not_ready [OF inv w] have "\<not> ready (queue_of s)" by blast
    from fifo_step.nothing [OF m this] True show ?thesis unfolding eq by (simp add: run_thread_simps th)
  next
    case False
    then have "?c = CCas pos \<or> ?c = CHead" by (auto simp: Let_def split: if_splits)
    then show ?thesis
      unfolding eq using same fifo_step.internal [of "queue_of s"] by (auto simp: run_thread_simps th)
  qed
qed

lemma fifo_take:
  assumes inv: "conc_inv s" and w: "no_wrap s"
    and c: "threads s t = CCas pos \<or> threads s t = ECas x p n pos" "head (ring s) = pos"
  shows "fifo_step [] (queue_of s) (queue_of (run_thread t s))"
proof -
  note rd = winner_ready [OF inv w, of t pos]
  have pos: "unat pos = taken s" by (rule inv_numbers(7) [OF inv w c(2)])
  have eq: "queue_of (run_thread t s) = go_on t (mode_of (claims s) (snd (astep (ring s) (threads s t))))
      ((queue_of s)\<lparr>queue := tl (queue (queue_of s)), removed := Suc (removed (queue_of s))\<rparr>)"
    by (rule queue_of_take) (use c in \<open>auto simp: run_thread_simps\<close>)
  from c(1) show ?thesis
  proof
    assume th: "threads s t = CCas pos"
    then have "ready (queue_of s)" using rd c(2) by blast
    with fifo_step.take [of "queue_of s" t] th c(2) pos take_step [OF inv w, of t pos]
    show ?thesis unfolding eq by (simp add: hd_drop_conv_nth)
  next
    assume th: "threads s t = ECas x p n pos"
    then have "ready (queue_of s)" using rd c(2) by blast
    with fifo_step.evict [of "queue_of s" t x p n] th c(2) pos show ?thesis unfolding eq by simp
  qed
qed

lemma fifo_quiet:
  assumes "taken (run_thread t s) = taken s" and "claims (run_thread t s) = claims s"
    and "fifo_step es (queue_of s) (go_on t (mode_of (claims s) (snd (astep (ring s) (threads s t)))) (queue_of s))"
  shows "fifo_step es (queue_of s) (queue_of (run_thread t s))"
  using assms(3) queue_of_thread [OF assms(1,2) _ threads_run_thread] by simp

lemma fifo_stay:
  "mode_of (claims s) (threads s t) = m \<Longrightarrow> go_on t m (queue_of s) = queue_of s"
  by (simp add: go_on_def fun_upd_idem)

text \<open>A compare-and-swap that another goroutine has won sends the operation back to its start.\<close>

lemma fifo_lost:
  assumes "threads s t = PCas x p n pos \<and> tail (ring s) \<noteq> pos \<or> threads s t = CCas pos \<and> head (ring s) \<noteq> pos \<or>
    threads s t = ECas x p n pos \<and> head (ring s) \<noteq> pos"
  shows "fifo_step [] (queue_of s) (queue_of (run_thread t s))"
  using assms fifo_step.internal [of "queue_of s"] fifo_step.retry [of "queue_of s" t x p n]
  by (intro fifo_quiet) (auto simp: run_thread_simps fifo_stay)

lemma fifo_cas:
  assumes inv: "conc_inv s" and w: "no_wrap s"
    and th: "threads s t \<in> {PCas x p n pos, CCas pos, ECas x p n pos}"
  shows "fifo_step (returns t (threads (run_thread t s) t)) (queue_of s) (queue_of (run_thread t s))"
proof -
  have "returns t (threads (run_thread t s) t) = []" using th by (auto simp: run_thread_simps)
  moreover have "fifo_step [] (queue_of s) (queue_of (run_thread t s))"
    using th queue_of_claim [OF inv w, of t x p n pos] fifo_take [OF inv w, of t pos x p n] fifo_lost [of s t x p n pos] by blast
  ultimately show ?thesis by simp
qed

lemma fifo_run:
  assumes inv: "conc_inv s" and short: "short_run s" and "\<not> at_rest (threads s t)"
  shows "fifo_step (returns t (threads (run_thread t s) t)) (queue_of s) (queue_of (run_thread t s))"
proof -
  note w = short_run_no_wrap [OF short] and internal = fifo_step.internal [of "queue_of s"]
  have k: "knows (ring s) (taken s) (claims s) (threads s t)" by (rule inv_knows [OF inv refl])
  have data: "data (ring s) ! idx (ring s) pos = data_at (ring s) (unat pos)" for pos
    using inv_numbers(1) [OF inv w] by (simp add: data_at_def idx_unat)
  show ?thesis
  proof (cases "threads s t")
    case (PSeq x p n pos) then show ?thesis by (rule fifo_refused [OF inv short])
  next
    case (CSeq pos) then show ?thesis by (rule fifo_emptied [OF inv short])
  next
    case (PCas x p n pos) then show ?thesis by (intro fifo_cas [OF inv w, of t x p n pos]) simp
  next
    case (ECas x p n pos) then show ?thesis by (intro fifo_cas [OF inv w, of t x p n pos]) simp
  next
    case (CCas pos) then show ?thesis by (intro fifo_cas [OF inv w, of t _ _ _ pos]) simp
  next
    case (ESeq x p n pos)
    with internal show ?thesis
      by (intro fifo_quiet) (auto simp: run_thread_simps fifo_stay intro: fifo_step.retry)
  next
    case (CRead pos)
    with internal k show ?thesis by (intro fifo_quiet) (simp_all add: run_thread_simps fifo_stay data)
  next
    case (PPub pos)
    with fifo_step.accepted [of "queue_of s" t "unat pos"] show ?thesis by (intro fifo_quiet) (simp_all add: run_thread_simps)
  next
    case (ERecycle x p n pos)
    with fifo_step.freed [of "queue_of s" t "unat pos" x p n] show ?thesis by (intro fifo_quiet) (simp_all add: run_thread_simps)
  next
    case (CRecycle pos x)
    with fifo_step.popped [of "queue_of s" t "unat pos" x] show ?thesis by (intro fifo_quiet) (simp_all add: run_thread_simps)
  qed (use assms(3) internal in \<open>auto intro!: fifo_quiet simp: run_thread_simps fifo_stay\<close>)
qed

section \<open>Runs\<close>

lemma short_run_back: "sys_step s s' \<Longrightarrow> short_run s' \<Longrightarrow> short_run s"
proof (erule sys_stepE)
  fix t
  assume "s' = run_thread t s" and "short_run s'"
  then show ?thesis
    using claims_record_step [of s "threads s t"] by (simp add: short_run_def run_thread_simps)
qed (simp_all add: short_run_def)

interpretation ring_queue: trace_simulation perform observe short_run conc_inv queue_of fifo_step
proof
  fix a and s :: "'a sys"
  show "short_run s" if "short_run (perform a s)"
    using that perform_step [of a s] short_run_back by metis
  assume inv: "conc_inv s" and short: "short_run s"
  show "conc_inv (perform a s)"
    using perform_step [of a s] conc.good_step [OF inv short_run_no_wrap [OF short]] inv by metis
  note internal = fifo_step.internal [of "queue_of s"]
  have out: "modes (queue_of s) t = Out" if "at_rest (threads s t)" for t using that by simp
  show "fifo_step (observe a s) (queue_of s) (queue_of (perform a s))"
  proof (cases a)
    case (CallPush t x p)
    have "queue_of (s\<lparr>threads := (threads s)(t := PTail x p 0)\<rparr>) = go_on t (Pushing x p 0) (queue_of s)"
      using queue_of_thread [of _ s t "PTail x p 0"] by simp
    then show ?thesis using CallPush fifo_step.call_push [OF out] internal by simp
  next
    case (CallPop t)
    have "queue_of (s\<lparr>threads := (threads s)(t := CHead)\<rparr>) = go_on t Popping (queue_of s)"
      using queue_of_thread [of _ s t CHead] by simp
    then show ?thesis using CallPop fifo_step.call_pop [OF out] internal by simp
  next
    case (Run t)
    then show ?thesis using fifo_run [OF inv short, of t] internal by simp
  qed
qed

lemma queue_of_init: "queue_of (init_sys r) = empty_queue (cap r)"
  by (simp add: queue_of_def init_sys_def empty_queue_def)

section \<open>Properties\<close>

text \<open>
  C3: linearizability. For any number of goroutines, any interleaving of the atomic operations of
  \<^verbatim>\<open>push\<close>, \<^verbatim>\<open>evictOldest\<close> and \<^verbatim>\<open>pop\<close> and up to \<open>2 ^ 63\<close> minus the capacity accepted pushes,
  the sequence of calls and returns, with the items passed and the results given back, is one of a
  bounded first-in first-out queue: a push that returns true has appended its item in one step between
  its call and its return, when a slot was free; one that returns false has found the queue
  crowded, once under \<^verbatim>\<open>DropNewest\<close> and \<^verbatim>\<open>maxEvictRetries\<close> times before that otherwise; a push
  evicts only the oldest item, and only after finding the queue crowded; a pop that returns an item
  has removed it from the front in one step between its call and its return; and a pop returns
  nothing only while the oldest push in the queue has not returned, or there is none. The queue
  never holds more items than there are slots.
\<close>

theorem ring_refines_fifo:
  assumes "newRingbuf z sz = Ret r" and "sz \<noteq> 1" and "short_run (fold perform acts (init_sys r))"
  shows "traces fifo_step (shown perform observe acts (init_sys r)) (empty_queue (cap r))
      (queue_of (fold perform acts (init_sys r))) \<and>
    length (queue (queue_of (fold perform acts (init_sys r)))) \<le> cap r"
proof -
  note fresh = fresh_newRingbuf [OF assms(1,2)]
  have "length (fst (abs_queue (fold perform acts (init_sys r)))) \<le> cap r"
    by (rule reachable_queue_bound [OF schedule_reachable fresh short_run_no_wrap [OF assms(3)]])
  then show ?thesis
    using ring_queue.trace_inclusion [OF init_inv [OF fresh] assms(3)] by (simp add: abs_queue_def queue_of_init)
qed

text \<open>Two producers and a consumer, interleaved: the second push to be called is accepted first.\<close>

theorem ring_refines_fifo_witness:
  "traces fifo_step
     [CalledPush 0 7 DropNewest, CalledPush 1 5 DropNewest, ReturnedPush 1 True, CalledPop 2, ReturnedPop 2 (Some 5),
      ReturnedPush 0 True]
     (empty_queue 2) (queue_of (fold perform ([CallPush 0 7 DropNewest, CallPush 1 5 DropNewest] @ replicate 5 (Run 1) @
        CallPop 2 # replicate 5 (Run 2) @ replicate 5 (Run 0)) (init_sys ring2)))"
proof -
  define acts :: "nat action list" where "acts = [CallPush 0 7 DropNewest, CallPush 1 5 DropNewest] @ replicate 5 (Run 1) @
    CallPop 2 # replicate 5 (Run 2) @ replicate 5 (Run 0)"
  have "length (claims (fold perform acts (init_sys ring2))) = 2" unfolding acts_def by code_simp
  then have short: "short_run (fold perform acts (init_sys ring2))"
    using schedule_short [OF refl, of acts ring2] cap_ring2 by simp
  have "shown perform observe acts (init_sys ring2) =
    [CalledPush 0 7 DropNewest, CalledPush 1 5 DropNewest, ReturnedPush 1 True, CalledPop 2, ReturnedPop 2 (Some 5),
      ReturnedPush 0 True]" unfolding acts_def by code_simp
  with ring_refines_fifo [OF newRingbuf_ring2 _ short] cap_ring2 show ?thesis unfolding acts_def by simp
qed

end
