(* ===== verification/Shutdown.thy ===== *)
theory Shutdown
  imports Engine_Config Transition_System
begin

text \<open>
  The goroutines of a started engine (\<^verbatim>\<open>batcher.go\<close>) with time, from \<^verbatim>\<open>Start\<close> to the closing of its channel: the
  loop goroutine in \<^verbatim>\<open>runLoop\<close> and \<^verbatim>\<open>finalDrain\<close>, the \<^verbatim>\<open>drainAndFlush\<close> that it runs itself on a tick and
  on a goroutine of its own at the end, the \<^verbatim>\<open>Sink.Flush\<close> calls (on goroutines of their own when
  there is a flush timeout, which may outlive their drain), the contexts with their deadlines, the error callback, and
  the channel that \<^verbatim>\<open>Start\<close> returned. What a drain does to the engine is the subject of the other
  theories; here only the points where it waits, reports and ends count.
\<close>

section \<open>Goroutines\<close>

text \<open>The loop goroutine: in the \<^verbatim>\<open>select\<close> of \<^verbatim>\<open>runLoop\<close>, inside the \<^verbatim>\<open>drainAndFlush\<close> of a tick, in the
  \<^verbatim>\<open>select\<close> of \<^verbatim>\<open>finalDrain\<close>, inside \<^verbatim>\<open>reportError\<close>, returned from \<^verbatim>\<open>runLoop\<close> and about to close the
  channel of \<^verbatim>\<open>Start\<close>, gone.\<close>

datatype loop_pc = LLoop | LTick | LSelect | LReport | LClose | LGone

text \<open>The \<^verbatim>\<open>drainAndFlush\<close> that is running, on the loop goroutine or on that of \<^verbatim>\<open>finalDrain\<close>: none, before
  the flush, inside \<^verbatim>\<open>flushWithTimeout\<close>, inside \<^verbatim>\<open>reportError\<close>, returned; or the goroutine is gone.\<close>

datatype drain_pc = DIdle | DDrain | DFlush | DReport | DReturned | DGone

text \<open>The sink call: none, running with the deadline of its context if that has one, and returned with
  \<^verbatim>\<open>flushInFlight\<close> not cleared yet.\<close>

datatype sink_pc = SNone | SFlush "int option" | SSent

text \<open>\<open>began\<close> is the time at which \<^verbatim>\<open>finalDrain\<close> was entered, \<open>fctx\<close> the deadline of the context of the
  current flush and \<open>result\<close> what its sink has returned.\<close>

record shutdown =
  clock :: int
  ctxDone :: bool
  began :: "int option"
  looper :: loop_pc
  drainer :: drain_pc
  sinker :: sink_pc
  fctx :: "int option"
  result :: "error option option"
  chClosed :: bool
  doneClosed :: bool
  overdue :: bool      \<comment> \<open>history: the shutdown error has been given to reportError\<close>

definition running :: "int \<Rightarrow> shutdown" where
  "running now = \<lparr>clock = now, ctxDone = False, began = None, looper = LLoop, drainer = DIdle, sinker = SNone,
     fctx = None, result = None, chClosed = False, doneClosed = False, overdue = False\<rparr>"

text \<open>The deadline of \<^verbatim>\<open>base\<close> (a tick uses the background context), and that of \<^verbatim>\<open>fctx\<close> when it is derived now.
  Without a shutdown timeout the last drain runs on the loop goroutine itself, which then goes on only
  when the drain has ended.\<close>

definition base_deadline :: "'s Config \<Rightarrow> shutdown \<Rightarrow> int option" where
  "base_deadline c s =
     (case began s of None \<Rightarrow> None | Some t \<Rightarrow> if ShutdownTimeout c \<le> 0 then None else Some (t + ShutdownTimeout c))"

definition flush_deadline :: "'s Config \<Rightarrow> shutdown \<Rightarrow> int option" where
  "flush_deadline c s =
     (if FlushTimeout c = 0 then base_deadline c s
      else case base_deadline c s of
          None \<Rightarrow> Some (clock s + FlushTimeout c)
        | Some d \<Rightarrow> Some (min d (clock s + FlushTimeout c)))"

datatype shutdown_action =
    Pass int                     \<comment> \<open>time passes\<close>
  | CancelCtx                    \<comment> \<open>the context given to Start is canceled\<close>
  | TakeTick                     \<comment> \<open>runLoop's select takes a tick\<close>
  | TickReturns                  \<comment> \<open>back in runLoop's select\<close>
  | TakeCtxDone                  \<comment> \<open>runLoop's select takes ctx.Done(), and finalDrain starts\<close>
  | NothingToSend                \<comment> \<open>an early return of drainAndFlush\<close>
  | CompressError
  | EnterFlush                   \<comment> \<open>flushWithTimeout: refused while a flush is in flight\<close>
  | SinkReturns "error option"
  | ClearFlag                    \<comment> \<open>flushInFlight.Store(false)\<close>
  | TakeResult
  | TakeFlushDeadline
  | DrainReported                \<comment> \<open>reportError, with its callback, returns\<close>
  | CloseCh
  | TakeCh
  | TakeBaseDeadline
  | LoopReported                 \<comment> \<open>reportError, with its callback, returns\<close>
  | CloseDone

fun shutdown_act :: "'s Config \<Rightarrow> shutdown_action \<Rightarrow> shutdown \<Rightarrow> shutdown option" where
  "shutdown_act c (Pass d) s = (if 0 < d then Some (s\<lparr>clock := clock s + d\<rparr>) else None)"
| "shutdown_act c CancelCtx s = Some (s\<lparr>ctxDone := True\<rparr>)"
| "shutdown_act c TakeTick s = (if looper s = LLoop then Some (s\<lparr>looper := LTick, drainer := DDrain\<rparr>) else None)"
| "shutdown_act c TickReturns s =
     (if looper s = LTick \<and> drainer s = DReturned then Some (s\<lparr>looper := LLoop, drainer := DIdle\<rparr>) else None)"
| "shutdown_act c TakeCtxDone s =
     (if looper s = LLoop \<and> ctxDone s
      then Some (s\<lparr>began := Some (clock s), looper := LSelect, drainer := DDrain\<rparr>) else None)"
| "shutdown_act c NothingToSend s = (if drainer s = DDrain then Some (s\<lparr>drainer := DReturned\<rparr>) else None)"
| "shutdown_act c CompressError s = (if drainer s = DDrain then Some (s\<lparr>drainer := DReport\<rparr>) else None)"
| "shutdown_act c EnterFlush s =
     (if drainer s = DDrain
      then if sinker s \<noteq> SNone then Some (s\<lparr>drainer := DReport\<rparr>)
           else Some (s\<lparr>drainer := DFlush, sinker := SFlush (flush_deadline c s), fctx := flush_deadline c s, result := None\<rparr>)
      else None)"
| "shutdown_act c (SinkReturns e) s =
     (case sinker s of
        SFlush dl \<Rightarrow> Some (s\<lparr>sinker := if FlushTimeout c = 0 then SNone else SSent, result := Some e\<rparr>)
      | _ \<Rightarrow> None)"
| "shutdown_act c ClearFlag s = (if sinker s = SSent then Some (s\<lparr>sinker := SNone\<rparr>) else None)"
| "shutdown_act c TakeResult s =
     (case result s of
        Some e \<Rightarrow> if drainer s = DFlush then Some (s\<lparr>drainer := if e = None then DReturned else DReport\<rparr>) else None
      | None \<Rightarrow> None)"
| "shutdown_act c TakeFlushDeadline s =
     (case fctx s of
        Some dl \<Rightarrow>
          if drainer s = DFlush \<and> FlushTimeout c \<noteq> 0 \<and> dl \<le> clock s then Some (s\<lparr>drainer := DReport\<rparr>) else None
      | None \<Rightarrow> None)"
| "shutdown_act c DrainReported s = (if drainer s = DReport then Some (s\<lparr>drainer := DReturned\<rparr>) else None)"
| "shutdown_act c CloseCh s =
     (if looper s \<noteq> LTick \<and> drainer s = DReturned then Some (s\<lparr>drainer := DGone, chClosed := True\<rparr>) else None)"
| "shutdown_act c TakeCh s = (if looper s = LSelect \<and> chClosed s then Some (s\<lparr>looper := LClose\<rparr>) else None)"
| "shutdown_act c TakeBaseDeadline s =
     (case base_deadline c s of
        None \<Rightarrow> None
      | Some d \<Rightarrow> if looper s = LSelect \<and> d \<le> clock s then Some (s\<lparr>looper := LReport, overdue := True\<rparr>) else None)"
| "shutdown_act c LoopReported s = (if looper s = LReport then Some (s\<lparr>looper := LClose\<rparr>) else None)"
| "shutdown_act c CloseDone s = (if looper s = LClose then Some (s\<lparr>looper := LGone, doneClosed := True\<rparr>) else None)"

inductive shutdown_step :: "'s Config \<Rightarrow> shutdown \<Rightarrow> shutdown \<Rightarrow> bool" for c where
  act: "shutdown_act c a s = Some s' \<Longrightarrow> shutdown_step c s s'"

inductive_cases shutdown_stepE: "shutdown_step c s s'"

fun run_shutdown :: "'s Config \<Rightarrow> shutdown_action list \<Rightarrow> shutdown \<Rightarrow> shutdown option" where
  "run_shutdown c [] s = Some s"
| "run_shutdown c (a # as) s = Option.bind (shutdown_act c a s) (run_shutdown c as)"

lemma run_shutdown_steps: "run_shutdown c as s = Some s' \<Longrightarrow> (shutdown_step c)\<^sup>*\<^sup>* s s'"
  by (induction as arbitrary: s) (auto simp: bind_eq_Some_conv intro: converse_rtranclp_into_rtranclp shutdown_step.act)

section \<open>The invariant\<close>

text \<open>Which drain goes with which place of the loop goroutine.\<close>

fun places :: "loop_pc \<Rightarrow> drain_pc \<Rightarrow> bool" where
  "places LLoop d = (d = DIdle)"
| "places LTick d = (d \<noteq> DIdle \<and> d \<noteq> DGone)"
| "places LSelect d = (d \<noteq> DIdle)"
| "places LReport d = (d \<noteq> DIdle)"
| "places LClose d = (d \<noteq> DIdle)"
| "places LGone d = (d \<noteq> DIdle)"

definition loop_ok :: "'s Config \<Rightarrow> shutdown \<Rightarrow> bool" where
  "loop_ok c s \<longleftrightarrow> (chClosed s \<longleftrightarrow> drainer s = DGone) \<and> (doneClosed s \<longleftrightarrow> looper s = LGone) \<and>
     (began s = None \<longleftrightarrow> looper s \<in> {LLoop, LTick}) \<and> places (looper s) (drainer s) \<and>
     (began s \<noteq> None \<longrightarrow> ctxDone s) \<and> (looper s \<in> {LReport, LClose, LGone} \<longrightarrow> overdue s \<or> chClosed s) \<and>
     (overdue s \<longrightarrow> (\<exists>d. base_deadline c s = Some d \<and> d \<le> clock s))"

definition sink_ok :: "'s Config \<Rightarrow> shutdown \<Rightarrow> bool" where
  "sink_ok c s \<longleftrightarrow> (sinker s = SSent \<longrightarrow> FlushTimeout c \<noteq> 0) \<and>
     (drainer s = DFlush \<and> FlushTimeout c \<noteq> 0 \<longrightarrow> fctx s \<noteq> None) \<and>
     (\<forall>dl. sinker s = SFlush dl \<longrightarrow> (drainer s = DFlush \<longrightarrow> fctx s = dl) \<and>
        (drainer s \<noteq> DFlush \<longrightarrow> FlushTimeout c \<noteq> 0 \<and> (\<exists>x \<le> clock s. dl = Some x)) \<and>
        (drainer s = DFlush \<longrightarrow> result s = None) \<and>
        (\<forall>d. base_deadline c s = Some d \<longrightarrow> (\<exists>x \<le> d. dl = Some x)))"

lemma base_deadline_simps [simp]:
  "base_deadline c (s\<lparr>clock := t\<rparr>) = base_deadline c s" "base_deadline c (s\<lparr>looper := l\<rparr>) = base_deadline c s"
  "base_deadline c (s\<lparr>drainer := d\<rparr>) = base_deadline c s" "base_deadline c (s\<lparr>sinker := k\<rparr>) = base_deadline c s"
  "base_deadline c (s\<lparr>chClosed := b\<rparr>) = base_deadline c s" "base_deadline c (s\<lparr>doneClosed := b\<rparr>) = base_deadline c s"
  "base_deadline c (s\<lparr>overdue := b\<rparr>) = base_deadline c s" "base_deadline c (s\<lparr>ctxDone := b\<rparr>) = base_deadline c s"
  "base_deadline c (s\<lparr>fctx := f\<rparr>) = base_deadline c s" "base_deadline c (s\<lparr>result := r\<rparr>) = base_deadline c s"
  by (simp_all add: base_deadline_def)

lemma flush_deadline_bounds:
  "base_deadline c s = Some d \<Longrightarrow> \<exists>x \<le> d. flush_deadline c s = Some x" "FlushTimeout c \<noteq> 0 \<Longrightarrow> flush_deadline c s \<noteq> None"
  by (auto simp: flush_deadline_def split: option.split)

lemma base_deadline_began: "base_deadline c s = Some d \<longleftrightarrow> (\<exists>t. began s = Some t \<and> 0 < ShutdownTimeout c \<and> d = t + ShutdownTimeout c)"
  by (auto simp: base_deadline_def split: option.split)

text \<open>The conjuncts of \<open>loop_ok\<close>, one at a time.\<close>

lemmas act_splits = if_splits option.splits sink_pc.splits

lemma places_act: "places (looper s) (drainer s) \<Longrightarrow> shutdown_act c a s = Some s' \<Longrightarrow> places (looper s') (drainer s')"
  by (cases a; cases "looper s"; simp split: act_splits; fastforce)

lemma closed_act:
  assumes "shutdown_act c a s = Some s'"
  shows "(chClosed s \<longleftrightarrow> drainer s = DGone) \<Longrightarrow> places (looper s) (drainer s) \<Longrightarrow> (chClosed s' \<longleftrightarrow> drainer s' = DGone)"
    and "(doneClosed s \<longleftrightarrow> looper s = LGone) \<Longrightarrow> (doneClosed s' \<longleftrightarrow> looper s' = LGone)"
  using assms by (cases a; fastforce split: act_splits)+

lemma began_act:
  assumes "shutdown_act c a s = Some s'"
  shows "(began s = None \<longleftrightarrow> looper s \<in> {LLoop, LTick}) \<Longrightarrow> (began s' = None \<longleftrightarrow> looper s' \<in> {LLoop, LTick})"
    and "(began s \<noteq> None \<longrightarrow> ctxDone s) \<Longrightarrow> (began s' \<noteq> None \<longrightarrow> ctxDone s')"
  using assms by (cases a; fastforce split: act_splits)+

lemma leaving_act:
  "shutdown_act c a s = Some s' \<Longrightarrow> looper s \<in> {LReport, LClose, LGone} \<longrightarrow> overdue s \<or> chClosed s \<Longrightarrow>
   looper s' \<in> {LReport, LClose, LGone} \<longrightarrow> overdue s' \<or> chClosed s'"
  by (cases a; fastforce split: act_splits)

lemma overdue_act:
  assumes "shutdown_act c a s = Some s'" and "overdue s \<longrightarrow> (\<exists>d. base_deadline c s = Some d \<and> d \<le> clock s)"
    and "began s = None \<longleftrightarrow> looper s \<in> {LLoop, LTick}"
  shows "overdue s' \<longrightarrow> (\<exists>d. base_deadline c s' = Some d \<and> d \<le> clock s')"
proof (cases a)
  case TakeCtxDone
  with assms have "\<not> overdue s" by (auto simp: base_deadline_def split: if_splits)
  with TakeCtxDone assms(1) show ?thesis by (auto split: if_splits)
qed (use assms(1,2) in \<open>auto split: act_splits\<close>)

lemma loop_ok_act: "loop_ok c s \<Longrightarrow> shutdown_act c a s = Some s' \<Longrightarrow> loop_ok c s'"
  unfolding loop_ok_def by (intro conjI; elim conjE; rule places_act closed_act began_act leaving_act overdue_act; assumption)

lemma sink_ok_act:
  assumes ok: "sink_ok c s" "loop_ok c s" and a: "shutdown_act c a s = Some s'"
  shows "sink_ok c s'"
proof (cases a)
  case TakeTick
  with ok(2) a have "drainer s = DIdle" "s' = s\<lparr>looper := LTick, drainer := DDrain\<rparr>"
    by (auto simp: loop_ok_def split: if_splits)
  with ok(1) show ?thesis by (simp add: sink_ok_def)
next
  case TakeCtxDone
  with ok(2) a have s': "drainer s = DIdle" "s' = s\<lparr>began := Some (clock s), looper := LSelect, drainer := DDrain\<rparr>"
    by (auto simp: loop_ok_def split: if_splits)
  have "\<exists>x \<le> d. dl = Some x" if "sinker s = SFlush dl" "base_deadline c s' = Some d" for dl d
  proof -
    have "\<exists>x \<le> clock s. dl = Some x" using ok(1) s'(1) that(1) by (simp add: sink_ok_def)
    then obtain x where "x \<le> clock s" "dl = Some x" by blast
    moreover have "clock s \<le> d" using that(2) s'(2) by (auto simp: base_deadline_began)
    ultimately show ?thesis by (intro exI [of _ x]) simp
  qed
  with ok(1) s' show ?thesis by (simp add: sink_ok_def)
next
  case EnterFlush
  with ok a flush_deadline_bounds [of c s] show ?thesis by (auto simp: sink_ok_def split: if_splits)
qed (use ok(1) a in \<open>auto simp: sink_ok_def split: act_splits\<close>)

definition shutdown_inv :: "'s Config \<Rightarrow> shutdown \<Rightarrow> bool" where
  "shutdown_inv c s \<longleftrightarrow> loop_ok c s \<and> sink_ok c s"

interpretation shut: guarded_invariant "shutdown_step c" "\<lambda>_. True" "shutdown_inv c"
  by unfold_locales (auto elim!: shutdown_stepE simp: shutdown_inv_def intro: loop_ok_act sink_ok_act)

lemma running_inv: "shutdown_inv c (running now)"
  by (simp add: shutdown_inv_def loop_ok_def sink_ok_def running_def)

lemma reached:
  assumes "(shutdown_step c)\<^sup>*\<^sup>* (running t0) s"
  shows "loop_ok c s" and "sink_ok c s"
  using shut.good_steps [OF assms running_inv TrueI] by (simp_all add: shutdown_inv_def)

text \<open>What the loop goroutine still has to do once the deadline has passed.\<close>

fun loop_rest :: "loop_pc \<Rightarrow> shutdown_action list" where
  "loop_rest LSelect = [TakeBaseDeadline, LoopReported, CloseDone]"
| "loop_rest LReport = [LoopReported, CloseDone]"
| "loop_rest LClose = [CloseDone]"
| "loop_rest l = []"

lemma loop_finishes:
  assumes "loop_ok c s" and "base_deadline c s = Some d" and "d \<le> clock s"
  shows "\<exists>s'. run_shutdown c (loop_rest (looper s)) s = Some s' \<and> doneClosed s'"
  using assms by (cases "looper s") (auto simp: loop_ok_def, auto simp: base_deadline_began)

section \<open>Properties\<close>

text \<open>
  C11: what \<^verbatim>\<open>ShutdownTimeout\<close> promises, for any sink, also one that never returns, and any interleaving of ticks,
  flushes, abandoned flushes and the cancellation. The time counts from the entry of \<^verbatim>\<open>finalDrain\<close>
  at \<open>t\<close>, which comes after the cancellation and after the drain of a tick that was running then. Once the
  timeout has passed, the loop goroutine needs at most three steps to close the channel of
  \<^verbatim>\<open>Start\<close>, whatever the drain and the sink are doing: the \<^verbatim>\<open>select\<close>, the return of \<^verbatim>\<open>reportError\<close> (which
  waits for an \<^verbatim>\<open>OnFlushError\<close> callback) and the close. The shutdown error is reported only after the
  timeout. If it has not been reported when the channel is closed, then the drain has ended, and
  so has its sink call, or it was given up at its flush timeout. From the entry on, no sink call runs with a
  deadline behind that of the shutdown.
\<close>

theorem shutdown_deadline:
  assumes "(shutdown_step c)\<^sup>*\<^sup>* (running t0) s"
  shows "(\<forall>t. began s = Some t \<and> 0 < ShutdownTimeout c \<and> t + ShutdownTimeout c \<le> clock s \<longrightarrow>
      (\<exists>as s'. length as \<le> 3 \<and> set as \<subseteq> {TakeBaseDeadline, LoopReported, CloseDone} \<and>
         run_shutdown c as s = Some s' \<and> doneClosed s')) \<and>
    (overdue s \<longrightarrow> (\<exists>t. began s = Some t \<and> 0 < ShutdownTimeout c \<and> t + ShutdownTimeout c \<le> clock s)) \<and>
    (doneClosed s \<longrightarrow> ctxDone s \<and> began s \<noteq> None) \<and>
    (doneClosed s \<and> \<not> overdue s \<longrightarrow> drainer s = DGone \<and>
      (\<forall>dl. sinker s = SFlush dl \<longrightarrow> FlushTimeout c \<noteq> 0 \<and> (\<exists>x \<le> clock s. dl = Some x))) \<and>
    (\<forall>t dl. began s = Some t \<and> 0 < ShutdownTimeout c \<and> sinker s = SFlush dl \<longrightarrow>
      (\<exists>x \<le> t + ShutdownTimeout c. dl = Some x))"
proof -
  note inv = reached [OF assms]
  have "\<exists>as s'. length as \<le> 3 \<and> set as \<subseteq> {TakeBaseDeadline, LoopReported, CloseDone} \<and> run_shutdown c as s = Some s' \<and> doneClosed s'"
    if "began s = Some t" "0 < ShutdownTimeout c" "t + ShutdownTimeout c \<le> clock s" for t
  proof -
    have "length (loop_rest (looper s)) \<le> 3 \<and> set (loop_rest (looper s)) \<subseteq> {TakeBaseDeadline, LoopReported, CloseDone}"
      by (cases "looper s") simp_all
    moreover have "base_deadline c s = Some (t + ShutdownTimeout c)" using that by (simp add: base_deadline_began)
    ultimately show ?thesis using loop_finishes [OF inv(1)] that(3) by blast
  qed
  moreover have "overdue s \<longrightarrow> (\<exists>t. began s = Some t \<and> 0 < ShutdownTimeout c \<and> t + ShutdownTimeout c \<le> clock s)"
    using inv(1) by (auto simp: loop_ok_def base_deadline_began)
  moreover have "doneClosed s \<longrightarrow> ctxDone s \<and> began s \<noteq> None" using inv(1) by (auto simp: loop_ok_def)
  moreover have "doneClosed s \<and> \<not> overdue s \<longrightarrow> drainer s = DGone \<and>
      (\<forall>dl. sinker s = SFlush dl \<longrightarrow> FlushTimeout c \<noteq> 0 \<and> (\<exists>x \<le> clock s. dl = Some x))"
    using inv(1,2) by (auto simp: loop_ok_def sink_ok_def)
  moreover have "\<exists>x \<le> t + ShutdownTimeout c. dl = Some x"
    if "began s = Some t" "0 < ShutdownTimeout c" "sinker s = SFlush dl" for t dl
    using inv(2) that base_deadline_began [of c s "t + ShutdownTimeout c"] by (simp add: sink_ok_def)
  ultimately show ?thesis by blast
qed

text \<open>A sink that never returns, a flush timeout of 3 and a shutdown timeout of 5; the cancellation
  comes in the middle of a tick's flush, which is given up first.\<close>

definition stuck_shutdown :: "shutdown_action list" where
  "stuck_shutdown = [TakeTick, EnterFlush, Pass 2, CancelCtx, Pass 1, TakeFlushDeadline, DrainReported, TickReturns,
     TakeCtxDone, EnterFlush, Pass 5]"

theorem shutdown_deadline_witness:
  "let c = small_config\<lparr>ShutdownTimeout := 5, FlushTimeout := 3\<rparr> in
   \<exists>s as s'. run_shutdown c stuck_shutdown (running 0) = Some s \<and> sinker s = SFlush (Some 3) \<and> clock s = 8 \<and> began s = Some 3 \<and>
     length as \<le> 3 \<and> run_shutdown c as s = Some s' \<and> doneClosed s'"
proof -
  let ?c = "small_config\<lparr>ShutdownTimeout := 5, FlushTimeout := 3\<rparr>"
  obtain s where s: "run_shutdown ?c stuck_shutdown (running 0) = Some s" "sinker s = SFlush (Some 3)" "clock s = 8" "began s = Some 3"
    by (simp add: stuck_shutdown_def running_def flush_deadline_def base_deadline_def small_config_def)
  have "0 < ShutdownTimeout ?c" "3 + ShutdownTimeout ?c \<le> clock s" using s(3) by (simp_all add: small_config_def)
  with shutdown_deadline [OF run_shutdown_steps [OF s(1)]] s show ?thesis unfolding Let_def by blast
qed

text \<open>
  What the timeout does not cover. A tick's \<^verbatim>\<open>drainAndFlush\<close> runs on the loop goroutine with the background context:
  while its \<^verbatim>\<open>Sink.Flush\<close> does not return and there is no flush timeout, \<^verbatim>\<open>finalDrain\<close> is not entered
  and the channel of \<^verbatim>\<open>Start\<close> stays open, whatever \<^verbatim>\<open>ShutdownTimeout\<close> is. The same holds while an
  \<^verbatim>\<open>OnFlushError\<close> callback that the loop goroutine waits for does not return.
\<close>

definition in_tick :: "shutdown \<Rightarrow> bool" where
  "in_tick s \<longleftrightarrow> looper s = LTick \<and> drainer s = DFlush \<and> (\<exists>dl. sinker s = SFlush dl) \<and> result s = None \<and>
     began s = None \<and> \<not> doneClosed s"

lemma tick_holds_up:
  assumes "FlushTimeout c = 0"
  shows "in_tick s \<Longrightarrow> run_shutdown c as s = Some s' \<Longrightarrow> \<forall>e. SinkReturns e \<notin> set as \<Longrightarrow> in_tick s'"
proof (induction as arbitrary: s)
  case (Cons a as)
  then obtain s1 where s1: "shutdown_act c a s = Some s1" "run_shutdown c as s1 = Some s'"
    by (auto simp: bind_eq_Some_conv)
  have "in_tick s1" using s1(1) Cons.prems(1,3) assms by (cases a) (auto simp: in_tick_def split: act_splits)
  with Cons.IH s1(2) Cons.prems(3) show ?case by simp
qed simp

lemma callback_holds_up:
  "looper s = LReport \<Longrightarrow> \<not> doneClosed s \<Longrightarrow> run_shutdown c as s = Some s' \<Longrightarrow> LoopReported \<notin> set as \<Longrightarrow>
   looper s' = LReport \<and> \<not> doneClosed s'"
proof (induction as arbitrary: s)
  case (Cons a as)
  then obtain s1 where s1: "shutdown_act c a s = Some s1" "run_shutdown c as s1 = Some s'"
    by (auto simp: bind_eq_Some_conv)
  have "looper s1 = LReport \<and> \<not> doneClosed s1" using s1(1) Cons.prems(1,2,4) by (cases a) (auto split: act_splits)
  with Cons.IH [of s1] s1(2) Cons.prems(4) show ?case by simp
qed simp

lemma in_tick_reached:
  "\<exists>s. (shutdown_step c)\<^sup>*\<^sup>* (running t0) s \<and> ctxDone s \<and> in_tick s"
proof -
  have "\<exists>s. run_shutdown c [TakeTick, EnterFlush, CancelCtx] (running t0) = Some s \<and> ctxDone s \<and> in_tick s"
    by (simp add: running_def in_tick_def)
  then show ?thesis by (blast dest: run_shutdown_steps)
qed

text \<open>
  At the deadline the two goroutines race. With a sink that observes its deadline (it has not passed
  it), the loop goroutine may close the channel of \<^verbatim>\<open>Start\<close> while \<^verbatim>\<open>Sink.Flush\<close> is still running; and both
  goroutines may be inside \<^verbatim>\<open>reportError\<close>, and so inside \<^verbatim>\<open>OnFlushError\<close>, at the same time.
\<close>

lemma shutdown_races:
  fixes c :: "'s Config"
  assumes "0 < ShutdownTimeout c" and "FlushTimeout c = 0"
  shows "\<exists>s. (shutdown_step c)\<^sup>*\<^sup>* (running t0) s \<and> doneClosed s \<and> sinker s = SFlush (Some (clock s))"
    and "\<exists>s. (shutdown_step c)\<^sup>*\<^sup>* (running t0) s \<and> looper s = LReport \<and> drainer s = DReport"
proof -
  let ?d = "ShutdownTimeout c" and ?e = "Some ErrFlushTimeout" and ?start = "[CancelCtx, TakeCtxDone, EnterFlush]"
  have "\<exists>s. run_shutdown c (?start @ [Pass ?d, TakeBaseDeadline, LoopReported, CloseDone]) (running t0) = Some s \<and>
      doneClosed s \<and> sinker s = SFlush (Some (clock s))"
    using assms by (simp add: running_def flush_deadline_def base_deadline_def)
  then show "\<exists>s. (shutdown_step c)\<^sup>*\<^sup>* (running t0) s \<and> doneClosed s \<and> sinker s = SFlush (Some (clock s))"
    by (blast dest: run_shutdown_steps)
  have "\<exists>s. run_shutdown c (?start @ [Pass ?d, TakeBaseDeadline, SinkReturns ?e, TakeResult]) (running t0) = Some s \<and>
      looper s = LReport \<and> drainer s = DReport"
    using assms by (simp add: running_def flush_deadline_def base_deadline_def)
  then show "\<exists>s. (shutdown_step c)\<^sup>*\<^sup>* (running t0) s \<and> looper s = LReport \<and> drainer s = DReport"
    by (blast dest: run_shutdown_steps)
qed

end
