(* ===== verification/Crc32.thy ===== *)
theory Crc32
  imports Go_Prelude
begin

unbundle bit_operations_syntax

text \<open>
  CRC-32/IEEE as \<^verbatim>\<open>hash/crc32.ChecksumIEEE\<close> of the Go standard library computes it: the
  reflected polynomial \<open>0xEDB88320\<close>, initial value and final XOR all ones. The byte step
  is the bit-by-bit form of the table lookup. The lemmas show that the checksum is affine
  over XOR, which is what the XOR delta encoding of the wire format meets.
\<close>

section \<open>The checksum\<close>

definition crc32_bit :: "u32 \<Rightarrow> u32" where
  "crc32_bit c = (if bit c 0 then drop_bit 1 c XOR 0xEDB88320 else drop_bit 1 c)"

definition crc32_byte :: "u32 \<Rightarrow> byte \<Rightarrow> u32" where
  "crc32_byte c b = (crc32_bit ^^ 8) (c XOR ucast b)"

definition crc32_update :: "u32 \<Rightarrow> bytes \<Rightarrow> u32" where
  "crc32_update c bs = foldl crc32_byte c bs"

definition ChecksumIEEE :: "bytes \<Rightarrow> u32" where
  "ChecksumIEEE bs = NOT (crc32_update (NOT 0) bs)"

text \<open>Byte-wise XOR of two byte strings (the shorter length wins).\<close>

definition xor_list :: "bytes \<Rightarrow> bytes \<Rightarrow> bytes" where
  "xor_list a b = map2 (XOR) a b"

section \<open>Lemmas\<close>

lemma length_xor_list [simp]: "length (xor_list a b) = min (length a) (length b)"
  by (simp add: xor_list_def)

lemma nth_xor_list [simp]:
  "i < length a \<Longrightarrow> i < length b \<Longrightarrow> xor_list a b ! i = a ! i XOR b ! i"
  by (simp add: xor_list_def)

lemma xor_list_Nil [simp]: "xor_list [] b = []" and xor_list_Nil2 [simp]: "xor_list a [] = []"
  by (simp_all add: xor_list_def)

lemma xor_list_Cons [simp]: "xor_list (x # a) (y # b) = (x XOR y) # xor_list a b"
  by (simp add: xor_list_def)

lemma take_xor_list: "take n (xor_list a b) = xor_list (take n a) (take n b)"
  by (simp add: xor_list_def take_map take_zip)

lemma drop_xor_list: "drop n (xor_list a b) = xor_list (drop n a) (drop n b)"
  by (simp add: xor_list_def drop_map drop_zip)

lemma xor_list_cancel: "length a \<le> length b \<Longrightarrow> xor_list (xor_list a b) b = a"
  by (rule nth_equalityI) auto

lemma xor_list_zero [simp]: "length a \<le> n \<Longrightarrow> xor_list a (replicate n 0) = a"
  by (rule nth_equalityI) auto

lemma crc32_bit_xor: "crc32_bit (a XOR b) = crc32_bit a XOR crc32_bit b"
  by (rule bit_word_eqI) (auto simp: crc32_bit_def bit_simps)

lemma crc32_bit_funpow_xor:
  "(crc32_bit ^^ n) (a XOR b) = (crc32_bit ^^ n) a XOR (crc32_bit ^^ n) b"
  by (induction n) (simp_all add: crc32_bit_xor)

lemma crc32_byte_xor:
  "crc32_byte (a XOR b) (x XOR y) = crc32_byte a x XOR crc32_byte b y"
proof -
  have "(a XOR b) XOR ucast (x XOR y) = (a XOR ucast x) XOR (b XOR ucast y :: u32)"
    by (rule bit_word_eqI) (auto simp: bit_simps)
  then show ?thesis
    by (simp only: crc32_byte_def crc32_bit_funpow_xor)
qed

lemma crc32_update_xor:
  "length xs = length ys \<Longrightarrow>
   crc32_update (a XOR b) (xor_list xs ys) = crc32_update a xs XOR crc32_update b ys"
  by (induction xs ys arbitrary: a b rule: list_induct2)
     (simp_all add: crc32_update_def crc32_byte_xor)

text \<open>The checksum of a XOR of two equally long strings: affine, with the checksum of the
  all-zero string of that length as the constant.\<close>

lemma ChecksumIEEE_xor:
  assumes "length xs = length ys"
  shows "ChecksumIEEE (xor_list xs ys) =
    ChecksumIEEE xs XOR ChecksumIEEE ys XOR ChecksumIEEE (replicate (length xs) 0)"
proof -
  let ?z = "replicate (length xs) (0::byte)" and ?m = "NOT 0 :: u32"
  have z: "xor_list (xor_list xs ys) ?z = xor_list xs ys"
    by (rule xor_list_zero) simp
  have "crc32_update ((?m XOR ?m) XOR ?m) (xor_list (xor_list xs ys) ?z)
    = (crc32_update ?m xs XOR crc32_update ?m ys) XOR crc32_update ?m ?z"
    using assms by (simp only: crc32_update_xor length_xor_list length_replicate min.idem)
  then have "crc32_update ?m (xor_list xs ys)
    = (crc32_update ?m xs XOR crc32_update ?m ys) XOR crc32_update ?m ?z"
    by (simp add: z)
  then show ?thesis
    unfolding ChecksumIEEE_def by (intro bit_word_eqI) (auto simp: bit_simps)
qed

text \<open>Evaluation on concrete bytes.\<close>

lemma funpow_8: "(f ^^ 8) x = f (f (f (f (f (f (f (f x)))))))"
  by (simp add: numeral_eq_Suc)

lemma ChecksumIEEE_ones: "ChecksumIEEE bs = NOT (foldl crc32_byte 0xFFFFFFFF bs)"
proof -
  have "NOT 0 = (0xFFFFFFFF :: u32)" by (simp add: word_eq_iff_unsigned unsigned_not_eq)
  then show ?thesis by (simp only: ChecksumIEEE_def crc32_update_def)
qed

lemmas crc_eval = ChecksumIEEE_ones crc32_byte_def funpow_8 crc32_bit_def

end
