(* ===== verification/Codec.thy ===== *)
theory Codec
  imports Crc32
begin

unbundle bit_operations_syntax

text \<open>
  \<^verbatim>\<open>codec/codec.go\<close>: the reference decoder of the wire format. \<open>ParseHeader\<close>, \<open>crcOK\<close>,
  \<open>Decode\<close> and \<open>Reconstruct\<close> are the functions of that file; \<open>DeltaReconstructor\<close> is its
  state. A method that mutates the receiver returns the new state beside its result.
\<close>

section \<open>Data\<close>

definition headerSize :: nat where "headerSize = 8"

definition keyframeBit :: u16 where "keyframeBit = 0x8000"

definition crcMask :: u16 where "crcMask = 0x7fff"

datatype codec_error = ErrShortFrame | ErrCRCMismatch

record Header =
  Seq :: u32
  Count :: u16
  CRC :: u16
  Keyframe :: bool

record DeltaReconstructor =
  prev :: bytes

section \<open>Operations\<close>

definition ParseHeader :: "bytes \<Rightarrow> codec_error + Header" where
  "ParseHeader frame =
     (if length frame < headerSize then Inl ErrShortFrame
      else
        let tag = get_uint16 (take 2 (drop 6 frame)) in
        Inr \<lparr>Seq = get_uint32 (take 4 frame), Count = get_uint16 (take 2 (drop 4 frame)),
             CRC = tag AND crcMask, Keyframe = (tag AND keyframeBit \<noteq> 0)\<rparr>)"

definition crcOK :: "bytes \<Rightarrow> u16 \<Rightarrow> bool" where
  "crcOK body want \<longleftrightarrow> ChecksumIEEE body AND ucast crcMask = (ucast want :: u32)"

definition Decode :: "bytes \<Rightarrow> codec_error + (Header \<times> bytes)" where
  "Decode frame =
     (case ParseHeader frame of
        Inl err \<Rightarrow> Inl err
      | Inr h \<Rightarrow>
          let body = drop headerSize frame in
          if \<not> crcOK body (CRC h) then Inl ErrCRCMismatch else Inr (h, body))"

text \<open>The XOR loop of the delta path, with \<^verbatim>\<open>prev\<close> read as zero past its end.\<close>

definition delta_decode :: "bytes \<Rightarrow> bytes \<Rightarrow> bytes" where
  "delta_decode prv frame =
     map (\<lambda>i. frame ! i XOR (if i < length prv then prv ! i else 0)) [0..<length frame]"

definition Reconstruct ::
  "DeltaReconstructor \<Rightarrow> bytes \<Rightarrow> DeltaReconstructor \<times> (codec_error + (bytes \<times> Header))" where
  "Reconstruct d frame =
     (if length frame < headerSize then (d, Inl ErrShortFrame)
      else
        case (case ParseHeader frame of
                Inl _ \<Rightarrow> None
              | Inr hk \<Rightarrow> if Keyframe hk \<and> crcOK (drop headerSize frame) (CRC hk) then Some hk else None) of
          Some hk \<Rightarrow> (d\<lparr>prev := frame\<rparr>, Inr (frame, hk))
        | None \<Rightarrow>
            let raw = delta_decode (prev d) frame in
            case ParseHeader raw of
              Inl err \<Rightarrow> (d, Inl err)
            | Inr h \<Rightarrow>
                if \<not> crcOK (drop headerSize raw) (CRC h) then (d, Inl ErrCRCMismatch)
                else (d\<lparr>prev := raw\<rparr>, Inr (raw, h)))"

section \<open>Specification vocabulary\<close>

text \<open>The documented layout of a frame.\<close>

definition mk_frame :: "u32 \<Rightarrow> u16 \<Rightarrow> u16 \<Rightarrow> bytes \<Rightarrow> bytes" where
  "mk_frame sq cnt tag body = put_uint32 sq @ put_uint16 cnt @ put_uint16 tag @ body"

text \<open>The integrity tag: the low 15 bits of the CRC, and the keyframe flag in bit 15.\<close>

definition integrity_tag :: "bool \<Rightarrow> bytes \<Rightarrow> u16" where
  "integrity_tag key body =
     (let c = ucast (ChecksumIEEE body AND 0x7fff) in if key then c OR 0x8000 else c)"

text \<open>A byte string cut or zero-extended to a length.\<close>

definition zext :: "bytes \<Rightarrow> nat \<Rightarrow> bytes" where
  "zext bs n = take n (bs @ replicate n 0)"

text \<open>The receiver's keyframe test on the received bytes.\<close>

definition reads_as_keyframe :: "bytes \<Rightarrow> bool" where
  "reads_as_keyframe frame \<longleftrightarrow>
     (case ParseHeader frame of
        Inl _ \<Rightarrow> False
      | Inr h \<Rightarrow> Keyframe h \<and> crcOK (drop headerSize frame) (CRC h))"

section \<open>Lemmas\<close>

lemma length_mk_frame [simp]: "length (mk_frame sq cnt tag body) = headerSize + length body"
  by (simp add: mk_frame_def headerSize_def)

lemma drop_mk_frame [simp]: "drop headerSize (mk_frame sq cnt tag body) = body"
  by (simp add: mk_frame_def headerSize_def)

lemma ParseHeader_mk_frame [wire_simps]:
  "ParseHeader (mk_frame sq cnt tag body) =
     Inr \<lparr>Seq = sq, Count = cnt, CRC = tag AND crcMask, Keyframe = (tag AND keyframeBit \<noteq> 0)\<rparr>"
proof -
  have "take 4 (mk_frame sq cnt tag body) = put_uint32 sq @ []"
    and "take 2 (drop 4 (mk_frame sq cnt tag body)) = put_uint16 cnt @ []"
    and "take 2 (drop 6 (mk_frame sq cnt tag body)) = put_uint16 tag @ []"
    by (simp_all add: mk_frame_def)
  then show ?thesis
    by (simp only: ParseHeader_def get_put_uint16 get_put_uint32 Let_def length_mk_frame)
       (simp add: headerSize_def)
qed

lemma mask15: "(0x7fff :: 'a::len word) = mask 15"
  by (simp add: mask_eq_exp_minus_1)

lemma bit15: "(0x8000 :: u16) = push_bit 15 1"
  by simp

lemma bit_0x8000: "bit (0x8000 :: u16) n \<longleftrightarrow> n = 15"
proof -
  have "bit (2 ^ 15 :: u16) n \<longleftrightarrow> n = 15"
    by (subst bit_exp_iff) auto
  then show ?thesis by simp
qed

lemma tag_and_keyframeBit: "t AND keyframeBit \<noteq> 0 \<longleftrightarrow> bit t 15"
  unfolding keyframeBit_def bit15 by (rule bit_iff_and_push_bit_not_eq_0 [symmetric])

lemma bit_integrity_tag:
  "bit (integrity_tag key body) n \<longleftrightarrow>
     (if n = 15 then key else n < 15 \<and> bit (ChecksumIEEE body) n)"
proof -
  have "bit (ucast (ChecksumIEEE body AND mask 15) :: u16) n \<longleftrightarrow> n < 15 \<and> bit (ChecksumIEEE body) n"
    by (auto simp: bit_simps)
  moreover have "bit (c OR 0x8000 :: u16) n \<longleftrightarrow> bit c n \<or> n = 15" for c
    by (simp only: bit_or_iff bit_0x8000)
  ultimately show ?thesis
    by (auto simp: integrity_tag_def mask15 Let_def)
qed


lemma tag_crc: "integrity_tag key body AND crcMask = ucast (ChecksumIEEE body AND 0x7fff)"
  unfolding crcMask_def mask15
  by (rule bit_word_eqI) (auto simp: bit_simps bit_integrity_tag)

lemma tag_keyframe: "integrity_tag key body AND keyframeBit \<noteq> 0 \<longleftrightarrow> key"
  by (simp add: tag_and_keyframeBit bit_integrity_tag)

lemma crcOK_iff: "crcOK body want \<longleftrightarrow>
    \<not> bit want 15 \<and> (\<forall>n < 15. bit (ChecksumIEEE body) n \<longleftrightarrow> bit want n)"
proof -
  have "crcOK body want \<longleftrightarrow>
      (\<forall>n < 32. (bit (ChecksumIEEE body) n \<and> n < 16 \<and> n < 15) = bit want n)"
    unfolding crcOK_def crcMask_def mask15 by (subst bit_eq_iff) (simp add: bit_simps)
  also have "\<dots> \<longleftrightarrow> \<not> bit want 15 \<and> (\<forall>n < 15. bit (ChecksumIEEE body) n \<longleftrightarrow> bit want n)"
  proof -
    have hi: "n < 15 \<or> n = 15" if "bit want n" for n
      using bit_imp_le_length [OF that] by auto
    show ?thesis
    proof (rule iffI)
      assume "\<forall>n < 32. (bit (ChecksumIEEE body) n \<and> n < 16 \<and> n < 15) = bit want n"
      then have all: "n < 32 \<Longrightarrow> (bit (ChecksumIEEE body) n \<and> n < 16 \<and> n < 15) = bit want n" for n
        by blast
      have "bit (ChecksumIEEE body) n \<longleftrightarrow> bit want n" if "n < 15" for n
        using all [of n] that by simp
      then show "\<not> bit want 15 \<and> (\<forall>n < 15. bit (ChecksumIEEE body) n \<longleftrightarrow> bit want n)"
        using all [of 15] by simp
    next
      assume "\<not> bit want 15 \<and> (\<forall>n < 15. bit (ChecksumIEEE body) n \<longleftrightarrow> bit want n)"
      then show "\<forall>n < 32. (bit (ChecksumIEEE body) n \<and> n < 16 \<and> n < 15) = bit want n"
        by (auto dest: hi)
    qed
  qed
  finally show ?thesis .
qed

lemma crcOK_tag [simp]: "crcOK body (integrity_tag key body AND crcMask)"
  unfolding crcOK_iff crcMask_def mask15 by (simp add: bit_simps bit_integrity_tag)

lemma delta_decode_eq_xor: "delta_decode prv frame = xor_list frame (zext prv (length frame))"
  by (rule nth_equalityI) (auto simp: delta_decode_def zext_def nth_append min_def)

lemma length_delta_decode [simp]: "length (delta_decode prv frame) = length frame"
  by (simp add: delta_decode_def)

lemma length_zext [simp]: "length (zext bs n) = n"
  by (simp add: zext_def)

lemma nth_zext: "i < n \<Longrightarrow> zext bs n ! i = (if i < length bs then bs ! i else 0)"
  by (auto simp: zext_def nth_append)

lemma delta_decode_undo:
  "length raw = n \<Longrightarrow> delta_decode prv (xor_list raw (zext prv n)) = raw"
  by (simp add: delta_decode_eq_xor xor_list_cancel)

lemma ParseHeader_ok: "headerSize \<le> length frame \<Longrightarrow> \<exists>h. ParseHeader frame = Inr h"
  by (simp add: ParseHeader_def Let_def)

text \<open>\<open>Reconstruct\<close> as two cases on the keyframe test.\<close>

lemma Reconstruct_keyframe:
  assumes "headerSize \<le> length frame" and "reads_as_keyframe frame"
  shows "\<exists>h. ParseHeader frame = Inr h \<and> Reconstruct d frame = (d\<lparr>prev := frame\<rparr>, Inr (frame, h))"
  using assms by (auto simp: Reconstruct_def reads_as_keyframe_def split: sum.splits)

lemma Reconstruct_delta:
  assumes "headerSize \<le> length frame" and "\<not> reads_as_keyframe frame"
  shows "Reconstruct d frame =
    (case Decode (delta_decode (prev d) frame) of
       Inl err \<Rightarrow> (d, Inl err)
     | Inr (h, body) \<Rightarrow> (d\<lparr>prev := delta_decode (prev d) frame\<rparr>, Inr (delta_decode (prev d) frame, h)))"
  using assms by (auto simp: Reconstruct_def reads_as_keyframe_def Decode_def Let_def split: sum.splits)

lemmas Reconstruct_cases = Reconstruct_keyframe Reconstruct_delta

section \<open>Frames and deltas\<close>

lemma ucast_xor: "ucast (a XOR b) = (ucast a XOR ucast b :: 'b::len word)"
  by (rule bit_word_eqI) (simp add: bit_simps)

lemma put_uint16_xor: "xor_list (put_uint16 a) (put_uint16 b) = put_uint16 (a XOR b)"
  by (simp add: put_uint16_def ucast_xor)

lemma put_uint32_xor: "xor_list (put_uint32 a) (put_uint32 b) = put_uint32 (a XOR b)"
  by (simp add: put_uint32_def ucast_xor)

lemma xor_list_append:
  "length a = length c \<Longrightarrow> xor_list (a @ b) (c @ d) = xor_list a c @ xor_list b d"
  by (simp add: xor_list_def)

lemma mk_frame_xor: "xor_list (mk_frame sq c t b) (mk_frame sq' c' t' b') =
    mk_frame (sq XOR sq') (c XOR c') (t XOR t') (xor_list b b')"
  by (simp add: mk_frame_def xor_list_append put_uint16_xor put_uint32_xor)

lemma zext_mk_frame: "zext (mk_frame sq c t b) (headerSize + n) = mk_frame sq c t (zext b n)"
  by (simp add: zext_def mk_frame_def headerSize_def)

lemma zext_same [simp]: "zext bs (length bs) = bs"
  by (simp add: zext_def)

text \<open>What travels for \<open>raw\<close> after \<open>prv\<close>: the XOR with the zero-extended baseline.\<close>

definition delta_wire :: "bytes \<Rightarrow> bytes \<Rightarrow> bytes" where
  "delta_wire prv raw = xor_list raw (zext prv (length raw))"

lemma delta_wire_mk_frame:
  "delta_wire (mk_frame sq0 c0 t0 b0) (mk_frame sq c t b) =
     mk_frame (sq XOR sq0) (c XOR c0) (t XOR t0) (xor_list b (zext b0 (length b)))"
  by (simp add: delta_wire_def zext_mk_frame mk_frame_xor)

lemma length_delta_wire [simp]: "length (delta_wire prv raw) = length raw"
  by (simp add: delta_wire_def)

lemma reads_as_keyframe_mk_frame:
  "reads_as_keyframe (mk_frame sq c t b) \<longleftrightarrow> bit t 15 \<and> (\<forall>n < 15. bit (ChecksumIEEE b) n = bit t n)"
  unfolding reads_as_keyframe_def
  by (simp add: wire_simps tag_and_keyframeBit)
    (auto simp: crcOK_iff crcMask_def mask15 bit_simps)

lemma and_0x7fff_eq_0: "(w :: u32) AND 0x7fff = 0 \<longleftrightarrow> (\<forall>n < 15. \<not> bit w n)"
proof
  assume z: "w AND 0x7fff = 0"
  show "\<forall>n < 15. \<not> bit w n"
  proof (intro allI impI)
    fix n :: nat assume "n < 15"
    have "bit (w AND mask 15) n = bit (0::u32) n" using z by (simp only: mask15)
    with \<open>n < 15\<close> show "\<not> bit w n" by (simp add: bit_simps)
  qed
next
  assume "\<forall>n < 15. \<not> bit w n"
  then show "w AND 0x7fff = 0" unfolding mask15 by (intro bit_word_eqI) (auto simp: bit_simps)
qed

lemma Reconstruct_not_misread:
  assumes "headerSize \<le> length raw" and "\<not> reads_as_keyframe (delta_wire (prev d) raw)"
  shows "Reconstruct d (delta_wire (prev d) raw) =
    (case Decode raw of Inl err \<Rightarrow> (d, Inl err) | Inr (h, body) \<Rightarrow> (d\<lparr>prev := raw\<rparr>, Inr (raw, h)))"
proof -
  have "delta_decode (prev d) (delta_wire (prev d) raw) = raw"
    unfolding delta_wire_def by (rule delta_decode_undo) simp
  with Reconstruct_delta [of "delta_wire (prev d) raw" d] assms show ?thesis
    by (simp only: length_delta_wire if_True simp_thms)
qed

lemma Decode_mk_frame [wire_simps]:
  "Decode (mk_frame sq c (integrity_tag key body) body) =
     Inr (\<lparr>Seq = sq, Count = c, CRC = ucast (ChecksumIEEE body AND 0x7fff), Keyframe = key\<rparr>, body)"
  by (simp add: Decode_def wire_simps tag_keyframe) (simp add: tag_crc)

lemma put_get_uint16: "length b = 2 \<Longrightarrow> put_uint16 (get_uint16 b) = b"
proof -
  assume "length b = 2"
  then obtain x y where b: "b = [x, y]" by (auto simp: numeral_2_eq_2 length_Suc_conv)
  have "ucast (ucast x OR push_bit 8 (ucast y) :: u16) = x"
    by (rule bit_word_eqI) (auto simp: bit_simps)
  moreover have "ucast (drop_bit 8 (ucast x OR push_bit 8 (ucast y) :: u16)) = y"
    by (rule bit_word_eqI) (auto simp: bit_simps dest: bit_imp_le_length)
  ultimately show ?thesis by (simp add: b put_uint16_def get_uint16_def)
qed

lemma put_get_uint32: "length b = 4 \<Longrightarrow> put_uint32 (get_uint32 b) = b"
proof -
  assume "length b = 4"
  then obtain x y z w where b: "b = [x, y, z, w]" by (auto simp: numeral_eq_Suc length_Suc_conv)
  let ?v = "ucast x OR push_bit 8 (ucast y) OR push_bit 16 (ucast z) OR push_bit 24 (ucast w) :: u32"
  have "ucast ?v = x" "ucast (drop_bit 8 ?v) = y" "ucast (drop_bit 16 ?v) = z" "ucast (drop_bit 24 ?v) = w"
    by (rule bit_word_eqI; auto simp: bit_simps dest: bit_imp_le_length)+
  then show ?thesis by (simp add: b put_uint32_def get_uint32_def or.assoc)
qed

lemma Reconstruct_mk_keyframe:
  "Reconstruct d (mk_frame sq c (integrity_tag True body) body) =
     (\<lparr>prev = mk_frame sq c (integrity_tag True body) body\<rparr>,
      Inr (mk_frame sq c (integrity_tag True body) body,
           \<lparr>Seq = sq, Count = c, CRC = ucast (ChecksumIEEE body AND 0x7fff), Keyframe = True\<rparr>))"
proof -
  have "reads_as_keyframe (mk_frame sq c (integrity_tag True body) body)"
    by (simp add: reads_as_keyframe_mk_frame bit_integrity_tag)
  from Reconstruct_keyframe [OF _ this, of d] show ?thesis
    by (simp add: wire_simps tag_keyframe) (simp add: tag_crc)
qed

text \<open>Without keyframes no delta is taken for one: bit 15 of the tag cancels.\<close>

lemma plain_delta_not_misread:
  "\<not> reads_as_keyframe (delta_wire (mk_frame sq0 c0 (integrity_tag False b0) b0) (mk_frame sq c (integrity_tag False b) b))"
  "\<not> reads_as_keyframe (delta_wire [] (mk_frame sq c (integrity_tag False b) b))"
proof -
  show "\<not> reads_as_keyframe (delta_wire (mk_frame sq0 c0 (integrity_tag False b0) b0) (mk_frame sq c (integrity_tag False b) b))"
    by (simp add: delta_wire_mk_frame reads_as_keyframe_mk_frame bit_xor_iff bit_integrity_tag)
  have "delta_wire [] (mk_frame sq c (integrity_tag False b) b) = mk_frame sq c (integrity_tag False b) b"
    by (simp add: delta_wire_def zext_def)
  then show "\<not> reads_as_keyframe (delta_wire [] (mk_frame sq c (integrity_tag False b) b))"
    by (simp add: reads_as_keyframe_mk_frame bit_integrity_tag)
qed

text \<open>The receiver's keyframe test on a delta frame.\<close>

lemma delta_misread_iff:
  "reads_as_keyframe (delta_wire (mk_frame sq0 c0 (integrity_tag k0 b0) b0) (mk_frame sq c (integrity_tag k b) b)) \<longleftrightarrow>
   k \<noteq> k0 \<and>
   (ChecksumIEEE b0 XOR ChecksumIEEE (zext b0 (length b)) XOR ChecksumIEEE (replicate (length b) 0)) AND 0x7fff = 0"
proof -
  have "ChecksumIEEE (xor_list b (zext b0 (length b))) =
      ChecksumIEEE b XOR ChecksumIEEE (zext b0 (length b)) XOR ChecksumIEEE (replicate (length b) 0)"
    by (rule ChecksumIEEE_xor) simp
  then show ?thesis
    unfolding delta_wire_mk_frame reads_as_keyframe_mk_frame and_0x7fff_eq_0
    by (auto simp: bit_xor_iff bit_integrity_tag)
qed

section \<open>Properties\<close>

text \<open>
  C21: \<^verbatim>\<open>Decode\<close> accepts exactly the frames of the documented layout: sequence number, item count
  and a tag with the keyframe bit and the low 15 bits of the body's CRC-32, then the body;
  and it returns exactly these fields. A frame is refused as short exactly when it has fewer
  than 8 bytes.
\<close>

theorem Decode_exact:
  "(Decode frame = Inr (h, body) \<longleftrightarrow>
     frame = mk_frame (Seq h) (Count h) (integrity_tag (Keyframe h) body) body \<and>
     h = \<lparr>Seq = Seq h, Count = Count h, CRC = ucast (ChecksumIEEE body AND 0x7fff), Keyframe = Keyframe h\<rparr>) \<and>
   (Decode frame = Inl ErrShortFrame \<longleftrightarrow> length frame < 8)"
proof (intro conjI iffI)
  assume acc: "Decode frame = Inr (h, body)"
  then have len: "8 \<le> length frame" and body: "body = drop 8 frame"
    and h: "h = \<lparr>Seq = get_uint32 (take 4 frame), Count = get_uint16 (take 2 (drop 4 frame)),
      CRC = get_uint16 (take 2 (drop 6 frame)) AND crcMask,
      Keyframe = (get_uint16 (take 2 (drop 6 frame)) AND keyframeBit \<noteq> 0)\<rparr>"
    and crc: "crcOK body (get_uint16 (take 2 (drop 6 frame)) AND crcMask)"
    by (auto simp: Decode_def ParseHeader_def Let_def headerSize_def split: if_splits)
  have tag: "get_uint16 (take 2 (drop 6 frame)) = integrity_tag (Keyframe h) body"
    by (rule bit_word_eqI) (use crc in \<open>auto simp: h tag_and_keyframeBit bit_integrity_tag
      crcOK_iff crcMask_def mask15 bit_simps\<close>)
  have "frame = take 4 frame @ take 2 (drop 4 frame) @ take 2 (drop 6 frame) @ drop 8 frame"
    using append_take_drop_id [of 2 "drop 6 frame"] append_take_drop_id [of 2 "drop 4 frame"] by simp
  also have "\<dots> = mk_frame (Seq h) (Count h) (integrity_tag (Keyframe h) body) body"
  proof -
    have "take 2 (drop 6 frame) = put_uint16 (integrity_tag (Keyframe h) body)"
      using len by (simp add: put_get_uint16 flip: tag)
    then show ?thesis using len body by (simp add: mk_frame_def put_get_uint16 put_get_uint32 h)
  qed
  finally show "frame = mk_frame (Seq h) (Count h) (integrity_tag (Keyframe h) body) body" .
  show "h = \<lparr>Seq = Seq h, Count = Count h, CRC = ucast (ChecksumIEEE body AND 0x7fff), Keyframe = Keyframe h\<rparr>"
  proof -
    have "CRC h = integrity_tag (Keyframe h) body AND crcMask" by (subst tag [symmetric]) (simp add: h)
    then show ?thesis by (simp add: tag_crc)
  qed
next
  assume "frame = mk_frame (Seq h) (Count h) (integrity_tag (Keyframe h) body) body \<and>
     h = \<lparr>Seq = Seq h, Count = Count h, CRC = ucast (ChecksumIEEE body AND 0x7fff), Keyframe = Keyframe h\<rparr>"
  then show "Decode frame = Inr (h, body)" by (metis Decode_mk_frame)
qed (auto simp: Decode_def ParseHeader_def Let_def headerSize_def split: if_splits)

text \<open>
  A call of \<^verbatim>\<open>Reconstruct\<close> that fails leaves the baseline as it was; one that succeeds makes
  the returned frame the new baseline, and that frame has the received length and passes
  \<^verbatim>\<open>Decode\<close> with the returned header.
\<close>

lemma Reconstruct_baseline:
  "case Reconstruct d frame of
     (d', Inl err) \<Rightarrow> d' = d \<and> (err = ErrShortFrame \<longleftrightarrow> length frame < 8)
   | (d', Inr (raw, h)) \<Rightarrow> prev d' = raw \<and> length raw = length frame \<and> Decode raw = Inr (h, drop 8 raw)"
proof (cases "headerSize \<le> length frame")
  case False
  then show ?thesis by (simp add: Reconstruct_def headerSize_def)
next
  case long: True
  show ?thesis
  proof (cases "reads_as_keyframe frame")
    case True
    then show ?thesis
      using Reconstruct_keyframe [OF long True, of d]
      by (auto simp: reads_as_keyframe_def Decode_def Let_def headerSize_def)
  next
    case False
    have dec: "Decode raw = Inr (h, b) \<Longrightarrow> b = drop 8 raw"
      "headerSize \<le> length raw \<Longrightarrow> Decode raw = Inl e \<Longrightarrow> e = ErrCRCMismatch" for raw h b e
      by (auto simp: Decode_def ParseHeader_def Let_def headerSize_def split: if_splits sum.splits)
    show ?thesis
      using Reconstruct_delta [OF long False, of d] long dec [of "delta_decode (prev d) frame"]
      by (auto simp: headerSize_def split: sum.splits)
  qed
qed

text \<open>
  A keyframe resynchronises: whatever the baseline, the frame is returned as sent and
  becomes the baseline.
\<close>

lemma keyframe_resync:
  "Reconstruct d (mk_frame sq c (integrity_tag True body) body) =
     (\<lparr>prev = mk_frame sq c (integrity_tag True body) body\<rparr>,
      Inr (mk_frame sq c (integrity_tag True body) body,
           \<lparr>Seq = sq, Count = c, CRC = ucast (ChecksumIEEE body AND 0x7fff), Keyframe = True\<rparr>))"
  by (rule Reconstruct_mk_keyframe)

text \<open>
  C22: when the receiver's keyframe test answers wrongly. The delta of a frame against the frame
  before it is read as a keyframe exactly when one of the two is a keyframe and the other is
  not, and the low 15 bits of three checksums cancel: those of the old body, of the old body
  cut or zero-extended to the new length, and of as many zero bytes. In every other case the
  reconstruction is exact.
\<close>

theorem delta_roundtrip_exact:
  assumes "prev d = mk_frame sq0 c0 (integrity_tag k0 b0) b0" and "raw = mk_frame sq c (integrity_tag k b) b"
  shows "if k \<noteq> k0 \<and>
      (ChecksumIEEE b0 XOR ChecksumIEEE (zext b0 (length b)) XOR ChecksumIEEE (replicate (length b) 0)) AND 0x7fff = 0
    then \<exists>h. Reconstruct d (delta_wire (prev d) raw) =
           (\<lparr>prev = delta_wire (prev d) raw\<rparr>, Inr (delta_wire (prev d) raw, h))
    else Reconstruct d (delta_wire (prev d) raw) =
           (\<lparr>prev = raw\<rparr>, Inr (raw, \<lparr>Seq = sq, Count = c, CRC = ucast (ChecksumIEEE b AND 0x7fff), Keyframe = k\<rparr>))"
  using Reconstruct_keyframe [of "delta_wire (prev d) raw" d] Reconstruct_not_misread [of raw d]
    Decode_mk_frame [of sq c k b] delta_misread_iff [of sq0 c0 k0 b0 sq c k b] assms by auto

lemma crc_zeros:
  "ChecksumIEEE [0] = 0xd202ef8d" "ChecksumIEEE [0xff] = 0xff000000" "ChecksumIEEE [0xff, 0] = 0xd2fdef8d"
  by (simp_all add: crc_eval)

theorem delta_roundtrip_exact_witness:
  "Reconstruct \<lparr>prev = mk_frame 0 1 (integrity_tag True [0xff]) [0xff]\<rparr>
     (delta_wire (mk_frame 0 1 (integrity_tag True [0xff]) [0xff]) (mk_frame 1 1 (integrity_tag False [3]) [3])) =
   (\<lparr>prev = mk_frame 1 1 (integrity_tag False [3]) [3]\<rparr>,
    Inr (mk_frame 1 1 (integrity_tag False [3]) [3],
         \<lparr>Seq = 1, Count = 1, CRC = ucast (ChecksumIEEE [3] AND 0x7fff), Keyframe = False\<rparr>))"
  using delta_roundtrip_exact [of "\<lparr>prev = mk_frame 0 1 (integrity_tag True [0xff]) [0xff]\<rparr>"
      0 1 True "[0xff]" "mk_frame 1 1 (integrity_tag False [3]) [3]" 1 1 False "[3]"]
  by (simp add: zext_def crc_zeros)

text \<open>
  C39: the wrong answer happens. After a keyframe with the two-byte body \<open>ff 00\<close>, every delta
  frame with a one-byte body is taken for a keyframe: \<^verbatim>\<open>Reconstruct\<close> reports success, returns
  the still encoded bytes as the frame, and makes them the baseline.
\<close>

theorem delta_misread:
  assumes "prev d = mk_frame sq0 c0 (integrity_tag True [0xff, 0]) [0xff, 0]"
    and "raw = mk_frame sq c (integrity_tag False [x]) [x]"
  shows "delta_wire (prev d) raw \<noteq> raw \<and>
    (\<exists>h. Reconstruct d (delta_wire (prev d) raw) =
       (\<lparr>prev = delta_wire (prev d) raw\<rparr>, Inr (delta_wire (prev d) raw, h)))"
proof -
  have "ChecksumIEEE [0xff, 0] XOR ChecksumIEEE (zext [0xff, 0] (length [x])) XOR
      ChecksumIEEE (replicate (length [x]) 0) = 0xffff0000"
    by (simp add: zext_def crc_zeros)
  then have "reads_as_keyframe (delta_wire (prev d) raw)"
    unfolding assms delta_misread_iff by simp
  from Reconstruct_keyframe [OF _ this, of d] have "\<exists>h. Reconstruct d (delta_wire (prev d) raw) =
       (\<lparr>prev = delta_wire (prev d) raw\<rparr>, Inr (delta_wire (prev d) raw, h))"
    by (auto simp: assms(2))
  moreover have "delta_wire (prev d) raw \<noteq> raw"
  proof
    assume "delta_wire (prev d) raw = raw"
    then have "drop headerSize (delta_wire (prev d) raw) = drop headerSize raw" by simp
    then have "x XOR 0xff = x"
      unfolding assms delta_wire_mk_frame drop_mk_frame by (simp add: zext_def)
    then have "x XOR (x XOR 0xff) = 0" by simp
    then show False by (simp add: xor.assoc [symmetric])
  qed
  ultimately show ?thesis by simp
qed

theorem delta_misread_witness:
  "\<exists>h. Reconstruct \<lparr>prev = mk_frame 0 1 (integrity_tag True [0xff, 0]) [0xff, 0]\<rparr>
         (delta_wire (mk_frame 0 1 (integrity_tag True [0xff, 0]) [0xff, 0]) (mk_frame 1 1 (integrity_tag False [7]) [7])) =
       (\<lparr>prev = delta_wire (mk_frame 0 1 (integrity_tag True [0xff, 0]) [0xff, 0]) (mk_frame 1 1 (integrity_tag False [7]) [7])\<rparr>,
        Inr (delta_wire (mk_frame 0 1 (integrity_tag True [0xff, 0]) [0xff, 0]) (mk_frame 1 1 (integrity_tag False [7]) [7]), h))"
  using delta_misread [of "\<lparr>prev = mk_frame 0 1 (integrity_tag True [0xff, 0]) [0xff, 0]\<rparr>" 0 1
      "mk_frame 1 1 (integrity_tag False [7]) [7]" 1 1 7] by simp

end
