(* ===== verification/Xor_Encode.thy ===== *)
theory Xor_Encode
  imports Crc32
begin

unbundle bit_operations_syntax

text \<open>
  \<^verbatim>\<open>encode.go\<close>: the vectorised XOR of two byte slices. The word loops read and write the
  backing arrays as native 64-bit integers through \<^verbatim>\<open>unsafe.Slice\<close>; the byte order of the
  host is the parameter \<open>le\<close>. The loops are translated one to one: the 4-wide unrolled
  loop, the cleanup loop and the byte tail.
\<close>

section \<open>Native words in memory\<close>

text \<open>The \<open>i\<close>-th 8-byte word of the memory \<open>m\<close>, little- or big-endian.\<close>

definition word_bytes :: "bytes \<Rightarrow> nat \<Rightarrow> bytes" where
  "word_bytes m i = take 8 (drop (8 * i) m)"

definition bytes_to_word :: "bool \<Rightarrow> bytes \<Rightarrow> u64" where
  "bytes_to_word le bs = foldr (\<lambda>b acc. ucast b OR push_bit 8 acc) (if le then bs else rev bs) 0"

definition word_to_bytes :: "bool \<Rightarrow> u64 \<Rightarrow> bytes" where
  "word_to_bytes le w =
     (let bs = map (\<lambda>k. ucast (drop_bit (8 * k) w)) [0..<8] in if le then bs else rev bs)"

definition load64 :: "bool \<Rightarrow> bytes \<Rightarrow> nat \<Rightarrow> u64" where
  "load64 le m i = bytes_to_word le (word_bytes m i)"

definition store64 :: "bool \<Rightarrow> bytes \<Rightarrow> nat \<Rightarrow> u64 \<Rightarrow> bytes" where
  "store64 le m i w = overwrite m (8 * i) (word_to_bytes le w)"

section \<open>xorBytes\<close>

text \<open>\<^verbatim>\<open>dw[i] = aw[i] ^ bw[i]\<close>\<close>

definition xor_word :: "bool \<Rightarrow> bytes \<Rightarrow> bytes \<Rightarrow> nat \<Rightarrow> bytes \<Rightarrow> bytes" where
  "xor_word le a b i dst = store64 le dst i (load64 le a i XOR load64 le b i)"

function unrolled_loop :: "bool \<Rightarrow> bytes \<Rightarrow> bytes \<Rightarrow> nat \<Rightarrow> nat \<Rightarrow> bytes \<Rightarrow> nat \<times> bytes" where
  "unrolled_loop le a b words i dst =
     (if i + 4 \<le> words
      then unrolled_loop le a b words (i + 4)
             (xor_word le a b (i + 3) (xor_word le a b (i + 2)
               (xor_word le a b (i + 1) (xor_word le a b i dst))))
      else (i, dst))"
  by pat_completeness auto
termination
  by (relation "measure (\<lambda>(le, a, b, words, i, dst). words - i)") auto

function cleanup_loop :: "bool \<Rightarrow> bytes \<Rightarrow> bytes \<Rightarrow> nat \<Rightarrow> nat \<Rightarrow> bytes \<Rightarrow> bytes" where
  "cleanup_loop le a b words i dst =
     (if i < words then cleanup_loop le a b words (i + 1) (xor_word le a b i dst) else dst)"
  by pat_completeness auto
termination
  by (relation "measure (\<lambda>(le, a, b, words, i, dst). words - i)") auto

text \<open>The tail loop over the re-sliced \<^verbatim>\<open>da\<close>, \<^verbatim>\<open>aa\<close>, \<^verbatim>\<open>ba\<close>, which start at \<open>off\<close>.\<close>

function tail_loop :: "bytes \<Rightarrow> bytes \<Rightarrow> nat \<Rightarrow> nat \<Rightarrow> nat \<Rightarrow> bytes \<Rightarrow> bytes" where
  "tail_loop a b off tail i dst =
     (if i < tail
      then tail_loop a b off tail (i + 1) (dst[off + i := a ! (off + i) XOR b ! (off + i)])
      else dst)"
  by pat_completeness auto
termination
  by (relation "measure (\<lambda>(a, b, off, tail, i, dst). tail - i)") auto

declare unrolled_loop.simps [simp del] cleanup_loop.simps [simp del] tail_loop.simps [simp del]

definition xorBytes :: "bool \<Rightarrow> bytes \<Rightarrow> bytes \<Rightarrow> bytes \<Rightarrow> bytes go" where
  "xorBytes le dst a b =
     (let n = length a in
      if n = 0 then Ret dst
      else if length dst < n \<or> length b < n
      then Panics (PanicMsg ''tickbatch: xorBytes: dst and b must each be at least len(a) bytes'')
      else
        let words = n div 8;
            dst1 = (if words > 0
                    then (case unrolled_loop le a b words 0 dst of
                            (i, d) \<Rightarrow> cleanup_loop le a b words i d)
                    else dst);
            wordEnd = words * 8;
            tail = n - wordEnd
        in if tail > 0 then Ret (tail_loop a b wordEnd tail 0 dst1) else Ret dst1)"

section \<open>Lemmas\<close>

lemma bit_bytes_to_word_le:
  "bit (foldr (\<lambda>b acc. ucast b OR push_bit 8 acc) (bs :: bytes) (0 :: u64)) n \<longleftrightarrow>
     n < 64 \<and> n div 8 < length bs \<and> bit (bs ! (n div 8)) (n mod 8)"
proof (induction bs arbitrary: n)
  case Nil
  then show ?case by simp
next
  case (Cons b bs)
  show ?case
  proof (cases "n < 8")
    case True
    then show ?thesis by (auto simp: bit_simps)
  next
    case False
    then have "n div 8 = Suc ((n - 8) div 8)" and "n mod 8 = (n - 8) mod 8"
      by (simp_all add: le_div_geq le_mod_geq)
    moreover have "\<not> bit b n" using False bit_imp_le_length [of b n] by auto
    ultimately show ?thesis using False by (auto simp: bit_simps Cons.IH)
  qed
qed

lemma word_to_bytes_le_xor:
  assumes "length x = 8" and "length y = 8"
  shows "map (\<lambda>k. ucast (drop_bit (8 * k) (bytes_to_word True x XOR bytes_to_word True y))) [0..<8]
    = xor_list x y"
proof (rule nth_equalityI)
  fix k assume k: "k < length (map (\<lambda>k. ucast (drop_bit (8 * k) (bytes_to_word True x XOR bytes_to_word True y)) :: byte) [0..<8])"
  show "map (\<lambda>k. ucast (drop_bit (8 * k) (bytes_to_word True x XOR bytes_to_word True y)) :: byte) [0..<8] ! k
    = xor_list x y ! k"
    using k assms
    by (intro bit_word_eqI)
       (auto simp: bit_simps bytes_to_word_def bit_bytes_to_word_le)
qed (use assms in simp)

lemma word_to_bytes_xor:
  assumes "length x = 8" and "length y = 8"
  shows "word_to_bytes le (bytes_to_word le x XOR bytes_to_word le y) = xor_list x y"
proof (cases le)
  case True
  then show ?thesis using word_to_bytes_le_xor [OF assms] by (simp add: word_to_bytes_def)
next
  case False
  have flip: "bytes_to_word False z = bytes_to_word True (rev z)" for z
    by (simp add: bytes_to_word_def)
  have "rev (xor_list (rev x) (rev y)) = xor_list x y"
    using assms by (simp add: xor_list_def zip_rev rev_map)
  then show ?thesis
    using False word_to_bytes_le_xor [of "rev x" "rev y"] assms
    by (simp add: word_to_bytes_def flip)
qed

text \<open>The destination after its first \<open>k\<close> bytes have been XORed.\<close>

definition xored_upto :: "bytes \<Rightarrow> bytes \<Rightarrow> nat \<Rightarrow> bytes \<Rightarrow> bytes" where
  "xored_upto a b k dst = take k (xor_list a b) @ drop k dst"

lemma xored_upto_0 [simp]: "xored_upto a b 0 dst = dst"
  by (simp add: xored_upto_def)

lemma length_xored_upto [simp]:
  "k \<le> length a \<Longrightarrow> k \<le> length b \<Longrightarrow> k \<le> length dst \<Longrightarrow> length (xored_upto a b k dst) = length dst"
  by (simp add: xored_upto_def)

lemma xor_word_step:
  assumes "8 * i + 8 \<le> length a" and "8 * i + 8 \<le> length b" and "8 * i + 8 \<le> length dst"
  shows "xor_word le a b i (xored_upto a b (8 * i) dst) = xored_upto a b (8 * (i + 1)) dst"
proof -
  have "xor_word le a b i d = overwrite d (8 * i) (take 8 (drop (8 * i) (xor_list a b)))" for d
    using assms by (simp add: xor_word_def store64_def load64_def word_bytes_def word_to_bytes_xor
        take_xor_list drop_xor_list)
  moreover have "overwrite (xored_upto a b (8 * i) dst) (8 * i) (take 8 (drop (8 * i) (xor_list a b)))
    = take (8 * i) (xor_list a b) @ take 8 (drop (8 * i) (xor_list a b)) @ drop (8 * i + 8) dst"
    using assms by (simp add: overwrite_def xored_upto_def add.commute)
  moreover have "8 * (i + 1) = 8 * i + 8" by simp
  ultimately show ?thesis
    by (simp only: xored_upto_def take_add append.assoc)
qed

lemma unrolled_loop_xored:
  assumes "8 * words \<le> length a" and "8 * words \<le> length b" and "8 * words \<le> length dst"
    and "i \<le> words"
  shows "\<exists>j \<le> words. i \<le> j \<and>
    unrolled_loop le a b words i (xored_upto a b (8 * i) dst) = (j, xored_upto a b (8 * j) dst)"
  using assms(4)
proof (induction "words - i" arbitrary: i rule: less_induct)
  case less
  show ?case
  proof (cases "i + 4 \<le> words")
    case True
    have step: "xor_word le a b k (xored_upto a b (8 * k) dst) = xored_upto a b (8 * (k + 1)) dst"
      if "k < words" for k
      using that assms(1-3) by (intro xor_word_step) auto
    have "xor_word le a b (i + 3) (xor_word le a b (i + 2) (xor_word le a b (i + 1)
        (xor_word le a b i (xored_upto a b (8 * i) dst)))) = xored_upto a b (8 * (i + 4)) dst"
      using True step [of i] step [of "i + 1"] step [of "i + 2"] step [of "i + 3"]
      by (simp add: numeral_eq_Suc)
    moreover have "words - (i + 4) < words - i" using True by simp
    then obtain j where "j \<le> words" "i + 4 \<le> j"
      "unrolled_loop le a b words (i + 4) (xored_upto a b (8 * (i + 4)) dst)
        = (j, xored_upto a b (8 * j) dst)"
      using less.hyps [of "i + 4"] True by blast
    ultimately show ?thesis
      using True by (intro exI [of _ j]) (simp add: unrolled_loop.simps [of le a b words i])
  next
    case False
    then show ?thesis
      using less.prems by (intro exI [of _ i]) (simp add: unrolled_loop.simps)
  qed
qed

lemma cleanup_loop_xored:
  assumes "8 * words \<le> length a" and "8 * words \<le> length b" and "8 * words \<le> length dst"
    and "i \<le> words"
  shows "cleanup_loop le a b words i (xored_upto a b (8 * i) dst) = xored_upto a b (8 * words) dst"
  using assms(4)
proof (induction "words - i" arbitrary: i rule: less_induct)
  case less
  show ?case
  proof (cases "i < words")
    case True
    then have "xor_word le a b i (xored_upto a b (8 * i) dst) = xored_upto a b (8 * (i + 1)) dst"
      using assms(1-3) by (intro xor_word_step) auto
    with True less.hyps [of "i + 1"] show ?thesis
      by (simp add: cleanup_loop.simps [of le a b words i])
  next
    case False
    with less.prems show ?thesis by (simp add: cleanup_loop.simps)
  qed
qed

lemma tail_byte_step:
  assumes "k < length a" and "k < length b" and "k < length dst"
  shows "(xored_upto a b k dst)[k := a ! k XOR b ! k] = xored_upto a b (Suc k) dst"
proof -
  have "drop k dst = dst ! k # drop (Suc k) dst"
    using assms by (simp add: Cons_nth_drop_Suc)
  then show ?thesis
    using assms by (simp add: xored_upto_def list_update_append take_Suc_conv_app_nth)
qed

lemma tail_loop_xored:
  assumes "off + tail \<le> length a" and "off + tail \<le> length b" and "off + tail \<le> length dst"
    and "i \<le> tail"
  shows "tail_loop a b off tail i (xored_upto a b (off + i) dst) = xored_upto a b (off + tail) dst"
  using assms(4)
proof (induction "tail - i" arbitrary: i rule: less_induct)
  case less
  show ?case
  proof (cases "i < tail")
    case True
    with assms(1-3) have "(xored_upto a b (off + i) dst)[off + i := a ! (off + i) XOR b ! (off + i)]
      = xored_upto a b (off + Suc i) dst"
      using tail_byte_step [of "off + i" a b dst] by simp
    with True less.hyps [of "Suc i"] show ?thesis
      by (simp add: tail_loop.simps [of a b off tail i])
  next
    case False
    with less.prems show ?thesis by (simp add: tail_loop.simps)
  qed
qed

text \<open>The whole routine against its reference: XOR the first \<open>length a\<close> bytes, keep the rest.\<close>

lemma xorBytes_eq:
  assumes "length a \<le> length dst" and "length a \<le> length b"
  shows "xorBytes le dst a b = Ret (xor_list a b @ drop (length a) dst)"
proof (cases "length a = 0")
  case True
  then show ?thesis by (simp add: xorBytes_def)
next
  case False
  let ?n = "length a" and ?w = "length a div 8"
  have w: "8 * ?w \<le> ?n" by simp
  have bnd: "8 * ?w \<le> length b" "8 * ?w \<le> length dst" using w assms by linarith+
  obtain j where j: "j \<le> ?w" "unrolled_loop le a b ?w 0 dst = (j, xored_upto a b (8 * j) dst)"
    using unrolled_loop_xored [OF w bnd, of 0 le] by auto
  have words: "cleanup_loop le a b ?w j (xored_upto a b (8 * j) dst) = xored_upto a b (8 * ?w) dst"
    by (rule cleanup_loop_xored [OF w bnd j(1)])
  have tail: "tail_loop a b (8 * ?w) (?n - 8 * ?w) 0 (xored_upto a b (8 * ?w) dst) = xored_upto a b ?n dst"
    using tail_loop_xored [of "8 * ?w" "?n - 8 * ?w" a b dst 0] assms w by simp
  have done_: "xored_upto a b ?n dst = xor_list a b @ drop ?n dst"
    using assms by (simp add: xored_upto_def)
  have "(if ?w > 0 then (case unrolled_loop le a b ?w 0 dst of
            (i, d) \<Rightarrow> cleanup_loop le a b ?w i d) else dst) = xored_upto a b (8 * ?w) dst"
    using j(2) words by simp
  moreover have "?n - 8 * ?w = 0 \<Longrightarrow> xored_upto a b (8 * ?w) dst = xored_upto a b ?n dst"
    using w by (metis diff_is_0_eq le_antisym)
  ultimately show ?thesis
    using False assms tail done_ by (simp add: xorBytes_def Let_def mult.commute)
qed

section \<open>Properties\<close>

text \<open>
  C23: \<^verbatim>\<open>xorBytes\<close>, with its native-word, four-fold unrolled, cleanup and byte loops, on a host of
  either byte order, is the byte-wise XOR: it overwrites the first \<^verbatim>\<open>len(a)\<close> bytes of \<^verbatim>\<open>dst\<close> with
  the XOR of \<^verbatim>\<open>a\<close> and \<^verbatim>\<open>b\<close>, leaves the rest of \<^verbatim>\<open>dst\<close> alone, and panics exactly when \<^verbatim>\<open>dst\<close> or \<^verbatim>\<open>b\<close> is
  shorter than \<^verbatim>\<open>a\<close>.
\<close>

theorem xorBytes_is_bytewise:
  "xorBytes le dst a b =
     (if length a \<le> length dst \<and> length a \<le> length b
      then Ret (xor_list a b @ drop (length a) dst)
      else Panics (PanicMsg ''tickbatch: xorBytes: dst and b must each be at least len(a) bytes''))"
proof (cases "length a \<le> length dst \<and> length a \<le> length b")
  case True
  then show ?thesis using xorBytes_eq [of a dst b le] by simp
next
  case False
  then show ?thesis by (auto simp: xorBytes_def Let_def)
qed

end
