(* ===== verification/Engine_Flush.thy ===== *)
theory Engine_Flush
  imports Engine_Drain Codec Xor_Encode
begin

unbundle bit_operations_syntax

text \<open>
  The second half of \<^verbatim>\<open>batcher.go\<close>: \<^verbatim>\<open>reportError\<close>, \<^verbatim>\<open>flushWithTimeout\<close> and \<^verbatim>\<open>drainAndFlush\<close>. Each
  takes the world and the batcher and returns both updated (\<open>arr\<close>: the pushes during a drain). The time of \<^verbatim>\<open>time.Now()\<close> is the
  argument \<open>now\<close> (unix nanoseconds); \<open>le\<close> is the byte order of the host.
\<close>

section \<open>Operations\<close>

definition reportError ::
  "int \<Rightarrow> error \<Rightarrow> 's world \<Rightarrow> ('a, 's) Batcher \<Rightarrow> 's world \<times> ('a, 's) Batcher" where
  "reportError now err w b =
     (case OnFlushError (cfg b) of
        Some f \<Rightarrow> (w\<lparr>env := f (env w) err\<rparr>, b)
      | None \<Rightarrow>
          let last = lastLogTime b in
          if wrap64 (now - last) > 1000000000
          then (w\<lparr>slog := slog w @ [err]\<rparr>, b\<lparr>lastLogTime := now\<rparr>)
          else (w, b))"

text \<open>\<open>FlushParked\<close>: the drain goroutine is blocked in a \<^verbatim>\<open>Sink.Flush\<close> that does not return.\<close>

datatype flush_result = FlushReturned "error option" | FlushParked

definition flushWithTimeout ::
  "'s sink_ops \<Rightarrow> go_context \<Rightarrow> bytes \<Rightarrow> 's world \<Rightarrow> ('a, 's) Batcher \<Rightarrow>
   ('s world \<times> ('a, 's) Batcher \<times> flush_result) go" where
  "flushWithTimeout sink base payload w b =
     (if FlushTimeout (cfg b) = 0
      then (case Flush sink base payload (env w) of
              (s, Returns e) \<Rightarrow> Ret (w\<lparr>env := s\<rparr>, b, FlushReturned e)
            | (s, ReturnsUnstored e) \<Rightarrow> Ret (w\<lparr>env := s\<rparr>, b, FlushReturned e)
            | (s, Stalls) \<Rightarrow> Ret (w\<lparr>env := s\<rparr>, b, FlushParked))
      else
        let fctx = WithTimeout base (FlushTimeout (cfg b)) in
        if flushInFlight b then Ret (w, b, FlushReturned (Some ErrFlushTimeout))
        else
          let n = min (length (timeoutBuf b)) (length payload);
              b1 = b\<lparr>flushInFlight := True, timeoutBuf := go_copy (timeoutBuf b) payload\<rparr> in
          go_bind (go_slice (timeoutBuf b1) 0 (int n)) (\<lambda>snapshot.
          case Flush sink fctx snapshot (env w) of
            (s, Returns e) \<Rightarrow> Ret (w\<lparr>env := s\<rparr>, b1\<lparr>flushInFlight := False\<rparr>, FlushReturned e)
          | (s, ReturnsUnstored e) \<Rightarrow> Ret (w\<lparr>env := s\<rparr>, b1, FlushReturned e)
          | (s, Stalls) \<Rightarrow> Ret (w\<lparr>env := s\<rparr>, b1, FlushReturned (Some ErrFlushTimeout))))"

text \<open>The header: sequence number, item count and integrity tag, stored into the batch buffer.\<close>

definition stamp_header :: "u32 \<Rightarrow> nat \<Rightarrow> bool \<Rightarrow> int \<Rightarrow> bytes \<Rightarrow> bytes go" where
  "stamp_header seq n isKeyframe offset buf =
     go_bind (go_store buf 0 [ucast seq, ucast (drop_bit 8 seq), ucast (drop_bit 16 seq), ucast (drop_bit 24 seq)]) (\<lambda>buf1.
     let count = of_nat n :: u16 in
     go_bind (go_store buf1 4 [ucast count, ucast (drop_bit 8 count)]) (\<lambda>buf2.
     go_bind (go_slice buf2 8 offset) (\<lambda>body.
     let crc = ucast (ChecksumIEEE body AND 0x7fff) :: u16;
         crc16 = (if isKeyframe then crc OR 0x8000 else crc) in
     go_store buf2 6 (put_uint16 crc16))))"

text \<open>The optional compression of the payload.\<close>

definition compress_payload ::
  "bytes \<Rightarrow> 's world \<Rightarrow> ('a, 's) Batcher \<Rightarrow> 's world \<times> ('a, 's) Batcher \<times> (error + bytes)" where
  "compress_payload payload w b =
     (case Compressor (cfg b) of
        None \<Rightarrow> (w, b, Inr payload)
      | Some compress \<Rightarrow>
          (case compress (compressBuffer b) payload (env w) of
             (s, dst, cn, cerr) \<Rightarrow>
               let w1 = w\<lparr>env := s\<rparr>; b1 = b\<lparr>compressBuffer := go_copy (compressBuffer b) dst\<rparr> in
               case cerr of
                 Some err \<Rightarrow> (w1, b1, Inl err)
               | None \<Rightarrow>
                   if cn < 0 \<or> cn > int (length (compressBuffer b1)) then (w1, b1, Inl (ErrCompressRange cn))
                   else (w1, b1, Inr (take (nat cn) (compressBuffer b1)))))"

text \<open>Compression, \<^verbatim>\<open>flushWithTimeout\<close> and the error branch, which both encodings share.\<close>

datatype delivery = Delivered nat | Failed | ParkedInFlush

definition deliver ::
  "'s sink_ops \<Rightarrow> int \<Rightarrow> go_context \<Rightarrow> bytes \<Rightarrow> 's world \<Rightarrow> ('a, 's) Batcher \<Rightarrow>
   ('s world \<times> ('a, 's) Batcher \<times> delivery) go" where
  "deliver sink now base payload0 w0 b0 =
     (case compress_payload payload0 w0 b0 of
        (w, b, Inl cerr) \<Rightarrow> (case reportError now cerr w b of (w', b') \<Rightarrow> Ret (w', b', Failed))
      | (w, b, Inr payload) \<Rightarrow>
          go_bind (flushWithTimeout sink base payload w b) (\<lambda>(w1, b1, res).
          case res of
            FlushParked \<Rightarrow> Ret (w1, b1, ParkedInFlush)
          | FlushReturned (Some err) \<Rightarrow>
              (case reportError now err w1 (b1\<lparr>flushErrs := flushErrs b1 + 1\<rparr>) of
                 (w2, b2) \<Rightarrow> Ret (w2, b2, Failed))
          | FlushReturned None \<Rightarrow> Ret (w1, b1, Delivered (length payload))))"

text \<open>The counters of a successful flush.\<close>

definition count_success :: "int \<Rightarrow> nat \<Rightarrow> nat \<Rightarrow> ('a, 's) Batcher \<Rightarrow> ('a, 's) Batcher" where
  "count_success now n len b =
     b\<lparr>flushedBatches := flushedBatches b + 1, flushedItems := flushedItems b + of_nat n,
       bytesFlushed := bytesFlushed b + of_nat len, lastFlushAt := now\<rparr>"

text \<open>The payload of the delta path: the raw frame for a keyframe, else its XOR with the baseline.\<close>

definition delta_payload :: "bool \<Rightarrow> bool \<Rightarrow> int \<Rightarrow> ('a, 's) Batcher \<Rightarrow> (('a, 's) Batcher \<times> bytes) go" where
  "delta_payload le isKeyframe offset b =
     (if isKeyframe then go_bind (go_slice (byteBuffer b) 0 offset) (\<lambda>payload. Ret (b, payload))
      else
        go_bind (go_slice (deltaBuffer b) 0 offset) (\<lambda>dst.
        go_bind (go_slice (byteBuffer b) 0 offset) (\<lambda>a.
        go_bind (go_slice (previousState b) 0 offset) (\<lambda>p.
        go_bind (xorBytes le dst a p) (\<lambda>dst'.
        let b1 = b\<lparr>deltaBuffer := overwrite (deltaBuffer b) 0 dst'\<rparr> in
        go_bind (go_slice (deltaBuffer b1) 0 offset) (\<lambda>payload. Ret (b1, payload)))))))"

text \<open>The new baseline after a successful delta flush.\<close>

definition advance_baseline :: "int \<Rightarrow> int \<Rightarrow> ('a, 's) Batcher \<Rightarrow> ('a, 's) Batcher go" where
  "advance_baseline prevOffset offset b =
     go_bind (go_slice (previousState b) 0 offset) (\<lambda>dst.
     go_bind (go_slice (byteBuffer b) 0 offset) (\<lambda>src.
     let ps = overwrite (previousState b) 0 (go_copy dst src) in
     if prevOffset > offset
     then go_bind (go_slice ps offset prevOffset) (\<lambda>stale.
            Ret (b\<lparr>previousState := overwrite ps (nat offset) (replicate (length stale) 0)\<rparr>))
     else Ret (b\<lparr>previousState := ps\<rparr>)))"

definition next_keyframeN :: "'s Config \<Rightarrow> u32 \<Rightarrow> u32" where
  "next_keyframeN c k =
     (if KeyframeInterval c > 0 then (let k' = k + 1 in if k' \<ge> KeyframeInterval c then 0 else k') else k)"

datatype drain_status = Completed | Parked

definition drainAndFlush ::
  "'a marshal \<Rightarrow> bool \<Rightarrow> 'a list list \<Rightarrow> int \<Rightarrow> go_context \<Rightarrow> 's world \<Rightarrow> ('a, 's) Batcher \<Rightarrow> int \<Rightarrow> u32 \<Rightarrow>
   ('s world \<times> ('a, 's) Batcher \<times> int \<times> u32 \<times> drain_status) go" where
  "drainAndFlush marshal le arr now base w0 b0 prevOffset keyframeN =
     go_bind (drain_queue marshal arr b0) (\<lambda>(b, offset, n).
     case Sink (cfg b) of
       None \<Rightarrow> Ret (w0, b, prevOffset, keyframeN, Completed)
     | Some sink \<Rightarrow>
         if n = 0 then Ret (w0, b, prevOffset, keyframeN, Completed)
         else
           let seq = sequenceID b + 1;
               isKeyframe = (DeltaEncoding (cfg b) \<and> KeyframeInterval (cfg b) > 0 \<and> keyframeN = 0) in
           go_bind (stamp_header seq n isKeyframe offset (byteBuffer b)) (\<lambda>buf1.
           let b1 = b\<lparr>sequenceID := seq, byteBuffer := buf1\<rparr> in
           if \<not> DeltaEncoding (cfg b)
           then
             go_bind (go_slice (byteBuffer b1) 0 offset) (\<lambda>payload.
             go_bind (deliver sink now base payload w0 b1) (\<lambda>(w, b2, res).
             case res of
               ParkedInFlush \<Rightarrow> Ret (w, b2, prevOffset, keyframeN, Parked)
             | Failed \<Rightarrow> Ret (w, b2, prevOffset, keyframeN, Completed)
             | Delivered len \<Rightarrow> Ret (w, count_success now n len b2, prevOffset, keyframeN, Completed)))
           else
             go_bind (delta_payload le isKeyframe offset b1) (\<lambda>(b2, payload).
             go_bind (deliver sink now base payload w0 b2) (\<lambda>(w, b3, res).
             case res of
               ParkedInFlush \<Rightarrow> Ret (w, b3, prevOffset, keyframeN, Parked)
             | Failed \<Rightarrow> Ret (w, b3, prevOffset, keyframeN, Completed)
             | Delivered len \<Rightarrow>
                 go_bind (advance_baseline prevOffset offset b3) (\<lambda>b4.
                 Ret (w, count_success now n len b4, offset, next_keyframeN (cfg b4) keyframeN, Completed))))))"

section \<open>Lemmas\<close>

text \<open>The stamped buffer is the frame followed by what was behind it.\<close>

lemma stamp_header_eq:
  assumes "8 \<le> offset" and "offset \<le> int (length buf)"
  shows "stamp_header seq n key offset buf =
    (let body = take (nat offset - 8) (drop 8 buf) in
     Ret (mk_frame seq (of_nat n) (integrity_tag key body) body @ drop (nat offset) buf))"
proof -
  let ?body = "take (nat offset - 8) (drop 8 buf)"
  have len: "8 \<le> length buf" using assms by simp
  let ?b1 = "overwrite buf 0 (put_uint32 seq)" and ?c = "of_nat n :: u16"
  let ?b2 = "overwrite ?b1 4 (put_uint16 ?c)"
  have l1: "length ?b1 = length buf" using len by simp
  then have l2: "length ?b2 = length buf" using len by simp
  have d2: "drop 8 ?b2 = drop 8 buf" using len l1 by (simp add: drop_overwrite_after)
  have sl: "go_slice ?b2 8 offset = Ret ?body"
    using assms d2 l2 by (simp add: nat_diff_distrib)
  have b2: "?b2 = put_uint32 seq @ put_uint16 ?c @ drop 6 buf"
    using len by (simp add: overwrite_def)
  have "overwrite ?b2 6 t = put_uint32 seq @ put_uint16 ?c @ t @ drop 8 buf" if "length t = 2" for t
    unfolding b2 using that by (simp add: overwrite_def)
  moreover have "drop 8 buf = ?body @ drop (nat offset) buf"
  proof -
    have "drop (nat offset - 8) (drop 8 buf) = drop (nat offset) buf" using assms(1) by simp
    then show ?thesis by (metis append_take_drop_id)
  qed
  moreover have "stamp_header seq n key offset buf = go_store ?b2 6 (put_uint16 (integrity_tag key ?body))"
    unfolding stamp_header_def put_uint32_def [symmetric] Let_def put_uint16_def [of ?c, symmetric] integrity_tag_def
    using len l1 sl by simp
  ultimately show ?thesis using l2 len by (simp add: Let_def mk_frame_def)
qed

text \<open>Delivery touches the compression, timeout and error-reporting state only.\<close>

definition side_state :: "('a, 's) Batcher \<Rightarrow> ('a, 's) Batcher \<Rightarrow> bool" where
  "side_state b b' \<longleftrightarrow> ring b' = ring b \<and> byteBuffer b' = byteBuffer b \<and> previousState b' = previousState b \<and>
     deltaBuffer b' = deltaBuffer b \<and> cfg b' = cfg b \<and> started b' = started b \<and> dropped b' = dropped b \<and>
     sequenceID b' = sequenceID b \<and> truncated b' = truncated b \<and> flushedBatches b' = flushedBatches b \<and>
     flushedItems b' = flushedItems b \<and> bytesFlushed b' = bytesFlushed b \<and> lastFlushAt b' = lastFlushAt b \<and>
     coalescedTicks b' = coalescedTicks b \<and>
     length (compressBuffer b') = length (compressBuffer b) \<and> length (timeoutBuf b') = length (timeoutBuf b)"

lemma side_state_refl [simp]: "side_state b b"
  by (simp add: side_state_def)

lemma side_state_trans: "side_state a b \<Longrightarrow> side_state b c \<Longrightarrow> side_state a c"
  by (simp add: side_state_def)

lemma side_state_buffers: "side_state b b' \<Longrightarrow> buffers_ok b' = buffers_ok b"
  by (simp add: side_state_def buffers_ok_def Let_def)

lemma reportError_side: "side_state b (snd (reportError now err w b))"
  by (simp add: reportError_def Let_def side_state_def split: option.split)

lemma flushWithTimeout_side:
  "\<exists>w' b' res. flushWithTimeout sink base payload w b = Ret (w', b', res) \<and> side_state b b' \<and>
     (res = FlushParked \<longrightarrow> FlushTimeout (cfg b) = 0)"
proof -
  let ?tb = "go_copy (timeoutBuf b) payload" and ?n = "min (length (timeoutBuf b)) (length payload)"
  have "go_slice ?tb 0 (int ?n) = Ret (take ?n ?tb)" by simp
  then show ?thesis
    by (auto simp: flushWithTimeout_def Let_def side_state_def split: prod.split completion.split)
qed

lemma compress_payload_side: "side_state b (fst (snd (compress_payload payload w b)))"
  by (auto simp: compress_payload_def Let_def side_state_def split: prod.split option.split)

lemma compress_payload_bound:
  "compress_payload payload w b = (w', b', Inr p) \<Longrightarrow> Compressor (cfg b) \<noteq> None \<Longrightarrow>
   length p \<le> length (compressBuffer b)"
  by (auto simp: compress_payload_def Let_def split: prod.splits option.splits if_splits)

lemma deliver_side:
  "\<exists>w' b' res. deliver sink now base payload w b = Ret (w', b', res) \<and> side_state b b' \<and>
     (res = ParkedInFlush \<longrightarrow> FlushTimeout (cfg b) = 0)"
proof (cases "compress_payload payload w b")
  case (fields w1 b1 r1)
  have s1: "side_state b b1" using compress_payload_side [of b payload w] fields by simp
  show ?thesis
  proof (cases r1)
    case (Inl err)
    then show ?thesis
      using fields reportError_side [of b1 now err w1] side_state_trans [OF s1]
      by (auto simp: deliver_def split: prod.split)
  next
    case (Inr p)
    obtain w2 b2 res where f: "flushWithTimeout sink base p w1 b1 = Ret (w2, b2, res)" "side_state b1 b2"
      "res = FlushParked \<longrightarrow> FlushTimeout (cfg b1) = 0"
      using flushWithTimeout_side [of sink base p w1 b1] by blast
    note s2 = side_state_trans [OF s1 f(2)]
    have s3: "side_state b (snd (reportError now err w2 (b2\<lparr>flushErrs := flushErrs b2 + 1\<rparr>)))" for err
      by (rule side_state_trans [OF s2 side_state_trans [OF _ reportError_side]]) (simp add: side_state_def)
    have "cfg b1 = cfg b" using s1 by (simp add: side_state_def)
    then show ?thesis
      using Inr fields f(1,3) s2 s3
      by (cases res rule: flush_result.exhaust; cases "\<exists>err. res = FlushReturned (Some err)")
        (auto simp: deliver_def split: prod.split option.split; metis snd_conv)+
  qed
qed

text \<open>The delta payload and the advanced baseline, on buffers of the right size.\<close>

lemma delta_payload_eq:
  assumes "0 \<le> offset" and "offset \<le> int (length (byteBuffer b))"
    and "length (previousState b) = length (byteBuffer b)" and "length (deltaBuffer b) = length (byteBuffer b)"
  shows "\<exists>db. length db = length (deltaBuffer b) \<and> delta_payload le key offset b =
    Ret (b\<lparr>deltaBuffer := db\<rparr>,
      if key then take (nat offset) (byteBuffer b)
      else xor_list (take (nat offset) (byteBuffer b)) (take (nat offset) (previousState b)))"
proof (cases key)
  case True
  then show ?thesis using assms by (intro exI [of _ "deltaBuffer b"]) (simp add: delta_payload_def)
next
  case False
  let ?x = "xor_list (take (nat offset) (byteBuffer b)) (take (nat offset) (previousState b))"
  have n: "nat offset \<le> length (byteBuffer b)" using assms(2) by simp
  have "xorBytes le (take (nat offset) (deltaBuffer b)) (take (nat offset) (byteBuffer b)) (take (nat offset) (previousState b)) = Ret ?x"
    using assms(3,4) n by (subst xorBytes_eq) simp_all
  moreover have len: "length (overwrite (deltaBuffer b) 0 ?x) = length (deltaBuffer b)"
    using assms(3,4) n by simp
  moreover have "take (nat offset) (overwrite (deltaBuffer b) 0 ?x) = ?x"
    using assms(3) n by (simp add: overwrite_def)
  ultimately show ?thesis
    using False assms by (intro exI [of _ "overwrite (deltaBuffer b) 0 ?x"]) (simp add: delta_payload_def Let_def)
qed

text \<open>\<open>baseline b po prv\<close>: the baseline buffer holds \<open>prv\<close>, of length \<open>po\<close>, and zeros behind it.\<close>

definition baseline :: "('a, 's) Batcher \<Rightarrow> int \<Rightarrow> bytes \<Rightarrow> bool" where
  "baseline b po prv \<longleftrightarrow> po = int (length prv) \<and> length prv \<le> length (previousState b) \<and>
     previousState b = zext prv (length (previousState b))"

lemma take_zext: "n \<le> m \<Longrightarrow> take n (zext bs m) = zext bs n"
  by (simp add: zext_def min_def take_append)

lemma zext_replicate: "length bs \<le> n \<Longrightarrow> zext bs n = bs @ replicate (n - length bs) 0"
  by (simp add: zext_def min_absorb1)

lemma advance_baseline_eq:
  assumes "baseline b prevOffset prv" and "0 \<le> offset" and "offset \<le> int (length (byteBuffer b))"
    and "length (previousState b) = length (byteBuffer b)"
  shows "advance_baseline prevOffset offset b =
    Ret (b\<lparr>previousState := zext (take (nat offset) (byteBuffer b)) (length (previousState b))\<rparr>)"
proof -
  let ?L = "length (previousState b)" and ?raw = "take (nat offset) (byteBuffer b)" and ?n = "nat offset"
  have n: "?n \<le> ?L" using assms by simp
  have lr: "length ?raw = ?n" using n assms(4) by simp
  have po: "prevOffset = int (length prv)" "length prv \<le> ?L" "previousState b = zext prv ?L"
    using assms(1) by (simp_all add: baseline_def)
  have "drop ?n (previousState b) = drop ?n (prv @ replicate (?L - length prv) 0)"
    using po(2,3) by (metis zext_replicate)
  then have tail: "drop ?n (previousState b) = drop ?n prv @ replicate (?L - max ?n (length prv)) 0"
    using n po(2) by (auto simp: max_def)
  have ps: "overwrite (previousState b) 0 (go_copy (take ?n (previousState b)) ?raw) = ?raw @ drop ?n (previousState b)"
    using n lr assms(4) by (simp add: overwrite_def)
  show ?thesis
  proof (cases "prevOffset > offset")
    case True
    then have gt: "?n < length prv" using po(1) assms(2) by linarith
    have k: "length prv - ?n + (?L - length prv) = ?L - ?n" using gt po(2) by simp
    have "overwrite (?raw @ drop ?n (previousState b)) ?n (replicate (length prv - ?n) 0) = zext ?raw ?L"
      using gt lr n tail k by (simp add: overwrite_def zext_replicate max_def flip: replicate_add)
    then show ?thesis
      using True assms(2-4) ps po(1,2) lr n gt
      by (simp add: advance_baseline_def Let_def nat_diff_distrib)
  next
    case False
    then have "length prv \<le> ?n" using po(1) by linarith
    then have "?raw @ drop ?n (previousState b) = zext ?raw ?L"
      using tail lr n by (simp add: zext_replicate max_def)
    then show ?thesis
      using False assms(2-4) ps by (simp add: advance_baseline_def Let_def)
  qed
qed

text \<open>The raw frame, the keyframe decision and what goes on the wire before compression.\<close>

definition frame_body :: "bytes \<Rightarrow> int \<Rightarrow> bytes" where
  "frame_body buf offset = take (nat offset - 8) (drop 8 buf)"

definition sends_keyframe :: "'s Config \<Rightarrow> u32 \<Rightarrow> bool" where
  "sends_keyframe c keyframeN \<longleftrightarrow> DeltaEncoding c \<and> KeyframeInterval c > 0 \<and> keyframeN = 0"

definition raw_frame :: "('a, 's) Batcher \<Rightarrow> u32 \<Rightarrow> nat \<Rightarrow> bytes \<Rightarrow> bytes" where
  "raw_frame b keyframeN n body =
     mk_frame (sequenceID b + 1) (of_nat n) (integrity_tag (sends_keyframe (cfg b) keyframeN) body) body"

definition wire :: "('a, 's) Batcher \<Rightarrow> u32 \<Rightarrow> bytes \<Rightarrow> bytes" where
  "wire b keyframeN raw =
     (if DeltaEncoding (cfg b) \<and> \<not> sends_keyframe (cfg b) keyframeN
      then xor_list raw (take (length raw) (previousState b)) else raw)"

lemma length_frame_body: "8 \<le> offset \<Longrightarrow> offset \<le> int (length buf) \<Longrightarrow> length (frame_body buf offset) = nat offset - 8"
  by (simp add: frame_body_def)

text \<open>The two ways a drain goes: nothing to send, or one frame handed to \<open>deliver\<close>.\<close>

lemma drainAndFlush_idle:
  assumes col: "collects marshal arr b ys r d buf offset n trunc" and idle: "n = 0 \<or> Sink (cfg b) = None"
  shows "drainAndFlush marshal le arr now base w b po k =
      Ret (w, b\<lparr>ring := r, dropped := d, byteBuffer := buf, truncated := trunc\<rparr>, po, k, Completed)"
  using col idle by (auto simp: drainAndFlush_def collects_def Let_def split: option.split)

definition stamped :: "('a, 's) Batcher \<Rightarrow> 'a ringbuf \<Rightarrow> u64 \<Rightarrow> u64 \<Rightarrow> bytes \<Rightarrow> bytes \<Rightarrow> ('a, 's) Batcher" where
  "stamped b r d trunc buf db = b\<lparr>ring := r, dropped := d, truncated := trunc, sequenceID := sequenceID b + 1,
     byteBuffer := buf, deltaBuffer := db\<rparr>"

text \<open>The state after a delivered frame.\<close>

definition after_success :: "int \<Rightarrow> nat \<Rightarrow> nat \<Rightarrow> bytes \<Rightarrow> ('a, 's) Batcher \<Rightarrow> ('a, 's) Batcher" where
  "after_success now n len raw b = count_success now n len
     (if DeltaEncoding (cfg b) then b\<lparr>previousState := zext raw (length (previousState b))\<rparr> else b)"

definition conclude ::
  "int \<Rightarrow> nat \<Rightarrow> bytes \<Rightarrow> int \<Rightarrow> u32 \<Rightarrow> 's world \<times> ('a, 's) Batcher \<times> delivery \<Rightarrow>
   's world \<times> ('a, 's) Batcher \<times> int \<times> u32 \<times> drain_status" where
  "conclude now n raw po k x = (case x of (w, b, res) \<Rightarrow>
     (case res of
        ParkedInFlush \<Rightarrow> (w, b, po, k, Parked)
      | Failed \<Rightarrow> (w, b, po, k, Completed)
      | Delivered len \<Rightarrow> (w, after_success now n len raw b,
          if DeltaEncoding (cfg b) then int (length raw) else po,
          if DeltaEncoding (cfg b) then next_keyframeN (cfg b) k else k, Completed)))"

lemma length_raw_frame:
  "8 \<le> offset \<Longrightarrow> offset \<le> int (length buf) \<Longrightarrow> length (raw_frame b k n (frame_body buf offset)) = nat offset"
  using length_frame_body [of offset buf] by (simp add: raw_frame_def headerSize_def)

lemma drainAndFlush_stamped:
  assumes inv: "engine_inv b" and col: "collects marshal arr b ys r d buf offset n trunc"
    and send: "n \<noteq> 0" "Sink (cfg b) = Some sink"
    and raw: "raw = raw_frame b k n (frame_body buf offset)"
    and b1: "b1 = stamped b r d trunc (raw @ drop (nat offset) buf) (deltaBuffer b)"
  shows "drainAndFlush marshal le arr now base w b po k =
    (if \<not> DeltaEncoding (cfg b)
     then go_bind (deliver sink now base raw w b1) (\<lambda>x. Ret (conclude now n raw po k x))
     else go_bind (delta_payload le (sends_keyframe (cfg b) k) offset b1) (\<lambda>(b2, payload).
       go_bind (deliver sink now base payload w b2) (\<lambda>(w', b3, res).
       case res of
         ParkedInFlush \<Rightarrow> Ret (w', b3, po, k, Parked)
       | Failed \<Rightarrow> Ret (w', b3, po, k, Completed)
       | Delivered len \<Rightarrow> go_bind (advance_baseline po offset b3) (\<lambda>b4.
           Ret (w', count_success now n len b4, offset, next_keyframeN (cfg b4) k, Completed)))))"
proof -
  note bnd = collects_bounds [OF inv col]
  have stamp: "stamp_header (sequenceID b + 1) n (sends_keyframe (cfg b) k) offset buf = Ret (raw @ drop (nat offset) buf)"
    using stamp_header_eq [of offset buf "sequenceID b + 1" n "sends_keyframe (cfg b) k"] bnd
    by (simp add: raw raw_frame_def frame_body_def Let_def)
  have sl: "go_slice (raw @ drop (nat offset) buf) 0 offset = Ret raw"
    using bnd length_raw_frame [of offset buf b k n] by (simp add: raw go_slice_def)
  show ?thesis
  proof (cases "DeltaEncoding (cfg b)")
    case False
    obtain w' b2 res where del: "deliver sink now base raw w b1 = Ret (w', b2, res)" "side_state b1 b2"
      using deliver_side [of sink now base raw w b1] by blast
    have "cfg b2 = cfg b" using del(2) by (simp add: side_state_def b1 stamped_def)
    then show ?thesis
      using False send col del(1) sl stamp
      by (simp add: drainAndFlush_def collects_def sends_keyframe_def Let_def b1 stamped_def conclude_def after_success_def
          split: delivery.split)
  next
    case True
    then show ?thesis
      using send col sl stamp by (simp add: drainAndFlush_def collects_def sends_keyframe_def Let_def b1 stamped_def)
  qed
qed

lemma drainAndFlush_send:
  assumes inv: "engine_inv b" and base: "baseline b po prv"
    and col: "collects marshal arr b ys r d buf offset n trunc"
    and send: "n \<noteq> 0" "Sink (cfg b) = Some sink"
    and raw: "raw = raw_frame b k n (frame_body buf offset)"
  shows "\<exists>db w' b2 res. length db = length (deltaBuffer b) \<and>
    deliver sink now base (wire b k raw) w (stamped b r d trunc (raw @ drop (nat offset) buf) db) = Ret (w', b2, res) \<and>
    side_state (stamped b r d trunc (raw @ drop (nat offset) buf) db) b2 \<and>
    drainAndFlush marshal le arr now base w b po k = Ret (conclude now n raw po k (w', b2, res))"
proof -
  note bnd = collects_bounds [OF inv col]
  note step = drainAndFlush_stamped [OF inv col send raw refl, of le now base w po]
  let ?b = "stamped b r d trunc (raw @ drop (nat offset) buf)"
  have len: "length raw = nat offset" using length_raw_frame [of offset buf b k n] bnd by (simp add: raw)
  show ?thesis
  proof (cases "DeltaEncoding (cfg b)")
    case False
    then have "wire b k raw = raw" by (simp add: wire_def)
    with False step deliver_side [of sink now base raw w "?b (deltaBuffer b)"] show ?thesis by fastforce
  next
    case True
    note sz = engine_sizes(1-3) [OF inv] and tr = True
    have "length (raw @ drop (nat offset) buf) = length (byteBuffer b)" using len bnd by simp
    then obtain db where db: "length db = length (deltaBuffer b)"
      "delta_payload le (sends_keyframe (cfg b) k) offset (?b (deltaBuffer b)) = Ret (?b db, wire b k raw)"
      using delta_payload_eq [of offset "?b (deltaBuffer b)" le "sends_keyframe (cfg b) k"] sz tr bnd len
      by (auto simp: stamped_def wire_def)
    obtain w' b2 res where del: "deliver sink now base (wire b k raw) w (?b db) = Ret (w', b2, res)" "side_state (?b db) b2"
      using deliver_side [of sink now base "wire b k raw" w "?b db"] by blast
    have "advance_baseline po offset b2 = Ret (b2\<lparr>previousState := zext raw (length (previousState b2))\<rparr>)"
      using advance_baseline_eq [of b2 po prv offset] del(2) base sz(2) [OF tr] bnd len
      by (simp add: side_state_def stamped_def baseline_def)
    moreover have "int (length raw) = offset" using len bnd by simp
    ultimately have "drainAndFlush marshal le arr now base w b po k = Ret (conclude now n raw po k (w', b2, res))"
      using step tr db del by (simp add: conclude_def after_success_def side_state_def stamped_def split: delivery.split)
    with db(1) del show ?thesis by blast
  qed
qed

text \<open>The two shapes of a drain: nothing to send, or one delivery of the stamped frame.\<close>

lemma drain_outcome:
  assumes inv: "engine_inv b" and base: "baseline b po prv" and col: "collects marshal arr b ys r d buf offset n trunc"
  obtains (idle) "n = 0 \<or> Sink (cfg b) = None" and
      "drainAndFlush marshal le arr now ctx w b po k =
        Ret (w, b\<lparr>ring := r, dropped := d, byteBuffer := buf, truncated := trunc\<rparr>, po, k, Completed)"
  | (send) sink raw db w2 b2 res where "n \<noteq> 0" and "Sink (cfg b) = Some sink"
      and "raw = raw_frame b k n (frame_body buf offset)" and "length raw = nat offset" and "length db = length (deltaBuffer b)"
      and "deliver sink now ctx (wire b k raw) w (stamped b r d trunc (raw @ drop (nat offset) buf) db) = Ret (w2, b2, res)"
      and "side_state (stamped b r d trunc (raw @ drop (nat offset) buf) db) b2"
      and "drainAndFlush marshal le arr now ctx w b po k = Ret (conclude now n raw po k (w2, b2, res))"
proof (cases "n = 0 \<or> Sink (cfg b) = None")
  case True
  then show thesis using idle drainAndFlush_idle [OF col True] by blast
next
  case False
  then obtain sink where "n \<noteq> 0" "Sink (cfg b) = Some sink" by auto
  moreover have "length (raw_frame b k n (frame_body buf offset)) = nat offset"
    using length_raw_frame [of offset buf b k n] collects_bounds(1-3) [OF inv col] by simp
  ultimately show thesis
    using drainAndFlush_send [OF inv base col _ _ refl, of sink now ctx k w le] send by blast
qed

end
