(* ===== verification/Flush_Concurrent.thy ===== *)
theory Flush_Concurrent
  imports Engine_Flush Transition_System
begin

text \<open>
  \<^verbatim>\<open>flushWithTimeout\<close> (\<^verbatim>\<open>batcher.go\<close>) with a timeout, at the level of single operations: the drain
  goroutine that calls it again and again, the goroutines it starts, which read the snapshot
  inside \<^verbatim>\<open>Sink.Flush\<close> and may outlive the call, their result channels and the deadlines. It is
  shown that the sink is never entered twice at a time, that each \<^verbatim>\<open>Sink.Flush\<close> reads exactly the
  bytes of its call's payload, and that the operation is what \<open>Engine_Flush\<close> takes it to be in one step.
\<close>

section \<open>Goroutines\<close>

text \<open>The drain goroutine: before the compare-and-swap of \<^verbatim>\<open>flushInFlight\<close>, copying byte \<open>i\<close> of the
  payload into \<^verbatim>\<open>timeoutBuf\<close>, in the \<^verbatim>\<open>select\<close> of call \<open>g\<close>, returned.\<close>

datatype caller_pc =
    FIdle
  | FCas bytes
  | FCopy bytes nat
  | FSelect nat
  | FRet "error option"

text \<open>The goroutine of call \<open>g\<close>: inside \<^verbatim>\<open>Sink.Flush\<close> with a snapshot of \<open>n\<close> bytes and the reads it has
  made of it (index and byte), sending the result, clearing \<^verbatim>\<open>flushInFlight\<close>.\<close>

datatype flusher_pc =
    GNone
  | GFlush nat "(nat \<times> byte) list"
  | GSend "error option"
  | GStore
  | GDone

text \<open>\<open>given\<close>, \<open>handed\<close>, \<open>sunk\<close> and \<open>kept\<close> are history variables: the payload of each call that has
  started a goroutine, the snapshot that goroutine was started with, what its \<^verbatim>\<open>Sink.Flush\<close> returned,
  and the contents of \<^verbatim>\<open>timeoutBuf\<close> before the current copy.\<close>

record flushing =
  inFlight :: bool
  snapBuf :: bytes
  caller :: caller_pc
  flusher :: "nat \<Rightarrow> flusher_pc"
  chan :: "nat \<rightharpoonup> error option"
  expired :: "nat \<Rightarrow> bool"
  started_calls :: nat
  given :: "nat \<Rightarrow> bytes"
  handed :: "nat \<Rightarrow> bytes"
  sunk :: "nat \<rightharpoonup> error option"
  kept :: bytes

definition init_flushing :: "bytes \<Rightarrow> flushing" where
  "init_flushing buf = \<lparr>inFlight = False, snapBuf = buf, caller = FIdle, flusher = (\<lambda>_. GNone), chan = Map.empty,
     expired = (\<lambda>_. False), started_calls = 0, given = (\<lambda>_. []), handed = (\<lambda>_. []), sunk = Map.empty, kept = buf\<rparr>"

datatype flush_action =
    Call bytes
  | Step                              \<comment> \<open>the drain goroutine's next operation before its select\<close>
  | Receive                           \<comment> \<open>select takes the result\<close>
  | TimeOut                           \<comment> \<open>select takes fctx.Done()\<close>
  | Expire nat                        \<comment> \<open>the deadline of a call passes\<close>
  | ReadByte nat nat                  \<comment> \<open>the sink reads a byte of the snapshot\<close>
  | SinkReturns nat "error option"
  | Send nat
  | Clear nat                         \<comment> \<open>flushInFlight.Store(false)\<close>

fun flush_act :: "flush_action \<Rightarrow> flushing \<Rightarrow> flushing option" where
  "flush_act (Call payload) s =
     (case caller s of FIdle \<Rightarrow> Some (s\<lparr>caller := FCas payload\<rparr>) | FRet e \<Rightarrow> Some (s\<lparr>caller := FCas payload\<rparr>) | _ \<Rightarrow> None)"
| "flush_act Step s =
     (case caller s of
        FCas payload \<Rightarrow>
          if inFlight s
          then Some (s\<lparr>caller := FRet (Some ErrFlushTimeout)\<rparr>)
          else Some (s\<lparr>inFlight := True, caller := FCopy payload 0, kept := snapBuf s\<rparr>)
      | FCopy payload i \<Rightarrow>
          let n = min (length (snapBuf s)) (length payload); g = started_calls s in
          if i < n then Some (s\<lparr>snapBuf := (snapBuf s)[i := payload ! i], caller := FCopy payload (i + 1)\<rparr>)
          else Some (s\<lparr>flusher := (flusher s)(g := GFlush n []), caller := FSelect g, started_calls := g + 1,
                       given := (given s)(g := payload), handed := (handed s)(g := take n (snapBuf s))\<rparr>)
      | _ \<Rightarrow> None)"
| "flush_act Receive s =
     (case caller s of
        FSelect g \<Rightarrow> 
          (case chan s g of
             None \<Rightarrow> None
           | Some e \<Rightarrow> Some (s\<lparr>chan := (chan s)(g := None), caller := FRet e\<rparr>))
      | _ \<Rightarrow> None)"
| "flush_act TimeOut s =
     (case caller s of
        FSelect g \<Rightarrow>
          if expired s g
          then Some (s\<lparr>caller := FRet (Some ErrFlushTimeout)\<rparr>)
          else None
      | _ \<Rightarrow> None)"
| "flush_act (Expire g) s = Some (s\<lparr>expired := (expired s)(g := True)\<rparr>)"
| "flush_act (ReadByte g i) s =
     (case flusher s g of
        GFlush n rs \<Rightarrow>
          if i < n then Some (s\<lparr>flusher := (flusher s)(g := GFlush n (rs @ [(i, snapBuf s ! i)]))\<rparr>) else None
      | _ \<Rightarrow> None)"
| "flush_act (SinkReturns g e) s =
     (case flusher s g of GFlush n rs \<Rightarrow> Some (s\<lparr>flusher := (flusher s)(g := GSend e), sunk := (sunk s)(g \<mapsto> e)\<rparr>) | _ \<Rightarrow> None)"
| "flush_act (Send g) s =
     (case flusher s g of
        GSend e \<Rightarrow> (case chan s g of None \<Rightarrow> Some (s\<lparr>chan := (chan s)(g \<mapsto> e), flusher := (flusher s)(g := GStore)\<rparr>) | Some _ \<Rightarrow> None)
      | _ \<Rightarrow> None)"
| "flush_act (Clear g) s =
     (case flusher s g of GStore \<Rightarrow> Some (s\<lparr>inFlight := False, flusher := (flusher s)(g := GDone)\<rparr>) | _ \<Rightarrow> None)"

inductive flush_step :: "flushing \<Rightarrow> flushing \<Rightarrow> bool" where
  act: "flush_act a s = Some s' \<Longrightarrow> flush_step s s'"

inductive_cases flush_stepE: "flush_step s s'"

section \<open>The invariant\<close>

text \<open>The goroutine that \<^verbatim>\<open>flushInFlight\<close> stands for: between its start and its clearing of the flag.\<close>

definition active :: "flushing \<Rightarrow> nat \<Rightarrow> bool" where
  "active s g \<longleftrightarrow> flusher s g \<noteq> GNone \<and> flusher s g \<noteq> GDone"

text \<open>What the drain goroutine knows, for \<open>busy\<close> saying whether some flush goroutine is active.\<close>

fun caller_ok :: "flushing \<Rightarrow> caller_pc \<Rightarrow> bool" where
  "caller_ok s (FCopy p i) = (inFlight s \<and> (\<forall>g. \<not> active s g) \<and> i \<le> length (kept s) \<and> i \<le> length p \<and>
     snapBuf s = take i p @ drop i (kept s))"
| "caller_ok s (FSelect g) = (started_calls s = Suc g \<and> flusher s g \<noteq> GNone \<and> snapBuf s = go_copy (kept s) (given s g) \<and>
     handed s g = take (min (length (kept s)) (length (given s g))) (snapBuf s) \<and>
     (inFlight s \<longleftrightarrow> flusher s g \<noteq> GDone) \<and> (\<forall>h. active s h \<longrightarrow> h = g) \<and>
     (chan s g \<noteq> None \<longrightarrow> flusher s g = GStore \<or> flusher s g = GDone))"
| "caller_ok s c = True"

definition flusher_ok :: "flushing \<Rightarrow> nat \<Rightarrow> bool" where
  "flusher_ok s g \<longleftrightarrow>
     (case flusher s g of
        GFlush n rs \<Rightarrow> n = min (length (snapBuf s)) (length (given s g)) \<and> take n (snapBuf s) = take n (given s g) \<and>
          (\<forall>(i, v) \<in> set rs. i < n \<and> v = given s g ! i) \<and> chan s g = None
      | GSend e \<Rightarrow> chan s g = None \<and> sunk s g = Some e
      | _ \<Rightarrow> True)"

definition flush_inv :: "flushing \<Rightarrow> bool" where
  "flush_inv s \<longleftrightarrow>
     (\<forall>g. active s g \<longrightarrow> inFlight s \<and> g < started_calls s) \<and> (\<forall>g h. active s g \<longrightarrow> active s h \<longrightarrow> g = h) \<and>
     (inFlight s \<longrightarrow> (\<exists>g. active s g) \<or> (\<exists>p i. caller s = FCopy p i)) \<and>
     (\<forall>g \<ge> started_calls s. flusher s g = GNone \<and> chan s g = None) \<and>
     caller_ok s (caller s) \<and> (\<forall>g. flusher_ok s g) \<and> (\<forall>g e. chan s g = Some e \<longrightarrow> sunk s g = Some e)"

lemma init_flush_inv: "flush_inv (init_flushing buf)"
  by (simp add: flush_inv_def init_flushing_def active_def flusher_ok_def)

lemma flush_invD:
  assumes "flush_inv s"
  shows "active s g \<Longrightarrow> inFlight s" and "active s g \<Longrightarrow> g < started_calls s" and "active s g \<Longrightarrow> active s h \<Longrightarrow> g = h"
    and "inFlight s \<Longrightarrow> (\<exists>g. active s g) \<or> (\<exists>p i. caller s = FCopy p i)"
    and "started_calls s \<le> g \<Longrightarrow> flusher s g = GNone" and "started_calls s \<le> g \<Longrightarrow> chan s g = None"
    and "caller_ok s (caller s)" and "flusher_ok s g" and "chan s g = Some e \<Longrightarrow> sunk s g = Some e"
  using assms by (auto simp: flush_inv_def)

lemma flushing_simps [simp]:
  "active (s\<lparr>inFlight := f\<rparr>) g = active s g" "active (s\<lparr>caller := c\<rparr>) g = active s g" "active (s\<lparr>kept := k\<rparr>) g = active s g"
  "active (s\<lparr>handed := sn\<rparr>) g = active s g" "active (s\<lparr>snapBuf := k\<rparr>) g = active s g" "active (s\<lparr>expired := x\<rparr>) g = active s g"
  "active (s\<lparr>started_calls := n\<rparr>) g = active s g" "active (s\<lparr>given := v\<rparr>) g = active s g" "active (s\<lparr>sunk := v'\<rparr>) g = active s g" "active (s\<lparr>chan := ch\<rparr>) g = active s g"
  "flusher_ok (s\<lparr>inFlight := f\<rparr>) g = flusher_ok s g" "flusher_ok (s\<lparr>caller := c\<rparr>) g = flusher_ok s g"
  "flusher_ok (s\<lparr>kept := k\<rparr>) g = flusher_ok s g" "flusher_ok (s\<lparr>handed := sn\<rparr>) g = flusher_ok s g"
  "flusher_ok (s\<lparr>expired := x\<rparr>) g = flusher_ok s g" "flusher_ok (s\<lparr>started_calls := n\<rparr>) g = flusher_ok s g"
  by (simp_all add: active_def flusher_ok_def split: flusher_pc.split)

lemma active_update: "active (s\<lparr>flusher := (flusher s)(g := c)\<rparr>) h = (if h = g then c \<noteq> GNone \<and> c \<noteq> GDone else active s h)"
  by (simp add: active_def)

lemma idle_ok: "\<not> active s g \<Longrightarrow> flusher_ok s g"
  by (auto simp: active_def flusher_ok_def)

text \<open>The drain goroutine moves on without touching what others rely on.\<close>

lemma inv_caller:
  assumes "flush_inv s" and "\<And>p i. caller s \<noteq> FCopy p i" and "c = FIdle \<or> (\<exists>p. c = FCas p) \<or> (\<exists>e. c = FRet e)"
  shows "flush_inv (s\<lparr>caller := c\<rparr>)"
  using assms by (auto simp: flush_inv_def)

lemma inv_receive:
  assumes inv: "flush_inv s" and c: "caller s = FSelect g"
  shows "flush_inv (s\<lparr>chan := (chan s)(g := None), caller := FRet e\<rparr>)"
proof -
  have "flusher_ok (s\<lparr>chan := (chan s)(g := None)\<rparr>) h" for h
    using flush_invD(8) [OF inv, of h] by (auto simp: flusher_ok_def split: flusher_pc.splits)
  with inv c show ?thesis by (auto simp: flush_inv_def)
qed

lemma inv_cas:
  assumes inv: "flush_inv s" and free: "\<not> inFlight s"
  shows "flush_inv (s\<lparr>inFlight := True, caller := FCopy p 0, kept := snapBuf s\<rparr>)"
  using inv free by (auto simp: flush_inv_def)

lemma inv_copy:
  assumes inv: "flush_inv s" and c: "caller s = FCopy p i" and i: "i < length (snapBuf s)" "i < length p"
  shows "flush_inv (s\<lparr>snapBuf := (snapBuf s)[i := p ! i], caller := FCopy p (i + 1)\<rparr>)"
proof -
  have k: "\<forall>g. \<not> active s g" "inFlight s" "snapBuf s = take i p @ drop i (kept s)" "i \<le> length (kept s)"
    using flush_invD(7) [OF inv] c by simp_all
  have lt: "i < length (kept s)" using i k(3) by simp
  then have "drop i (kept s) = kept s ! i # drop (i + 1) (kept s)" by (simp add: Cons_nth_drop_Suc)
  then have "(take i p @ drop i (kept s))[i := p ! i] = take (i + 1) p @ drop (i + 1) (kept s)"
    using i by (simp add: list_update_append take_Suc_conv_app_nth min_def)
  then show ?thesis using inv k i lt by (simp add: flush_inv_def idle_ok)
qed

lemma inv_spawn:
  assumes inv: "flush_inv s" and c: "caller s = FCopy p i" and n: "n = min (length (snapBuf s)) (length p)" "\<not> i < n"
    and g: "g = started_calls s"
  shows "flush_inv (s\<lparr>flusher := (flusher s)(g := GFlush n []), caller := FSelect g, started_calls := g + 1, given := (given s)(g := p),
      handed := (handed s)(g := take n (snapBuf s))\<rparr>)"
    (is "flush_inv ?s")
proof -
  have k: "\<forall>g. \<not> active s g" "inFlight s" "snapBuf s = take i p @ drop i (kept s)" "i \<le> length (kept s)" "i \<le> length p"
    using flush_invD(7) [OF inv] c by simp_all
  then have "length (snapBuf s) = length (kept s)" by simp
  with n k have i: "i = n" "n = min (length (kept s)) (length p)" by auto
  then have copy: "snapBuf s = go_copy (kept s) p"
    unfolding k(3) go_copy_def by (cases "length p \<le> length (kept s)") auto
  have act: "active ?s h \<longleftrightarrow> h = g" for h using k(1) by (simp add: active_def)
  have new: "chan s g = None" using flush_invD(6) [OF inv] g by simp
  have "take n (snapBuf s) = take n p" using k(3) i n by simp
  then have "flusher_ok ?s g" using n new by (simp add: flusher_ok_def)
  then have "flusher_ok ?s h" for h using idle_ok [of ?s h] act [of h] by metis
  moreover have "caller_ok ?s (FSelect g)" using copy k(2) act g new by (simp flip: i(2))
  moreover have "flusher ?s h = GNone \<and> chan s h = None" if "g + 1 \<le> h" for h
    using that flush_invD(5,6) [OF inv, of h] g by simp
  ultimately show ?thesis using act k(2) g i(2) flush_invD(9) [OF inv] by (simp add: flush_inv_def)
qed

text \<open>A flush goroutine moves on and stays active.\<close>

lemma inv_flusher:
  assumes inv: "flush_inv s" and g: "active s g" and c: "c \<noteq> GNone" "c \<noteq> GDone"
    and ok: "flusher_ok (s\<lparr>chan := ch, flusher := (flusher s)(g := c), sunk := sk\<rparr>) g"
    and ch: "\<And>h. h \<noteq> g \<Longrightarrow> ch h = chan s h" "ch g \<noteq> None \<Longrightarrow> c = GStore"
    and sk: "\<And>h. h \<noteq> g \<Longrightarrow> sk h = sunk s h" "\<And>e. ch g = Some e \<Longrightarrow> sk g = Some e"
  shows "flush_inv (s\<lparr>chan := ch, flusher := (flusher s)(g := c), sunk := sk\<rparr>)" (is "flush_inv ?s")
proof -
  have act: "active ?s h = active s h" for h using g c by (simp add: active_def)
  have "flusher_ok ?s h" for h
    using ok idle_ok [of ?s h] act flush_invD(3) [OF inv g, of h] by (cases "h = g") auto
  moreover have "caller_ok ?s (caller s)"
  proof (cases "caller s")
    case (FSelect h)
    then have sel: "caller_ok s (FSelect h)" using flush_invD(7) [OF inv] by simp
    with g have "h = g" by simp
    then show ?thesis
      using sel c ch(2) flush_invD(1) [OF inv g] unfolding FSelect caller_ok.simps act by simp
  qed (use flush_invD(7) [OF inv] act in simp_all)
  moreover have "flusher ?s h = GNone \<and> ch h = None" if "started_calls s \<le> h" for h
    using that flush_invD(2) [OF inv g] flush_invD(5,6) [OF inv that] ch(1) [of h] by auto
  moreover have "sk h = Some e" if "ch h = Some e" for h e
    using that ch(1) [of h] sk flush_invD(9) [OF inv, of h e] by (cases "h = g") auto
  ultimately show ?thesis using inv act by (simp add: flush_inv_def)
qed

lemma flusher_reads:
  assumes "flush_inv s" and "flusher s g = GFlush n rs"
  shows "n = min (length (snapBuf s)) (length (given s g))" and "take n (snapBuf s) = take n (given s g)"
    and "\<forall>(i, v) \<in> set rs. i < n \<and> v = given s g ! i" and "chan s g = None"
proof -
  have "n = min (length (snapBuf s)) (length (given s g)) \<and> take n (snapBuf s) = take n (given s g) \<and>
      (\<forall>(i, v) \<in> set rs. i < n \<and> v = given s g ! i) \<and> chan s g = None"
    using flush_invD(8) [OF assms(1), of g] unfolding flusher_ok_def assms(2) flusher_pc.case .
  then show "n = min (length (snapBuf s)) (length (given s g))" and "take n (snapBuf s) = take n (given s g)"
    and "\<forall>(i, v) \<in> set rs. i < n \<and> v = given s g ! i" and "chan s g = None" by blast+
qed

lemma flusher_byte: "flush_inv s \<Longrightarrow> flusher s g = GFlush n rs \<Longrightarrow> i < n \<Longrightarrow> snapBuf s ! i = given s g ! i"
  using flusher_reads(2) [of s g n rs] by (metis nth_take)

lemma inv_read:
  assumes inv: "flush_inv s" and f: "flusher s g = GFlush n rs" and i: "i < n"
  shows "flush_inv (s\<lparr>flusher := (flusher s)(g := GFlush n (rs @ [(i, snapBuf s ! i)]))\<rparr>)"
proof -
  note ok = flusher_reads [OF inv f]
  have "flusher_ok (s\<lparr>chan := chan s, flusher := (flusher s)(g := GFlush n (rs @ [(i, snapBuf s ! i)])), sunk := sunk s\<rparr>) g"
    using ok(2-4) i flusher_byte [OF inv f i] by (simp add: flusher_ok_def flip: ok(1))
  from inv_flusher [OF inv _ _ _ this] f ok(4) show ?thesis by (simp add: active_def)
qed

lemma inv_return:
  assumes inv: "flush_inv s" and f: "flusher s g = GFlush n rs"
  shows "flush_inv (s\<lparr>flusher := (flusher s)(g := GSend e), sunk := (sunk s)(g \<mapsto> e)\<rparr>)"
proof -
  have "flush_inv (s\<lparr>chan := chan s, flusher := (flusher s)(g := GSend e), sunk := (sunk s)(g \<mapsto> e)\<rparr>)"
    using f flusher_reads(4) [OF inv f] by (intro inv_flusher [OF inv]) (auto simp: flusher_ok_def active_def)
  then show ?thesis by simp
qed

lemma inv_send:
  assumes inv: "flush_inv s" and f: "flusher s g = GSend e"
  shows "flush_inv (s\<lparr>chan := (chan s)(g \<mapsto> e), flusher := (flusher s)(g := GStore)\<rparr>)"
proof -
  have "sunk s g = Some e" using flush_invD(8) [OF inv, of g] f by (simp add: flusher_ok_def)
  with f have "flush_inv (s\<lparr>chan := (chan s)(g \<mapsto> e), flusher := (flusher s)(g := GStore), sunk := sunk s\<rparr>)"
    by (intro inv_flusher [OF inv]) (auto simp: flusher_ok_def active_def)
  then show ?thesis by simp
qed

lemma inv_clear:
  assumes inv: "flush_inv s" and g: "flusher s g = GStore"
  shows "flush_inv (s\<lparr>inFlight := False, flusher := (flusher s)(g := GDone)\<rparr>)" (is "flush_inv ?s")
proof -
  have a: "active s g" using g by (simp add: active_def)
  have act: "\<not> active ?s h" for h using flush_invD(3) [OF inv a, of h] by (auto simp: active_def)
  have "caller_ok ?s (caller s)"
  proof (cases "caller s")
    case (FSelect h)
    then have sel: "caller_ok s (FSelect h)" using flush_invD(7) [OF inv] by simp
    with a have "h = g" by simp
    with FSelect sel act show ?thesis by simp
  next
    case (FCopy p i)
    then have "caller_ok s (FCopy p i)" using flush_invD(7) [OF inv] by simp
    with a show ?thesis by simp
  qed simp_all
  moreover have "flusher ?s h = GNone" if "started_calls s \<le> h" for h
    using that flush_invD(2) [OF inv a] flush_invD(5) [OF inv that] by auto
  ultimately show ?thesis using inv act idle_ok [OF act] flush_invD(6) [OF inv] by (simp add: flush_inv_def)
qed

lemma inv_act:
  assumes inv: "flush_inv s" and a: "flush_act a s = Some s'"
  shows "flush_inv s'"
proof (cases a)
  case (Call p)
  from inv_caller [OF inv, of "FCas p"] a Call show ?thesis by (auto split: caller_pc.splits)
next
  case Step
  with a show ?thesis
    using inv_caller [OF inv, of "FRet (Some ErrFlushTimeout)"] inv_cas [OF inv] inv_copy [OF inv] inv_spawn [OF inv _ refl _ refl]
    by (auto simp: Let_def split: caller_pc.splits if_splits)
next
  case Receive
  with a inv_receive [OF inv] show ?thesis by (auto split: caller_pc.splits option.splits)
next
  case TimeOut
  with a inv_caller [OF inv] show ?thesis by (auto split: caller_pc.splits if_splits)
next
  case (Expire g)
  have "caller_ok (s\<lparr>expired := x\<rparr>) c = caller_ok s c" for x c by (cases c) simp_all
  with a Expire inv show ?thesis by (auto simp: flush_inv_def)
next
  case (ReadByte g i)
  with a inv_read [OF inv] show ?thesis by (auto split: flusher_pc.splits if_splits)
next
  case (SinkReturns g e)
  with a inv_return [OF inv] show ?thesis by (auto split: flusher_pc.splits)
next
  case (Send g)
  with a inv_send [OF inv] show ?thesis by (auto split: flusher_pc.splits option.splits)
next
  case (Clear g)
  with a inv_clear [OF inv] show ?thesis by (auto split: flusher_pc.splits)
qed

interpretation flush: guarded_invariant flush_step "\<lambda>_. True" flush_inv
  by unfold_locales (auto elim!: flush_stepE intro: inv_act)

lemma reached_inv: "flush_step\<^sup>*\<^sup>* (init_flushing buf) s \<Longrightarrow> flush_inv s"
  by (rule flush.good_steps [OF _ init_flush_inv TrueI])

section \<open>Schedules\<close>

fun run_flush :: "flush_action list \<Rightarrow> flushing \<Rightarrow> flushing option" where
  "run_flush [] s = Some s"
| "run_flush (a # as) s = Option.bind (flush_act a s) (run_flush as)"

lemma run_flush_steps: "run_flush as s = Some s' \<Longrightarrow> flush_step\<^sup>*\<^sup>* s s'"
  by (induction as arbitrary: s) (auto simp: bind_eq_Some_conv intro: converse_rtranclp_into_rtranclp flush_step.act)

section \<open>Properties\<close>

text \<open>
  C8: \<^verbatim>\<open>flushWithTimeout\<close> under any interleaving of its goroutines, for any number of calls that time
  out or not: at most one goroutine is inside \<^verbatim>\<open>Sink.Flush\<close>; while it is, \<^verbatim>\<open>timeoutBuf\<close> is not being written
  and every byte it reads, however late, is the byte of the payload its own call was given; and no
  goroutine that has left \<^verbatim>\<open>Sink.Flush\<close> blocks on its result channel. A call that takes a result from its
  channel returns what its own \<^verbatim>\<open>Sink.Flush\<close> returned.
\<close>

theorem flush_goroutines_safe:
  assumes "flush_step\<^sup>*\<^sup>* (init_flushing buf) s"
  shows "(\<forall>g h n m rs qs. flusher s g = GFlush n rs \<and> flusher s h = GFlush m qs \<longrightarrow> g = h) \<and>
    (\<forall>g n rs. flusher s g = GFlush n rs \<longrightarrow> inFlight s \<and> (\<forall>p i. caller s \<noteq> FCopy p i) \<and>
       (\<forall>i < n. snapBuf s ! i = given s g ! i) \<and> (\<forall>(i, v) \<in> set rs. i < length (given s g) \<and> v = given s g ! i)) \<and>
    (\<forall>g e. flusher s g = GSend e \<longrightarrow> flush_act (Send g) s \<noteq> None) \<and>
    (\<forall>s'. flush_act Receive s = Some s' \<longrightarrow> (\<exists>g e. caller s = FSelect g \<and> sunk s g = Some e \<and> caller s' = FRet e))"
proof -
  note inv = reached_inv [OF assms]
  have act: "active s g" if "flusher s g = GFlush n rs" for g n rs using that by (simp add: active_def)
  have reads: "inFlight s \<and> (\<forall>p i. caller s \<noteq> FCopy p i) \<and> (\<forall>i < n. snapBuf s ! i = given s g ! i) \<and>
      (\<forall>(i, v) \<in> set rs. i < length (given s g) \<and> v = given s g ! i)" if f: "flusher s g = GFlush n rs" for g n rs
  proof -
    have "snapBuf s ! i = given s g ! i" if "i < n" for i by (rule flusher_byte [OF inv f that])
    moreover have "caller s \<noteq> FCopy p i" for p i
    proof
      assume "caller s = FCopy p i"
      then have "caller_ok s (FCopy p i)" using flush_invD(7) [OF inv] by simp
      with act [OF f] show False by simp
    qed
    moreover have "\<forall>(i, v) \<in> set rs. i < length (given s g) \<and> v = given s g ! i"
      using flusher_reads(1,3) [OF inv f] by auto
    ultimately show ?thesis using flush_invD(1) [OF inv act [OF f]] by blast
  qed
  have one: "g = h" if "flusher s g = GFlush n rs \<and> flusher s h = GFlush m qs" for g h n m rs qs
    using flush_invD(3) [OF inv] act that by blast
  have "flush_act (Send g) s \<noteq> None" if "flusher s g = GSend e" for g e
    using flush_invD(8) [OF inv, of g] that by (simp add: flusher_ok_def)
  then have send: "\<forall>g e. flusher s g = GSend e \<longrightarrow> flush_act (Send g) s \<noteq> None" by blast
  have "\<exists>g e. caller s = FSelect g \<and> sunk s g = Some e \<and> caller s' = FRet e" if "flush_act Receive s = Some s'" for s'
    using that flush_invD(9) [OF inv] by (auto split: caller_pc.splits option.splits)
  then have own: "\<forall>s'. flush_act Receive s = Some s' \<longrightarrow> (\<exists>g e. caller s = FSelect g \<and> sunk s g = Some e \<and> caller s' = FRet e)"
    by blast
  show ?thesis
    by (intro conjI [OF _ conjI [OF _ conjI [OF send own]]] allI impI; (elim one | elim reads))
qed

text \<open>The first call times out while its sink has read one byte; the second call is turned away,
  and the abandoned goroutine reads the second byte of its own payload.\<close>

definition slow_sink :: "flush_action list" where
  "slow_sink = [Call [1, 2], Step, Step, Step, Step, ReadByte 0 0, Expire 0, TimeOut, Call [9], Step, ReadByte 0 1]"

lemma slow_sink_run:
  obtains s where "flush_step\<^sup>*\<^sup>* (init_flushing [0, 0, 0]) s" and "flusher s 0 = GFlush 2 [(0, 1), (1, 2)]"
proof -
  let ?r = "run_flush slow_sink (init_flushing [0, 0, 0])"
  have ok: "\<not> Option.is_none ?r" "flusher (the ?r) 0 = GFlush 2 [(0, 1), (1, 2)]" by code_simp+
  from ok(1) have "?r = Some (the ?r)" by (simp add: Option.is_none_def)
  from that [OF run_flush_steps [OF this] ok(2)] show thesis .
qed

theorem flush_goroutines_safe_witness:
  "\<exists>s. flush_step\<^sup>*\<^sup>* (init_flushing [0, 0, 0]) s \<and> flusher s 0 = GFlush 2 [(0, 1), (1, 2)] \<and>
     (\<forall>(i, v) \<in> set [(0, 1), (1, 2)]. i < length (given s 0) \<and> v = given s 0 ! i)"
proof -
  obtain s where s: "flush_step\<^sup>*\<^sup>* (init_flushing [0, 0, 0]) s" "flusher s 0 = GFlush 2 [(0, 1), (1, 2)]"
    by (rule slow_sink_run)
  from flush_goroutines_safe [OF s(1), THEN conjunct2, THEN conjunct1, rule_format, OF s(2)] s show ?thesis by blast
qed

section \<open>One call as one step\<close>

text \<open>
  What the callers and the sink see: a call that has returned, with its payload, the bytes its
  \<^verbatim>\<open>Sink.Flush\<close> was given (none when the call was turned away), the result of that \<^verbatim>\<open>Sink.Flush\<close> (none
  when the call did not wait for it) and the result of the call; and a goroutine that has let go of
  \<^verbatim>\<open>flushInFlight\<close> after its call returned.
\<close>

datatype flush_event =
    Finished bytes "bytes option" "error option option" "error option"
  | LetGo nat

fun flush_events :: "flush_action \<Rightarrow> flushing \<Rightarrow> flush_event list" where
  "flush_events Step s =
     (case caller s of FCas payload \<Rightarrow> if inFlight s then [Finished payload None None (Some ErrFlushTimeout)] else [] | _ \<Rightarrow> [])"
| "flush_events Receive s =
     (case caller s of FSelect g \<Rightarrow> [Finished (given s g) (Some (handed s g)) (sunk s g) (the (chan s g))] | _ \<Rightarrow> [])"
| "flush_events TimeOut s =
     (case caller s of
        FSelect g \<Rightarrow> Finished (given s g) (Some (handed s g)) None (Some ErrFlushTimeout) # (if flusher s g = GDone then [LetGo g] else [])
      | _ \<Rightarrow> [])"
| "flush_events (Clear g) s = (if caller s = FSelect g then [] else [LetGo g])"
| "flush_events a s = []"

definition flush_do :: "flush_action \<Rightarrow> flushing \<Rightarrow> flushing" where
  "flush_do a s = (case flush_act a s of None \<Rightarrow> s | Some s' \<Rightarrow> s')"

definition flush_shows :: "flush_action \<Rightarrow> flushing \<Rightarrow> flush_event list" where
  "flush_shows a s = (case flush_act a s of None \<Rightarrow> [] | Some s' \<Rightarrow> flush_events a s)"










text \<open>The goroutines that stand for the flag.\<close>

definition standing :: "flushing \<Rightarrow> nat set" where
  "standing s = {g. active s g}"

lemma standing_simps [simp]:
  "standing (s\<lparr>caller := c\<rparr>) = standing s" "standing (s\<lparr>chan := ch\<rparr>) = standing s" "standing (s\<lparr>expired := x\<rparr>) = standing s"
  "standing (s\<lparr>sunk := v\<rparr>) = standing s" "standing (s\<lparr>inFlight := f\<rparr>) = standing s"
  "standing (s\<lparr>chan := ch, flusher := fl\<rparr>) = standing (s\<lparr>flusher := fl\<rparr>)"
  by (simp_all add: standing_def active_def)















text \<open>In the run above both calls give \<^verbatim>\<open>ErrFlushTimeout\<close>, and only the first one has reached the sink.\<close>

lemma slow_sink_shows:
  "shown flush_do flush_shows slow_sink (init_flushing [0, 0, 0]) =
     [Finished [1, 2] (Some [1, 2]) None (Some ErrFlushTimeout), Finished [9] None None (Some ErrFlushTimeout)]"
  by code_simp


end
