(* ===== verification/Shared_Atomics.thy ===== *)
theory Shared_Atomics
  imports Ring_Results Engine_Flush
begin

text \<open>
  The other operations of \<^verbatim>\<open>batcher.go\<close> that work on shared atomics, interleaved with the rest: the two
  loads of \<^verbatim>\<open>QueueDepth\<close> while producers and consumers run, and \<^verbatim>\<open>reportError\<close>, which the drain
  goroutine and, after a shutdown timeout, \<^verbatim>\<open>finalDrain\<close> may execute at the same time.
\<close>

section \<open>QueueDepth\<close>

text \<open>Before the load of tail, before the load of head, and returned.\<close>

datatype depth_pc = QTail | QHead u64 | QRet u64

fun depth_step :: "'a ringbuf \<Rightarrow> depth_pc \<Rightarrow> depth_pc" where
  "depth_step r QTail = QHead (tail r)"
| "depth_step r (QHead t) = (let h = head r in QRet (if t \<ge> h then t - h else 0))"
| "depth_step r (QRet d) = QRet d"

text \<open>Without interference this is \<open>QueueDepth\<close> of \<open>Engine_Config\<close>.\<close>

lemma depth_steps_quiet: "depth_step (Batcher.ring b) (depth_step (Batcher.ring b) QTail) = QRet (QueueDepth b)"
  by (simp add: QueueDepth_def Let_def)

lemma taken_step: "sys_step s s' \<Longrightarrow> taken s \<le> taken s' \<and> length (claims s) \<le> length (claims s')"
  by (auto elim!: sys_stepE simp: run_thread_simps taken_record_step claims_record_step)

lemma taken_steps: "sys_step\<^sup>*\<^sup>* s s' \<Longrightarrow> taken s \<le> taken s' \<and> length (claims s) \<le> length (claims s')"
proof (induction rule: rtranclp_induct)
  case (step t u)
  with taken_step [of t u] show ?case by auto
qed simp

text \<open>
  C28: \<^verbatim>\<open>QueueDepth\<close> under load. Let the tail be loaded in state \<open>s\<close> and the head in a later state
  \<open>s'\<close>, with any steps of producers and consumers in between. The result is the number of items
  accepted before the first load and not taken by the second: it never exceeds what was queued at the
  first load, nor the capacity, and it falls short of it by no more than what was taken in
  between.
\<close>

theorem QueueDepth_under_load:
  assumes "newRingbuf z sz = Ret r" and "sz \<noteq> 1" and "reachable r s" and "sys_step\<^sup>*\<^sup>* s s'" and "no_wrap s'"
  shows "\<exists>d. depth_step (sys.ring s') (depth_step (sys.ring s) QTail) = QRet d \<and> unat d = length (claims s) - taken s' \<and>
    unat d \<le> length (fst (abs_queue s)) \<and> unat d \<le> cap r \<and>
    length (fst (abs_queue s)) \<le> unat d + (taken s' - taken s)"
proof -
  note fresh = fresh_newRingbuf [OF assms(1,2)]
  have reach: "reachable r s'" using assms(3,4) by (simp add: reachable_def)
  have w: "no_wrap s" by (rule conc.within_steps [OF assms(4,5)])
  note inv = reachable_inv [OF assms(3) fresh w] and inv' = reachable_inv [OF reach fresh assms(5)]
  note n = inv_numbers [OF inv w] and n' = inv_numbers [OF inv' assms(5)] and mono = taken_steps [OF assms(4)]
  note len = reachable_queue_bound [OF assms(3) fresh w]
  have tl: "unat (tail (sys.ring s)) = length (claims s)" and hd: "unat (head (sys.ring s')) = taken s'"
    using n(8) n'(7) by simp_all
  have "unat (if tail (sys.ring s) \<ge> head (sys.ring s') then tail (sys.ring s) - head (sys.ring s') else 0) =
      length (claims s) - taken s'"
    by (simp add: word_le_nat_alt unat_sub_if_size tl hd)
  then show ?thesis using len mono n(3) by (auto simp: Let_def abs_queue_def)
qed

text \<open>One item is queued when the tail is loaded; a second one is pushed and the first one taken
  before the head is loaded.\<close>

theorem QueueDepth_under_load_witness:
  "\<exists>s s' d. reachable ring2 s \<and> sys_step\<^sup>*\<^sup>* s s' \<and> length (fst (abs_queue s)) = 1 \<and> length (fst (abs_queue s')) = 1 \<and>
     depth_step (sys.ring s') (depth_step (sys.ring s) QTail) = QRet d \<and> unat d = 0"
proof -
  let ?first = "CallPush 0 7 DropNewest # replicate 5 (Run 0)" and ?more = "CallPush 1 9 DropNewest # replicate 5 (Run 1) @ CallPop 2 # replicate 5 (Run 2)"
  define s where "s = fold perform ?first (init_sys ring2)"
  define s' where "s' = fold perform (?first @ ?more) (init_sys ring2)"
  have s: "reachable ring2 s" by (simp only: s_def schedule_reachable)
  have steps: "sys_step\<^sup>*\<^sup>* s (fold perform acts s)" for acts :: "nat action list" and s
  proof (induction acts arbitrary: s)
    case (Cons a acts)
    with perform_step [of a s] show ?case by (auto intro: converse_rtranclp_into_rtranclp)
  qed simp
  have s': "sys_step\<^sup>*\<^sup>* s s'" using steps [of s ?more] by (simp only: s_def s'_def fold_append comp_def)
  have num: "length (claims s) = 1" "length (claims s') = 2" "taken s' = 1"
    "length (fst (abs_queue s)) = 1" "length (fst (abs_queue s')) = 1" unfolding s_def s'_def by code_simp+
  have w: "no_wrap s'" using schedule_no_wrap [OF s'_def] num(2) cap_ring2 by simp
  from QueueDepth_under_load [OF newRingbuf_ring2 _ s s' w] s s' num show ?thesis by auto
qed

section \<open>reportError\<close>

text \<open>A goroutine inside the fallback of \<^verbatim>\<open>reportError\<close>: before the load of \<^verbatim>\<open>lastLogTime\<close>, before reading
  the clock, before the compare-and-swap.\<close>

datatype report_pc = RIdle | RLoad error | RNow error int | RCas error int int

record reporting =
  lastLog :: int
  reporters :: "nat \<Rightarrow> report_pc"
  logged :: "(int \<times> error) list"

text \<open>\<open>ReportStep t now\<close>: one step of goroutine \<open>t\<close>, \<open>now\<close> being what the clock shows then.\<close>

datatype report_action = Report nat error | ReportStep nat int

fun report_act :: "report_action \<Rightarrow> reporting \<Rightarrow> reporting" where
  "report_act (Report t err) s = (if reporters s t = RIdle then s\<lparr>reporters := (reporters s)(t := RLoad err)\<rparr> else s)"
| "report_act (ReportStep t now) s =
     (case reporters s t of
        RIdle \<Rightarrow> s
      | RLoad err \<Rightarrow> s\<lparr>reporters := (reporters s)(t := RNow err (lastLog s))\<rparr>
      | RNow err lst \<Rightarrow>
          s\<lparr>reporters := (reporters s)(t := if wrap64 (now - lst) > 1000000000 then RCas err lst now else RIdle)\<rparr>
      | RCas err lst now' \<Rightarrow>
          if lastLog s = lst
          then s\<lparr>lastLog := now', logged := logged s @ [(now', err)], reporters := (reporters s)(t := RIdle)\<rparr>
          else s\<lparr>reporters := (reporters s)(t := RIdle)\<rparr>)"

definition init_reports :: "int \<Rightarrow> reporting" where
  "init_reports l0 = \<lparr>lastLog = l0, reporters = (\<lambda>_. RIdle), logged = []\<rparr>"

text \<open>A goroutine that runs alone does what \<open>reportError\<close> of \<open>Engine_Flush\<close> does.\<close>

lemma report_solo:
  assumes "OnFlushError (cfg b) = None" and "lastLogTime b = lastLog s" and "reporters s t = RIdle"
  shows "let s' = fold report_act [Report t err, ReportStep t x, ReportStep t now, ReportStep t y] s;
             (w', b') = reportError now err w b in
         lastLog s' = lastLogTime b' \<and> slog w' = slog w @ map snd (drop (length (logged s)) (logged s')) \<and> reporters s' t = RIdle"
  using assms by (simp add: reportError_def Let_def)

definition in_clock :: "int \<Rightarrow> report_action \<Rightarrow> bool" where
  "in_clock tmax a \<longleftrightarrow> (case a of Report t e \<Rightarrow> True | ReportStep t now \<Rightarrow> 0 \<le> now \<and> now \<le> tmax)"

text \<open>What holds at every moment: the log lines so far are more than a second apart, the last one is
  in \<^verbatim>\<open>lastLogTime\<close>, and whoever is about to swap has seen a value more than a second old.\<close>

fun report_ok :: "int \<Rightarrow> report_pc \<Rightarrow> bool" where
  "report_ok tmax (RNow err lst) = (0 \<le> lst \<and> lst \<le> tmax)"
| "report_ok tmax (RCas err lst now) = (lst + 1000000000 < now \<and> now \<le> tmax)"
| "report_ok tmax c = True"

definition report_inv :: "int \<Rightarrow> int \<Rightarrow> reporting \<Rightarrow> bool" where
  "report_inv l0 tmax s \<longleftrightarrow> 0 \<le> lastLog s \<and> lastLog s \<le> tmax \<and> lastLog s = last (l0 # map fst (logged s)) \<and>
     sorted_wrt (\<lambda>a b. a + 1000000000 < b) (l0 # map fst (logged s)) \<and> (\<forall>t \<in> set (map fst (logged s)). t \<le> tmax) \<and>
     (\<forall>t. report_ok tmax (reporters s t))"

lemma sorted_wrt_snoc:
  assumes "sorted_wrt (\<lambda>a b. a + d < b) xs" and "xs \<noteq> []" and "last xs + d < x" and "0 \<le> (d::int)"
  shows "sorted_wrt (\<lambda>a b. a + d < b) (xs @ [x])"
proof -
  have "a \<le> last xs" if "a \<in> set xs" for a
    using assms(1,2,4) that by (induction xs rule: rev_induct) (auto simp: sorted_wrt_append)
  with assms(1,3) show ?thesis by (fastforce simp: sorted_wrt_append)
qed

lemma report_inv_act:
  assumes inv: "report_inv l0 tmax s" and a: "in_clock tmax a" and t: "tmax < 2 ^ 63"
  shows "report_inv l0 tmax (report_act a s)"
proof -
  have ok: "report_ok tmax (reporters s u)" for u using inv by (simp add: report_inv_def)
  have quiet: "report_inv l0 tmax (s\<lparr>reporters := (reporters s)(u := c)\<rparr>)" if "report_ok tmax c" for u c
    using inv that by (simp add: report_inv_def)
  show ?thesis
  proof (cases a)
    case (ReportStep u now)
    show ?thesis
    proof (cases "reporters s u")
      case (RNow err lst)
      then have "int64_range (now - lst)" using ok [of u] a ReportStep t by (simp add: in_clock_def int64_range_def)
      with RNow ReportStep a quiet show ?thesis by (auto simp: in_clock_def)
    next
      case (RCas err lst now')
      show ?thesis
      proof (cases "lastLog s = lst")
        case True
        have "sorted_wrt (\<lambda>a b. a + 1000000000 < b) ((l0 # map fst (logged s)) @ [now'])"
          using inv ok [of u] RCas True by (intro sorted_wrt_snoc) (auto simp: report_inv_def)
        moreover have "0 \<le> now'" using inv ok [of u] RCas True by (simp add: report_inv_def)
        ultimately show ?thesis using RCas ReportStep inv ok [of u] True by (simp add: report_inv_def)
      qed (use RCas ReportStep quiet in simp)
    qed (use quiet inv ReportStep in \<open>auto simp: report_inv_def\<close>)
  qed (use quiet inv in auto)
qed

lemma spaced_length:
  assumes "sorted_wrt (\<lambda>a b. a + 1000000000 < b) (l # ts)" and "\<forall>t \<in> set ts. t \<le> (tmax::int)"
  shows "ts = [] \<or> int (length ts) * 1000000001 \<le> tmax - l"
  using assms
proof (induction ts arbitrary: l)
  case (Cons t ts)
  then have "ts = [] \<or> int (length ts) * 1000000001 \<le> tmax - t" by simp
  with Cons.prems show ?case by auto
qed simp

text \<open>
  C29: the fallback log is rate limited under any interleaving of any number of goroutines inside
  \<^verbatim>\<open>reportError\<close>, also when the clock readings arrive out of order: every two lines carry times more
  than a second apart, so that up to time \<open>tmax\<close> there is at most one line per full second since
  \<open>l0\<close>, the initial value of \<^verbatim>\<open>lastLogTime\<close>.
\<close>

theorem log_rate_limited:
  assumes "0 \<le> l0" and "l0 \<le> tmax" and "\<forall>a \<in> set as. in_clock tmax a" and "tmax < 2 ^ 63" and "s = fold report_act as (init_reports l0)"
  shows "sorted_wrt (\<lambda>a b. a + 1000000000 < b) (l0 # map fst (logged s)) \<and>
    int (length (logged s)) * 1000000001 \<le> tmax - l0"
proof -
  have "report_inv l0 tmax (init_reports l0)" using assms(1,2) by (simp add: report_inv_def init_reports_def)
  then have "report_inv l0 tmax s"
    unfolding assms(5) using assms(3) by (induction as rule: rev_induct) (simp_all add: report_inv_act [OF _ _ assms(4)])
  then show ?thesis using spaced_length [of l0 "map fst (logged s)" tmax] assms(2) by (auto simp: report_inv_def)
qed

text \<open>Two goroutines load the same value; one of them logs, the other one loses the swap.\<close>

definition both_report :: "report_action list" where
  "both_report = [Report 0 (Foreign ''a''), Report 1 (Foreign ''b''), ReportStep 0 0, ReportStep 1 0, ReportStep 0 1500000000,
     ReportStep 1 1500000001, ReportStep 1 1500000002, ReportStep 0 1500000002]"

theorem log_rate_limited_witness:
  "logged (fold report_act both_report (init_reports 0)) = [(1500000001, Foreign ''b'')] \<and>
   int (length (logged (fold report_act both_report (init_reports 0)))) * 1000000001 \<le> 1500000002 - 0"
proof -
  have l: "logged (fold report_act both_report (init_reports 0)) = [(1500000001, Foreign ''b'')]" by code_simp
  have "\<forall>a \<in> set both_report. in_clock 1500000002 a" by (simp add: both_report_def in_clock_def)
  from log_rate_limited [OF _ _ this _ refl, of 0] l show ?thesis by simp
qed

end
