(* ===== verification/Sinks.thy ===== *)
theory Sinks
  imports Engine_Config
begin

unbundle bit_operations_syntax

text \<open>
  The sinks: \<^verbatim>\<open>StdoutSink\<close> (\<^verbatim>\<open>sink.go\<close>), \<^verbatim>\<open>CopyingSink\<close> (\<^verbatim>\<open>copy_sink.go\<close>), \<^verbatim>\<open>TCPSink\<close>, \<^verbatim>\<open>UDPSink\<close> and
  \<^verbatim>\<open>RecordingSink\<close> (\<^verbatim>\<open>tickbatchtest.go\<close>), each as the \<open>sink_ops\<close> its methods give. The sockets are
  the operating system's: their operations are the arguments \<open>conn\<close>.
\<close>

section \<open>Contexts\<close>

text \<open>The deadline of a context, relative to its creation: the earliest of the chain.\<close>

fun Deadline :: "go_context \<Rightarrow> int option" where
  "Deadline Background = None"
| "Deadline (WithTimeout c d) =
     (case Deadline c of None \<Rightarrow> Some d | Some d' \<Rightarrow> Some (min d d'))"

section \<open>In-process sinks\<close>

text \<open>The world of \<^verbatim>\<open>StdoutSink\<close>: the byte counts of the lines it printed.\<close>

definition StdoutSink :: "nat list sink_ops" where
  "StdoutSink = \<lparr>Flush = (\<lambda>_ payload out. (out @ [length payload], Returns None)), Reliable = True\<rparr>"

definition CopyingSink_Flush :: "'s sink_ops \<Rightarrow> go_context \<Rightarrow> bytes \<Rightarrow> 's \<Rightarrow> 's \<times> completion" where
  "CopyingSink_Flush inner ctx payload s =
     (let cp = go_copy (make_bytes (int (length payload))) payload in Flush inner ctx cp s)"

definition CopyingSink :: "'s sink_ops \<Rightarrow> 's sink_ops" where
  "CopyingSink inner = \<lparr>Flush = CopyingSink_Flush inner, Reliable = False\<rparr>"

definition ReliableCopyingSink :: "'s sink_ops \<Rightarrow> 's sink_ops" where
  "ReliableCopyingSink inner = \<lparr>Flush = CopyingSink_Flush inner, Reliable = True\<rparr>"

record recording =
  Err :: "error option"
  payloads :: "bytes list"

definition RecordingSink_Flush :: "go_context \<Rightarrow> bytes \<Rightarrow> recording \<Rightarrow> recording \<times> completion" where
  "RecordingSink_Flush ctx payload r =
     (let cp = go_copy (make_bytes (int (length payload))) payload in
      (r\<lparr>payloads := payloads r @ [cp]\<rparr>, Returns (Err r)))"

definition RecordingSink :: "recording sink_ops" where
  "RecordingSink = \<lparr>Flush = RecordingSink_Flush, Reliable = False\<rparr>"

definition ReliableRecordingSink :: "recording sink_ops" where
  "ReliableRecordingSink = \<lparr>Flush = RecordingSink_Flush, Reliable = True\<rparr>"

section \<open>Network sinks\<close>

text \<open>
  A connection over the state \<open>'s\<close>: setting the write deadline, a write of several buffers
  that returns the number of bytes accepted and an error, or blocks (\<open>None\<close>), and closing.
\<close>

record 's conn =
  SetWriteDeadline :: "int option \<Rightarrow> 's \<Rightarrow> 's"
  WriteBuffers :: "bytes list \<Rightarrow> 's \<Rightarrow> 's \<times> (int \<times> error option) option"
  CloseConn :: "'s \<Rightarrow> 's \<times> error option"

text \<open>
  The constructors, over the dialers of the \<^verbatim>\<open>net\<close> package. A sink is known by its connection \<open>c\<close>: its
  methods are those of \<open>TCPSink c\<close> or \<open>UDPSink c\<close> below, and \<^verbatim>\<open>Close\<close>.
\<close>

definition NewTCPSink ::
  "(string \<Rightarrow> string \<Rightarrow> 's \<Rightarrow> 's \<times> (error + 's conn)) \<Rightarrow> string \<Rightarrow> string \<Rightarrow> 's \<Rightarrow> 's \<times> (error + 's conn)" where
  "NewTCPSink Dial network addr s =
     (case Dial network addr s of
        (s', Inl err) \<Rightarrow> (s', Inl err)
      | (s', Inr conn) \<Rightarrow> (s', Inr conn))"

definition NewUDPSink ::
  "(string \<Rightarrow> string \<Rightarrow> 's \<Rightarrow> 's \<times> (error + 'addr)) \<Rightarrow> (string \<Rightarrow> 'addr \<Rightarrow> 's \<Rightarrow> 's \<times> (error + 's conn)) \<Rightarrow>
   string \<Rightarrow> 's \<Rightarrow> 's \<times> (error + 's conn)" where
  "NewUDPSink ResolveUDPAddr DialUDP addr s =
     (case ResolveUDPAddr ''udp'' addr s of
        (s1, Inl err) \<Rightarrow> (s1, Inl err)
      | (s1, Inr raddr) \<Rightarrow>
          (case DialUDP ''udp'' raddr s1 of
             (s2, Inl err) \<Rightarrow> (s2, Inl err)
           | (s2, Inr conn) \<Rightarrow> (s2, Inr conn)))"

definition TCPSink_Close :: "'s conn \<Rightarrow> 's \<Rightarrow> 's \<times> error option" where
  "TCPSink_Close c = CloseConn c"

definition UDPSink_Close :: "'s conn \<Rightarrow> 's \<Rightarrow> 's \<times> error option" where
  "UDPSink_Close c = CloseConn c"

text \<open>The deadline is set before the write and cleared by the deferred call after it.\<close>

definition with_deadline :: "'s conn \<Rightarrow> go_context \<Rightarrow> ('s \<Rightarrow> 's \<times> completion) \<Rightarrow> 's \<Rightarrow> 's \<times> completion" where
  "with_deadline c ctx body s =
     (case Deadline ctx of
        None \<Rightarrow> body s
      | Some dl \<Rightarrow>
          (case body (SetWriteDeadline c (Some dl) s) of
             (s', Stalls) \<Rightarrow> (s', Stalls)
           | (s', done) \<Rightarrow> (SetWriteDeadline c None s', done)))"

definition TCPSink_write :: "'s conn \<Rightarrow> bytes \<Rightarrow> 's \<Rightarrow> 's \<times> completion" where
  "TCPSink_write c payload s =
     (if int (length payload) > 4294967295 then (s, Returns (Some (ErrPayloadTooLong (length payload))))
      else
        let lbuf = put_uint32 (of_nat (length payload)) in
        case WriteBuffers c [lbuf, payload] s of
          (s', None) \<Rightarrow> (s', Stalls)
        | (s', Some (n, Some err)) \<Rightarrow> (s', Returns (Some err))
        | (s', Some (n, None)) \<Rightarrow>
            let want = wrap64 (4 + int (length payload)) in
            if n \<noteq> want then (s', Returns (Some (ErrShortWrite n want))) else (s', Returns None))"

definition TCPSink :: "'s conn \<Rightarrow> 's sink_ops" where
  "TCPSink c = \<lparr>Flush = (\<lambda>ctx payload. with_deadline c ctx (TCPSink_write c payload)), Reliable = True\<rparr>"

definition UDPSink :: "'s conn \<Rightarrow> 's sink_ops" where
  "UDPSink c = \<lparr>Flush = (\<lambda>ctx payload. with_deadline c ctx (\<lambda>s.
       case WriteBuffers c [payload] s of
         (s', None) \<Rightarrow> (s', Stalls)
       | (s', Some (_, err)) \<Rightarrow> (s', Returns err))), Reliable = False\<rparr>"

section \<open>The stream a TCP receiver reads\<close>

text \<open>The receiver of the wire format: frames, and the incomplete rest.\<close>

function split_frames :: "bytes \<Rightarrow> bytes list \<times> bytes" where
  "split_frames bs =
     (if length bs < 4 then ([], bs)
      else
        let n = unat (get_uint32 (take 4 bs)) in
        if length (drop 4 bs) < n then ([], bs)
        else case split_frames (drop n (drop 4 bs)) of (fs, rest) \<Rightarrow> (take n (drop 4 bs) # fs, rest))"
  by pat_completeness auto
termination
  by (relation "measure length") auto

declare split_frames.simps [simp del]

definition tcp_frame :: "bytes \<Rightarrow> bytes" where
  "tcp_frame payload = put_uint32 (of_nat (length payload)) @ payload"

lemma split_frames_frame:
  assumes "length payload < 2 ^ 32"
  shows "split_frames (tcp_frame payload @ bs) =
    (payload # fst (split_frames bs), snd (split_frames bs))"
proof -
  have t: "take 4 (tcp_frame payload @ bs) = put_uint32 (of_nat (length payload)) @ []"
    by (simp add: tcp_frame_def)
  have "unat (get_uint32 (take 4 (tcp_frame payload @ bs))) = length payload"
    using assms unfolding t get_put_uint32 by (simp add: unat_of_nat)
  moreover have "drop 4 (tcp_frame payload @ bs) = payload @ bs" by (simp add: tcp_frame_def)
  ultimately show ?thesis
    by (subst split_frames.simps) (simp add: tcp_frame_def split: prod.split)
qed

lemma split_frames_all:
  assumes "\<forall>p \<in> set ps. length p < 2 ^ 32"
  shows "split_frames (concat (map tcp_frame ps)) = (ps, [])"
  using assms
proof (induction ps)
  case Nil
  show ?case by (simp add: split_frames.simps)
next
  case (Cons p ps)
  then show ?case using split_frames_frame [of p "concat (map tcp_frame ps)"] by simp
qed

text \<open>
  What the sinks rely on of a stream connection: setting a deadline sends nothing, and a write
  that returns a count has appended that many bytes of its buffers to what was sent.
\<close>

definition stream_conn :: "'s conn \<Rightarrow> ('s \<Rightarrow> bytes) \<Rightarrow> bool" where
  "stream_conn c sent \<longleftrightarrow>
     (\<forall>d s. sent (SetWriteDeadline c d s) = sent s) \<and>
     (\<forall>bufs s s' n err. WriteBuffers c bufs s = (s', Some (n, err)) \<longrightarrow>
        0 \<le> n \<and> n \<le> int (length (concat bufs)) \<and> sent s' = sent s @ take (nat n) (concat bufs))"

text \<open>Flushing a list of payloads; \<open>None\<close> when one of them does not return nil.\<close>

fun flush_all :: "'s sink_ops \<Rightarrow> go_context \<Rightarrow> bytes list \<Rightarrow> 's \<Rightarrow> 's option" where
  "flush_all sink ctx [] s = Some s"
| "flush_all sink ctx (p # ps) s =
     (case Flush sink ctx p s of (s', Returns None) \<Rightarrow> flush_all sink ctx ps s' | _ \<Rightarrow> None)"

lemma TCPSink_write_ok:
  assumes "stream_conn c sent" and "TCPSink_write c p s = (s', Returns None)"
  shows "length p < 2 ^ 32 \<and> sent s' = sent s @ tcp_frame p"
proof -
  have len: "length p \<le> 4294967295" using assms(2) by (auto simp: TCPSink_write_def split: if_splits)
  then have "int64_range (4 + int (length p))" by (simp add: int64_range_def)
  then have w: "wrap64 (4 + int (length p)) = 4 + int (length p)" by simp
  obtain s1 x where wr: "WriteBuffers c [put_uint32 (of_nat (length p)), p] s = (s1, x)" by fastforce
  have "x = Some (4 + int (length p), None)" "s1 = s'"
    using assms(2) len wr w by (auto simp: TCPSink_write_def Let_def split: option.splits prod.splits if_splits)
  then show ?thesis
    using assms(1) wr len by (fastforce simp: stream_conn_def tcp_frame_def nat_add_distrib)
qed

lemma TCPSink_flush_ok:
  assumes "stream_conn c sent" and "Flush (TCPSink c) ctx p s = (s', Returns None)"
  shows "length p < 2 ^ 32 \<and> sent s' = sent s @ tcp_frame p"
proof (cases "Deadline ctx")
  case None
  then show ?thesis using assms TCPSink_write_ok [OF assms(1)] by (simp add: TCPSink_def with_deadline_def)
next
  case (Some dl)
  obtain s1 x where wr: "TCPSink_write c p (SetWriteDeadline c (Some dl) s) = (s1, x)" by fastforce
  with assms(2) Some have "x = Returns None" "s' = SetWriteDeadline c None s1"
    by (auto simp: TCPSink_def with_deadline_def split: completion.splits)
  then show ?thesis
    using TCPSink_write_ok [OF assms(1)] wr assms(1) by (simp add: stream_conn_def)
qed

section \<open>Reliable links\<close>

text \<open>
  What the engine relies on of a \<^verbatim>\<open>ReliableSink\<close>: a flush that returns nil has handed exactly its
  payload to the receiver, and one that does not has handed over nothing. \<open>log\<close> is what the
  receiver has got, \<open>ok\<close> the states in which the promise holds.
\<close>

locale reliable_link =
  fixes sink :: "'s sink_ops" and ok :: "'s \<Rightarrow> bool" and log :: "'s \<Rightarrow> bytes list"
  assumes flush_ok: "ok s \<Longrightarrow> Flush sink ctx p s = (s', c) \<Longrightarrow> ok s'"
    and flush_nil: "ok s \<Longrightarrow> Flush sink ctx p s = (s', c) \<Longrightarrow> c \<in> {Returns None, ReturnsUnstored None} \<Longrightarrow>
      log s' = log s @ [p]"
    and flush_fail: "ok s \<Longrightarrow> Flush sink ctx p s = (s', c) \<Longrightarrow> c \<notin> {Returns None, ReturnsUnstored None} \<Longrightarrow>
      log s' = log s"
begin

lemma flush_all_log: "ok s \<Longrightarrow> flush_all sink ctx ps s = Some s' \<Longrightarrow> log s' = log s @ ps \<and> ok s'"
proof (induction ps arbitrary: s)
  case (Cons p ps)
  obtain s1 where f: "Flush sink ctx p s = (s1, Returns None)" "flush_all sink ctx ps s1 = Some s'"
    using Cons.prems(2) by (auto split: prod.splits completion.splits option.splits)
  from Cons.IH [OF flush_ok [OF Cons.prems(1) f(1)] f(2)] flush_nil [OF Cons.prems(1) f(1)] show ?case by simp
qed simp

end

lemma RecordingSink_Flush_eq: "RecordingSink_Flush ctx p r = (r\<lparr>payloads := payloads r @ [p]\<rparr>, Returns (Err r))"
  by (simp add: RecordingSink_Flush_def)

interpretation recording_link: reliable_link ReliableRecordingSink "\<lambda>r. Err r = None" payloads
  by unfold_locales (auto simp: ReliableRecordingSink_def RecordingSink_Flush_eq)

text \<open>Copying a payload before the inner flush changes nothing of its value.\<close>

lemma CopyingSink_Flush_eq: "CopyingSink_Flush inner = Flush inner"
  by (intro ext) (simp add: CopyingSink_Flush_def)

interpretation copying_link: reliable_link "ReliableCopyingSink ReliableRecordingSink" "\<lambda>r. Err r = None" payloads
  by unfold_locales
    (auto simp: ReliableCopyingSink_def CopyingSink_Flush_eq ReliableRecordingSink_def RecordingSink_Flush_eq)

text \<open>
  TCP when no write stops half way: a connection that accepts all of a write or nothing of it.
  The receiver's view of the stream is then a reliable link.
\<close>

locale atomic_conn =
  fixes c :: "'s conn" and sent :: "'s \<Rightarrow> bytes"
  assumes stream: "stream_conn c sent"
    and whole: "WriteBuffers c bufs s = (s', res) \<Longrightarrow> res \<noteq> Some (int (length (concat bufs)), None) \<Longrightarrow> sent s' = sent s"
begin

lemma TCPSink_write_atomic:
  assumes "TCPSink_write c p s = (s', x)"
  shows "if x = Returns None then length p < 2 ^ 32 \<and> sent s' = sent s @ tcp_frame p else x \<noteq> ReturnsUnstored None \<and> sent s' = sent s"
proof (cases "x = Returns None")
  case True
  with assms TCPSink_write_ok [OF stream] show ?thesis by simp
next
  case False
  obtain s1 res where wr: "WriteBuffers c [put_uint32 (of_nat (length p)), p] s = (s1, res)" by fastforce
  show ?thesis
  proof (cases "length p > 4294967295")
    case True
    then show ?thesis using assms False by (auto simp: TCPSink_write_def)
  next
    case short: False
    then have w: "wrap64 (4 + int (length p)) = 4 + int (length p)" by (simp add: int64_range_def)
    have "res \<noteq> Some (int (length (concat [put_uint32 (of_nat (length p)), p])), None)"
      using assms False wr short w by (auto simp: TCPSink_write_def Let_def)
    from whole [OF wr this] show ?thesis
      using assms False wr short by (auto simp: TCPSink_write_def Let_def split: option.splits prod.splits if_splits)
  qed
qed

lemma TCPSink_flush_atomic:
  assumes "Flush (TCPSink c) ctx p s = (s', x)"
  shows "if x = Returns None then length p < 2 ^ 32 \<and> sent s' = sent s @ tcp_frame p else x \<noteq> ReturnsUnstored None \<and> sent s' = sent s"
proof (cases "Deadline ctx")
  case None
  then have "TCPSink_write c p s = (s', x)" using assms by (simp add: TCPSink_def with_deadline_def)
  from TCPSink_write_atomic [OF this] show ?thesis .
next
  case (Some dl)
  obtain s1 y where wr: "TCPSink_write c p (SetWriteDeadline c (Some dl) s) = (s1, y)" by fastforce
  have dl: "sent (SetWriteDeadline c d t) = sent t" for d t using stream by (simp add: stream_conn_def)
  from assms Some wr have "x = y" "sent s' = sent s1"
    by (cases y; simp add: TCPSink_def with_deadline_def; metis dl)+
  then show ?thesis using TCPSink_write_atomic [OF wr] dl by (simp only:)
qed

text \<open>The states in which everything sent is a sequence of whole frames.\<close>

definition framed :: "'s \<Rightarrow> bool" where
  "framed s \<longleftrightarrow> (\<exists>ps. (\<forall>p \<in> set ps. length p < 2 ^ 32) \<and> sent s = concat (map tcp_frame ps))"

lemma framed_append:
  assumes "framed s" and "length p < 2 ^ 32" and "sent s' = sent s @ tcp_frame p"
  shows "framed s' \<and> fst (split_frames (sent s')) = fst (split_frames (sent s)) @ [p]"
proof -
  obtain ps where ps: "\<forall>p \<in> set ps. length p < 2 ^ 32" "sent s = concat (map tcp_frame ps)"
    using assms(1) by (auto simp: framed_def)
  then have "sent s' = concat (map tcp_frame (ps @ [p]))" using assms(3) by simp
  moreover have "\<forall>q \<in> set (ps @ [p]). length q < 2 ^ 32" using ps(1) assms(2) by simp
  ultimately show ?thesis
    using split_frames_all [of ps] split_frames_all [of "ps @ [p]"] ps unfolding framed_def by (metis fst_conv)
qed

end

sublocale atomic_conn \<subseteq> tcp: reliable_link "TCPSink c" framed "\<lambda>s. fst (split_frames (sent s))"
proof
  fix s s' :: 's and ctx p x
  assume ok: "framed s" and fl: "Flush (TCPSink c) ctx p s = (s', x)"
  note a = TCPSink_flush_atomic [OF fl]
  show "framed s'" using a ok framed_append [OF ok] by (auto simp: framed_def split: if_splits)
  show "fst (split_frames (sent s')) = fst (split_frames (sent s)) @ [p]" if "x \<in> {Returns None, ReturnsUnstored None}"
    using a that framed_append [OF ok] by (auto split: if_splits)
  show "fst (split_frames (sent s')) = fst (split_frames (sent s))" if "x \<notin> {Returns None, ReturnsUnstored None}"
    using a that by (auto split: if_splits)
qed

text \<open>A connection that accepts everything.\<close>

definition buffer_conn :: "bytes conn" where
  "buffer_conn = \<lparr>SetWriteDeadline = (\<lambda>_ s. s),
     WriteBuffers = (\<lambda>bufs s. (s @ concat bufs, Some (int (length (concat bufs)), None))),
     CloseConn = (\<lambda>s. (s, None))\<rparr>"

lemma stream_buffer_conn: "stream_conn buffer_conn (\<lambda>s. s)"
  by (simp add: stream_conn_def buffer_conn_def)

interpretation buffer: atomic_conn buffer_conn "\<lambda>s. s"
  by unfold_locales (auto simp: stream_buffer_conn, simp add: buffer_conn_def)

section \<open>Properties\<close>

text \<open>
  C31: TCP framing round trip: when a list of payloads has been flushed through \<^verbatim>\<open>TCPSink\<close> without
  an error, whatever the deadlines, a receiver that reads length prefixes recovers exactly
  these payloads, in order, with nothing left over.
\<close>

theorem tcp_stream_roundtrip:
  assumes "stream_conn c sent" and "sent s = []" and "flush_all (TCPSink c) ctx ps s = Some s'"
  shows "split_frames (sent s') = (ps, [])"
proof -
  have "(\<forall>p \<in> set ps. length p < 2 ^ 32) \<and> sent s' = sent s @ concat (map tcp_frame ps)"
    using assms(3)
  proof (induction ps arbitrary: s)
    case (Cons p ps)
    obtain s1 where f: "Flush (TCPSink c) ctx p s = (s1, Returns None)" "flush_all (TCPSink c) ctx ps s1 = Some s'"
      using Cons.prems by (auto split: prod.splits completion.splits option.splits)
    from Cons.IH [OF f(2)] TCPSink_flush_ok [OF assms(1) f(1)] show ?case by simp
  qed simp
  with assms(2) split_frames_all [of ps] show ?thesis by simp
qed

theorem tcp_stream_roundtrip_witness:
  "\<exists>s'. flush_all (TCPSink buffer_conn) (WithTimeout Background 5) [[1, 2], [], [3]] [] = Some s' \<and>
     split_frames s' = ([[1, 2], [], [3]], [])"
proof -
  let ?s' = "concat (map tcp_frame [[1, 2], [], [3]])"
  have "flush_all (TCPSink buffer_conn) (WithTimeout Background 5) [[1, 2], [], [3]] [] = Some ?s'"
    by (simp add: TCPSink_def with_deadline_def TCPSink_write_def buffer_conn_def Let_def wrap64_def tcp_frame_def)
  with tcp_stream_roundtrip [OF stream_buffer_conn _ this] show ?thesis by auto
qed

text \<open>
  An oversized payload is refused before anything is written: \<^verbatim>\<open>TCPSink.Flush\<close> returns an error
  and the stream is as it was, so its framing survives.
\<close>

lemma tcp_oversize_refused:
  assumes "stream_conn c sent" and "2 ^ 32 \<le> length p"
  shows "\<exists>s'. Flush (TCPSink c) ctx p s = (s', Returns (Some (ErrPayloadTooLong (length p)))) \<and> sent s' = sent s"
  using assms by (cases "Deadline ctx")
    (simp_all add: TCPSink_def with_deadline_def TCPSink_write_def stream_conn_def)

definition cut_conn :: "(bytes \<times> nat) conn" where
  "cut_conn = \<lparr>SetWriteDeadline = (\<lambda>_ s. s),
     WriteBuffers = (\<lambda>bufs (sent, k).
       if k \<noteq> 0 \<and> k \<le> length (concat bufs) then ((sent @ take k (concat bufs), 0), Some (int k, Some (Foreign ''timeout'')))
       else ((sent @ concat bufs, 0), Some (int (length (concat bufs)), None))),
     CloseConn = (\<lambda>s. (s, None))\<rparr>"

text \<open>
  C40: a flush that fails half way desynchronises the stream for good. There is a connection,
  behaving as a stream connection must, on which a first flush fails after three bytes, the
  next one returns nil, and the receiver never sees its payload: the stray bytes are taken
  for a length prefix. \<^verbatim>\<open>TCPSink\<close> goes on using the connection.
\<close>

theorem tcp_partial_write_desync:
  "stream_conn cut_conn fst \<and>
   (\<exists>s1 s2. Flush (TCPSink cut_conn) Background [1] ([], 3) = (s1, Returns (Some (Foreign ''timeout''))) \<and>
      Flush (TCPSink cut_conn) Background [2] s1 = (s2, Returns None) \<and>
      fst (split_frames (fst s2)) = [])"
proof (intro conjI exI)
  show "stream_conn cut_conn fst"
    by (auto simp: stream_conn_def cut_conn_def split: if_splits)
  show "Flush (TCPSink cut_conn) Background [1] ([], 3) = (([1, 0, 0], 0), Returns (Some (Foreign ''timeout'')))"
    by (simp add: TCPSink_def with_deadline_def TCPSink_write_def cut_conn_def Let_def put_uint32_def)
  show "Flush (TCPSink cut_conn) Background [2] ([1, 0, 0], 0) = (([1, 0, 0, 1, 0, 0, 0, 2], 0), Returns None)"
    by (simp add: TCPSink_def with_deadline_def TCPSink_write_def cut_conn_def Let_def put_uint32_def wrap64_def)
  show "fst (split_frames (fst ([1, 0, 0, 1, 0, 0, 0, 2], 0::nat))) = []"
    by (simp add: split_frames.simps get_uint32_def)
qed

end
