(* ===== verification/Engine_Facts.thy ===== *)
theory Engine_Facts
  imports Engine_Flush Sinks
begin

unbundle bit_operations_syntax

text \<open>
  What one drain of the engine does: it never panics whatever the foreign code returns, it
  keeps the invariant, it accounts for every item it takes from the queue, and the frame it
  hands to the sink is the documented encoding of the items at the front of the queue.
\<close>

section \<open>The invariant of the drain loop's state\<close>

text \<open>The batcher together with the loop's \<^verbatim>\<open>prevOffset\<close>.\<close>

definition run_inv :: "('a, 's) Batcher \<Rightarrow> int \<Rightarrow> bool" where
  "run_inv b po \<longleftrightarrow> engine_inv b \<and> (\<exists>prv. baseline b po prv)"

lemma engine_inv_side:
  assumes "engine_inv b" and "flow b xs ys r d" and "length buf = length (byteBuffer b)"
    and "length db = length (deltaBuffer b)" and "side_state (stamped b r d trunc buf db) b2"
  shows "engine_inv b2"
proof -
  have "buffers_ok (stamped b r d trunc buf db)"
    using assms(1,3,4) by (simp add: engine_inv_def buffers_ok_def stamped_def Let_def)
  then show ?thesis
    using assms side_state_buffers [OF assms(5)] by (simp add: engine_inv_def side_state_def stamped_def flow_def)
qed

lemma conclude_simps [simp]:
  "conclude now n raw po k (w, b, ParkedInFlush) = (w, b, po, k, Parked)"
  "conclude now n raw po k (w, b, Failed) = (w, b, po, k, Completed)"
  "conclude now n raw po k (w, b, Delivered len) =
     (w, after_success now n len raw b, if DeltaEncoding (cfg b) then int (length raw) else po,
      if DeltaEncoding (cfg b) then next_keyframeN (cfg b) k else k, Completed)"
  by (simp_all add: conclude_def)

lemma after_success_simps [simp]:
  "ring (after_success now n len raw b) = ring b" "truncated (after_success now n len raw b) = truncated b"
  "flushedItems (after_success now n len raw b) = flushedItems b + of_nat n"
  "flushedBatches (after_success now n len raw b) = flushedBatches b + 1"
  "sequenceID (after_success now n len raw b) = sequenceID b" "dropped (after_success now n len raw b) = dropped b"
  "cfg (after_success now n len raw b) = cfg b" "byteBuffer (after_success now n len raw b) = byteBuffer b"
  "flushErrs (after_success now n len raw b) = flushErrs b"
  "bytesFlushed (after_success now n len raw b) = bytesFlushed b + of_nat len"
  "flushInFlight (after_success now n len raw b) = flushInFlight b" "timeoutBuf (after_success now n len raw b) = timeoutBuf b"
  "coalescedTicks (after_success now n len raw b) = coalescedTicks b"
  by (simp_all add: after_success_def count_success_def)

lemma after_success_inv: "engine_inv b \<Longrightarrow> engine_inv (after_success now n len raw b)"
  by (simp add: after_success_def count_success_def engine_inv_def buffers_ok_def Let_def)

lemma after_success_baseline:
  assumes "length raw \<le> length (previousState b)" and "DeltaEncoding (cfg b)"
  shows "baseline (after_success now n len raw b) (int (length raw)) raw"
  using assms by (simp add: after_success_def count_success_def baseline_def)

lemma drain_inv:
  assumes inv: "engine_inv b" and base: "baseline b po prv"
  shows "\<exists>w' b' po' k' st. drainAndFlush marshal le arr now ctx w b po k = Ret (w', b', po', k', st) \<and>
    run_inv b' po' \<and> cfg b' = cfg b \<and> (st = Parked \<longrightarrow> FlushTimeout (cfg b) = 0)"
proof -
  obtain ys r d buf offset n trunc where col: "collects marshal arr b ys r d buf offset n trunc"
    using collects_exists [OF inv] by blast
  then have fl: "flow b (concat arr) ys r d" by (simp add: collects_def)
  note bnd = collects_bounds [OF inv col]
  from inv base col show ?thesis
  proof (cases rule: drain_outcome [where k = k and now = now and ctx = ctx and w = w and le = le])
    case idle
    let ?b = "b\<lparr>ring := r, dropped := d, byteBuffer := buf, truncated := trunc\<rparr>"
    have "engine_inv ?b" using inv fl bnd(1) by (simp add: engine_inv_def buffers_ok_def Let_def flow_def)
    moreover have "baseline ?b po prv" using base by (simp add: baseline_def)
    ultimately show ?thesis using idle(2) by (auto simp: run_inv_def)
  next
    case (send sink raw db w' b2 res)
    have inv2: "engine_inv b2" using engine_inv_side [OF inv fl _ send(5,7)] send(4) bnd by simp
    have same: "cfg b2 = cfg b" "previousState b2 = previousState b" using send(7) by (simp_all add: side_state_def stamped_def)
    have base2: "baseline b2 po prv" using base same by (simp add: baseline_def)
    have park: "res = ParkedInFlush \<longrightarrow> FlushTimeout (cfg b) = 0"
      using deliver_side [of sink now ctx "wire b k raw" w "stamped b r d trunc (raw @ drop (nat offset) buf) db"] send(6)
      by (auto simp: stamped_def)
    have "baseline (after_success now n l raw b2) (int (length raw)) raw" if "DeltaEncoding (cfg b)" for l
      using after_success_baseline [of raw b2] that same engine_sizes(2) [OF inv that] send(4) bnd by simp
    moreover have "baseline (after_success now n l raw b2) po prv" if "\<not> DeltaEncoding (cfg b)" for l
      using base2 that same by (simp add: after_success_def count_success_def baseline_def)
    ultimately show ?thesis
      using send(8) inv2 base2 same park after_success_inv [OF inv2]
      by (cases res) (auto simp: run_inv_def after_success_def count_success_def)
  qed
qed

section \<open>Delivery without compressor and timeout\<close>

lemma deliver_direct:
  assumes "Compressor (cfg b) = None" and "FlushTimeout (cfg b) = 0"
  shows "deliver sink now ctx p w b =
    (case Flush sink ctx p (env w) of
       (s, Stalls) \<Rightarrow> Ret (w\<lparr>env := s\<rparr>, b, ParkedInFlush)
     | (s, Returns None) \<Rightarrow> Ret (w\<lparr>env := s\<rparr>, b, Delivered (length p))
     | (s, ReturnsUnstored None) \<Rightarrow> Ret (w\<lparr>env := s\<rparr>, b, Delivered (length p))
     | (s, Returns (Some e)) \<Rightarrow>
         (case reportError now e (w\<lparr>env := s\<rparr>) (b\<lparr>flushErrs := flushErrs b + 1\<rparr>) of (w', b') \<Rightarrow> Ret (w', b', Failed))
     | (s, ReturnsUnstored (Some e)) \<Rightarrow>
         (case reportError now e (w\<lparr>env := s\<rparr>) (b\<lparr>flushErrs := flushErrs b + 1\<rparr>) of (w', b') \<Rightarrow> Ret (w', b', Failed)))"
  using assms
  by (simp add: deliver_def compress_payload_def flushWithTimeout_def split: prod.split completion.split option.split)

text \<open>A sink that always returns nil.\<close>

definition never_fails :: "'s sink_ops \<Rightarrow> bool" where
  "never_fails sink \<longleftrightarrow> (\<forall>ctx p s. \<exists>s'. Flush sink ctx p s = (s', Returns None))"

text \<open>A configuration under which no batch is lost.\<close>

definition lossless :: "'s Config \<Rightarrow> bool" where
  "lossless c \<longleftrightarrow> Compressor c = None \<and> FlushTimeout c = 0 \<and> (\<exists>sink. Sink c = Some sink \<and> never_fails sink)"

lemma lossless_delivers:
  assumes "lossless (cfg b)" and "Sink (cfg b) = Some sink" and "deliver sink now ctx p w b = Ret (w', b', res)"
  shows "res = Delivered (length p)"
proof -
  obtain s where "Flush sink ctx p (env w) = (s, Returns None)"
    using assms(1,2) unfolding lossless_def never_fails_def by fastforce
  then show ?thesis using assms deliver_direct [of b sink now ctx p w] by (auto simp: lossless_def)
qed

section \<open>What one drain does with the items\<close>

text \<open>
  A drain takes items from the queue: those it sent, those lost with a batch that was
  not delivered, and at most one it counted as truncated. Meanwhile \<open>concat arr\<close> is pushed.
\<close>

text \<open>The number of items in the batch that a drain with the pushes \<open>arr\<close> collects.\<close>

definition batch_count :: "'a marshal \<Rightarrow> 'a list list \<Rightarrow> ('a, 's) Batcher \<Rightarrow> nat" where
  "batch_count marshal arr b = (case drain_queue marshal arr b of Ret (b', offset, n) \<Rightarrow> n | _ \<Rightarrow> 0)"

lemma drain_accounts:
  assumes inv: "engine_inv b" and base: "baseline b po prv"
    and eq: "drainAndFlush marshal le arr now ctx w b po k = Ret (w', b', po', k', st)"
  shows "\<exists>ys sent lost t. flow b (concat arr) ys (ring b') (dropped b') \<and> length ys = sent + lost + t \<and> t \<le> 1 \<and>
    flushedItems b' = flushedItems b + of_nat sent \<and> truncated b' = truncated b + of_nat t \<and>
    flushedBatches b' = flushedBatches b + (if sent = 0 then 0 else 1) \<and>
    (sent = 0 \<longrightarrow> previousState b' = previousState b \<and> po' = po \<and> k' = k) \<and> (sent = 0 \<or> lost = 0) \<and>
    sequenceID b' = sequenceID b + (if Sink (cfg b) \<noteq> None \<and> 0 < sent + lost then 1 else 0) \<and>
    (lossless (cfg b) \<longrightarrow> lost = 0) \<and> sent + lost = batch_count marshal arr b"
proof -
  obtain ys r d buf offset n trunc where col: "collects marshal arr b ys r d buf offset n trunc"
    using collects_exists [OF inv] by blast
  then have fl: "flow b (concat arr) ys r d" and cnt: "batch_count marshal arr b = n"
    by (simp_all add: collects_def batch_count_def)
  obtain t where t: "t \<le> (1::nat)" "trunc = truncated b + of_nat t" "length ys = n + t"
    using collects_bounds(6) [OF inv col] by blast
  from inv base col show ?thesis
  proof (cases rule: drain_outcome [where k = k and now = now and ctx = ctx and w = w and le = le])
    case idle
    then have "\<not> (Sink (cfg b) \<noteq> None \<and> 0 < 0 + n)" "lossless (cfg b) \<longrightarrow> n = 0" by (auto simp: lossless_def)
    with idle(2) eq t fl cnt show ?thesis
      by (intro exI [of _ ys] exI [of _ "0::nat"] exI [of _ n] exI [of _ t]) auto
  next
    case (send sink raw db w2 b2 res)
    have same: "ring b2 = r" "flushedItems b2 = flushedItems b" "truncated b2 = trunc" "flushedBatches b2 = flushedBatches b"
      "previousState b2 = previousState b" "sequenceID b2 = sequenceID b + 1" "dropped b2 = d"
      using send(7) by (simp_all add: side_state_def stamped_def)
    show ?thesis
    proof (cases "\<exists>len. res = Delivered len")
      case True
      then obtain len where "b' = after_success now n len raw b2" using eq send(8) by auto
      then show ?thesis using same t send(1,2) fl cnt
        by (intro exI [of _ ys] exI [of _ n] exI [of _ "0::nat"] exI [of _ t]) simp
    next
      case False
      then have "b' = b2" "po' = po" "k' = k" using eq send(8) by (cases res; simp)+
      moreover have "\<not> lossless (cfg b)"
        using lossless_delivers [OF _ _ send(6)] False send(2) by (auto simp: stamped_def)
      ultimately show ?thesis using same t send(1,2) fl cnt
        by (intro exI [of _ ys] exI [of _ "0::nat"] exI [of _ n] exI [of _ t]) simp
    qed
  qed
qed

lemma flow_quiet: "engine_inv b \<Longrightarrow> flow b [] ys r d \<Longrightarrow> items (ring b) = ys @ items r"
  using rq.bounded [of "ring b"] by (simp add: flow_def engine_inv_def)

lemma collects_body:
  assumes inv: "engine_inv b" and ser: "serializable marshal enc (MaxItemSize (cfg b))"
    and col: "collects marshal arr b ys r d buf offset n trunc"
  shows "frame_body buf offset = concat (map enc ys)"
proof -
  note enc = collects_enc [OF inv ser col]
  have "frame_body buf offset = drop 8 (take (nat offset) buf)"
    using enc(3) by (simp add: frame_body_def take_drop)
  then show ?thesis unfolding enc(4) using engine_sizes(1) [OF inv] by simp
qed

text \<open>With a \<^verbatim>\<open>Marshal\<close> that keeps its contract, a drain of a non-empty queue collects a batch.\<close>

lemma collects_quiet:
  assumes inv: "engine_inv b" and ser: "serializable marshal enc (MaxItemSize (cfg b))"
    and room: "8 + MaxItemSize (cfg b) \<le> MaxBatchSize (cfg b)" and ne: "items (ring b) \<noteq> []"
  shows "\<exists>r d n buf offset. collects marshal [] b (take n (items (ring b))) r d buf offset n (truncated b) \<and>
    items r = drop n (items (ring b)) \<and>
    0 < n \<and> n \<le> length (items (ring b)) \<and> frame_body buf offset = concat (map enc (take n (items (ring b)))) \<and>
    offset = 8 + int (length (concat (map enc (take n (items (ring b)))))) \<and>
    (n < length (items (ring b)) \<longrightarrow> n = 65535 \<or> int (length (byteBuffer b)) - offset < MaxItemSize (cfg b))"
proof -
  note sz = engine_sizes(1) [OF inv]
  have lb: "int (length (byteBuffer b)) = MaxBatchSize (cfg b)"
    using inv by (simp add: engine_inv_def buffers_ok_def cfg_ok_def batch_headerSize_def Let_def)
  obtain ys r d buf offset n trunc where col: "collects marshal [] b ys r d buf offset n trunc"
    using collects_exists [OF inv] by blast
  note enc = collects_enc [OF inv ser col]
  have "flow b [] ys r d" using col by (simp add: collects_def)
  note it = flow_quiet [OF inv this]
  have stop: "items r = [] \<or> n = 65535 \<or> int (length (byteBuffer b)) - offset < MaxItemSize (cfg b)"
    using col enc(2) collects_bounds(1,4) [OF inv col] by (auto simp: collects_def)
  have "n \<noteq> 0"
  proof
    assume "n = 0"
    then show False using stop it ne enc(1,3) lb room by auto
  qed
  then have pos: "0 < n" by simp
  have ys: "ys = take n (items (ring b))" "items r = drop n (items (ring b))" "n \<le> length (items (ring b))"
    using it enc(1) by simp_all
  note out = col [unfolded enc(2)] collects_body [OF inv ser col] enc(3)
  have mx: "n < length (items (ring b)) \<longrightarrow> n = 65535 \<or> int (length (byteBuffer b)) - offset < MaxItemSize (cfg b)"
    using stop it enc(1) by (metis append_Nil2 less_irrefl)
  show ?thesis
    by (rule exI [of _ r], rule exI [of _ d], rule exI [of _ n], rule exI [of _ buf], rule exI [of _ offset])
      (intro conjI out [unfolded ys(1)] ys(2,3) pos mx)
qed

section \<open>Properties\<close>

text \<open>An engine for the witnesses: delta encoding over a recording sink, batches of two bytes.\<close>

definition delta_config :: "u32 \<Rightarrow> recording Config" where
  "delta_config interval = \<lparr>Sink = Some ReliableRecordingSink, Compressor = None, OnFlushError = None, QueueSize = 4,
     MaxBatchSize = 10, MaxItemSize = 1, TickRate = 60, Backpressure = DropOldest, ShutdownTimeout = 0,
     FlushTimeout = 0, DeltaEncoding = True, KeyframeInterval = interval\<rparr>"

text \<open>A one-byte item.\<close>

definition byte_marshal :: "byte marshal" where
  "byte_marshal x buf = (if buf = [] then (buf, 0) else (buf[0 := x], 1))"

lemma serializable_byte: "serializable byte_marshal (\<lambda>x. [x]) 1"
proof
  fix buf :: bytes and x
  show "byte_marshal x buf = ([x] @ drop (length [x]) buf, int (length [x]))" if "1 \<le> int (length buf)"
    using that by (cases buf) (simp_all add: byte_marshal_def)
qed simp_all

lemma delta_config_accepted: "accepted (effective 1 (delta_config i))"
  by (simp add: accepted_def effective_def delta_config_def is_pow2_def wrap64_def ReliableRecordingSink_def)

lemma delta_batcher:
  "\<exists>b. New (0::byte) 1 (delta_config i) = Ret (Inr b) \<and> engine_inv b \<and> items (ring b) = [] \<and>
     cfg b = delta_config i \<and> baseline b 0 [] \<and> flushedItems b = 0 \<and> truncated b = 0 \<and> sequenceID b = 0 \<and>
     previousState b = make_bytes 10"
proof -
  have "QueueSize (delta_config i) \<noteq> 1" by (simp add: delta_config_def)
  from New_inv [OF delta_config_accepted this, of "0::byte"]
  show ?thesis
    by (auto simp: baseline_def zext_def make_bytes_def effective_def delta_config_def)
qed

text \<open>
  C15: one drain, whatever \<^verbatim>\<open>Marshal\<close>, \<^verbatim>\<open>Compress\<close>, \<^verbatim>\<open>Sink.Flush\<close> and the error callback do (a \<^verbatim>\<open>Marshal\<close> that
  reports a negative or an over-long size, a compressor that returns an out-of-range count). It
  returns: no index or slice bound is violated and no loop spins, and the only way not to complete
  is to be blocked in a sink call that does not return when there is no flush timeout. The
  invariant, with the buffers' sizes, holds again afterwards. Items are conserved: producers push
  \<open>concat arr\<close> at any points of its loop; the items \<open>ys\<close> it takes and then those left queued are a
  subsequence of the queue before and the pushed ones, in order, and what is missing is counted as
  dropped or evicted; with room for everything nothing is missing. Every item taken is sent (and
  counted in \<^verbatim>\<open>flushedItems\<close>), or truncated (and counted, at most one per drain), or lost with a batch
  that was not delivered, which no counter of items records. A drain that sends nothing leaves the
  delta baseline, \<^verbatim>\<open>prevOffset\<close> and the keyframe position alone; the sequence number moves with
  every attempt.
\<close>

theorem drain_conserves_items:
  assumes "engine_inv b" and "baseline b po prv"
  shows "\<exists>w' b' po' k' st ys sent lost t.
    drainAndFlush marshal le arr now ctx w b po k = Ret (w', b', po', k', st) \<and>
    run_inv b' po' \<and> cfg b' = cfg b \<and> (st = Parked \<longrightarrow> FlushTimeout (cfg b) = 0) \<and>
    subseq (ys @ items (ring b')) (items (ring b) @ concat arr) \<and>
    DroppedCount b' + EvictedCount b' + of_nat (length (ys @ items (ring b'))) =
      DroppedCount b + EvictedCount b + of_nat (length (items (ring b) @ concat arr)) \<and>
    (length (items (ring b) @ concat arr) \<le> cap (ring b) \<longrightarrow> items (ring b) @ concat arr = ys @ items (ring b')) \<and>
    length ys = sent + lost + t \<and> (sent = 0 \<or> lost = 0) \<and> t \<le> 1 \<and>
    FlushedItems b' = FlushedItems b + of_nat sent \<and> TruncatedCount b' = TruncatedCount b + of_nat t \<and>
    FlushedBatches b' = FlushedBatches b + (if sent = 0 then 0 else 1) \<and>
    (sent = 0 \<longrightarrow> previousState b' = previousState b \<and> po' = po \<and> k' = k) \<and>
    sequenceID b' = sequenceID b + (if Sink (cfg b) \<noteq> None \<and> 0 < sent + lost then 1 else 0)"
proof -
  obtain w' b' po' k' st where d: "drainAndFlush marshal le arr now ctx w b po k = Ret (w', b', po', k', st)"
    "run_inv b' po'" "cfg b' = cfg b" "st = Parked \<longrightarrow> FlushTimeout (cfg b) = 0"
    using drain_inv [OF assms, of marshal le arr now ctx w k] by blast
  obtain ys sent lost t where a: "flow b (concat arr) ys (ring b') (dropped b')" "length ys = sent + lost + t" "t \<le> 1"
    "flushedItems b' = flushedItems b + of_nat sent" "truncated b' = truncated b + of_nat t"
    "flushedBatches b' = flushedBatches b + (if sent = 0 then 0 else 1)"
    "sent = 0 \<longrightarrow> previousState b' = previousState b \<and> po' = po \<and> k' = k" "sent = 0 \<or> lost = 0"
    "sequenceID b' = sequenceID b + (if Sink (cfg b) \<noteq> None \<and> 0 < sent + lost then 1 else 0)"
    using drain_accounts [OF assms d(1)] by blast
  show ?thesis
    unfolding FlushedItems_def TruncatedCount_def FlushedBatches_def DroppedCount_def EvictedCount_def
    using d a(1) [unfolded flow_def] a(2-9)
    by (intro exI [of _ w'] exI [of _ b'] exI [of _ po'] exI [of _ k'] exI [of _ st] exI [of _ ys] exI [of _ sent] exI [of _ lost] exI [of _ t])
      blast
qed

theorem drain_conserves_items_witness:
  "\<exists>b w' b' po' k' st ys. New (0::byte) 1 (delta_config 0) = Ret (Inr b) \<and>
     drainAndFlush byte_marshal True [[7], [8, 9]] 5 Background \<lparr>env = \<lparr>Err = None, payloads = []\<rparr>, slog = []\<rparr> b 0 0 =
       Ret (w', b', po', k', st) \<and> run_inv b' po' \<and> [7, 8, 9] = ys @ items (ring b')"
proof -
  obtain b where b: "New (0::byte) 1 (delta_config 0) = Ret (Inr b)" "engine_inv b" "baseline b 0 []"
    "items (ring b) = []" "cfg b = delta_config 0"
    using delta_batcher by blast
  have cap: "length (items (ring b) @ concat [[7], [8, 9]]) \<le> cap (ring b)" "items (ring b) @ concat [[7], [8, 9]] = [7, 8, 9]"
    using b(2,4,5) by (simp_all add: engine_inv_def delta_config_def)
  from drain_conserves_items [OF b(2,3), of byte_marshal True "[[7], [8, 9]]" 5 Background
      "\<lparr>env = \<lparr>Err = None, payloads = []\<rparr>, slog = []\<rparr>" 0] cap b(1)
  show ?thesis by metis
qed

text \<open>
  C14: the emitted frame. With a well-behaved \<^verbatim>\<open>Marshal\<close>, a non-empty queue, room for an item, no
  delta encoding, compressor or flush timeout, a sink that returns nil, and no pushes meanwhile, one drain calls
  the sink once with a frame that \<^verbatim>\<open>Decode\<close> accepts: the next sequence number, the number \<open>n\<close> of
  items, and as body the encodings of the first \<open>n\<close> queued items in order. \<open>n\<close> is maximal: the
  queue is empty afterwards, or the next item might not fit, or the count field is full.
\<close>

theorem drain_emits_frame:
  assumes "engine_inv b" and "baseline b po prv" and "serializable marshal enc (MaxItemSize (cfg b))"
    and "8 + MaxItemSize (cfg b) \<le> MaxBatchSize (cfg b)" and "items (ring b) \<noteq> []"
    and "\<not> DeltaEncoding (cfg b)" and "Compressor (cfg b) = None" and "FlushTimeout (cfg b) = 0"
    and "Sink (cfg b) = Some sink" and "never_fails sink"
  shows "\<exists>n s b'. let body = concat (map enc (take n (items (ring b))));
        frame = mk_frame (sequenceID b + 1) (of_nat n) (integrity_tag False body) body in
    0 < n \<and> n \<le> length (items (ring b)) \<and> Flush sink ctx frame (env w) = (s, Returns None) \<and>
    drainAndFlush marshal le [] now ctx w b po k = Ret (w\<lparr>env := s\<rparr>, b', po, k, Completed) \<and>
    items (ring b') = drop n (items (ring b)) \<and> FlushedItems b' = FlushedItems b + of_nat n \<and>
    BytesFlushed b' = BytesFlushed b + of_nat (length frame) \<and>
    (\<exists>h. Decode frame = Inr (h, body) \<and> Seq h = sequenceID b + 1 \<and> Count h = of_nat n) \<and>
    (n < length (items (ring b)) \<longrightarrow> n = 65535 \<or> int (length (byteBuffer b)) - int (length frame) < MaxItemSize (cfg b))"
proof -
  obtain r d n buf offset where col: "collects marshal [] b (take n (items (ring b))) r d buf offset n (truncated b)"
    and r: "items r = drop n (items (ring b))"
    and n: "0 < n" "n \<le> length (items (ring b))" and body: "frame_body buf offset = concat (map enc (take n (items (ring b))))"
    and off: "offset = 8 + int (length (concat (map enc (take n (items (ring b))))))"
    and mx: "n < length (items (ring b)) \<longrightarrow> n = 65535 \<or> int (length (byteBuffer b)) - offset < MaxItemSize (cfg b)"
    using collects_quiet [OF assms(1,3-5)] by blast
  let ?body = "concat (map enc (take n (items (ring b))))"
  let ?frame = "mk_frame (sequenceID b + 1) (of_nat n) (integrity_tag False ?body) ?body"
  let ?st = "stamped b r d (truncated b) (?frame @ drop (nat offset) buf)"
  have raw: "?frame = raw_frame b k n (frame_body buf offset)"
    using assms(6) by (simp add: raw_frame_def body sends_keyframe_def)
  have "n \<noteq> 0" using n(1) by simp
  obtain db w' b2 res where del: "deliver sink now ctx (wire b k ?frame) w (?st db) = Ret (w', b2, res)"
    and eq: "drainAndFlush marshal le [] now ctx w b po k = Ret (conclude now n ?frame po k (w', b2, res))"
    using drainAndFlush_send [OF assms(1,2) col \<open>n \<noteq> 0\<close> assms(9) raw, where now = now and base = ctx and w = w and le = le] by blast
  obtain s where s: "Flush sink ctx ?frame (env w) = (s, Returns None)"
    using assms(10) unfolding never_fails_def by blast
  have "wire b k ?frame = ?frame" using assms(6) by (simp add: wire_def)
  with del s deliver_direct [of "?st db" sink now ctx ?frame w] assms(7,8)
  have res: "w' = w\<lparr>env := s\<rparr>" "res = Delivered (length ?frame)" "b2 = ?st db" by (auto simp: stamped_def)
  have "drainAndFlush marshal le [] now ctx w b po k =
      Ret (w\<lparr>env := s\<rparr>, after_success now n (length ?frame) ?frame b2, po, k, Completed)"
    using eq res assms(6) by (simp add: stamped_def)
  moreover have "int (length ?frame) = offset" using off by (simp add: headerSize_def)
  ultimately show ?thesis
    using n s r res(3) mx Decode_mk_frame [of "sequenceID b + 1" "of_nat n" False ?body]
    by (intro exI [of _ n] exI [of _ s] exI [of _ "after_success now n (length ?frame) ?frame b2"])
      (simp add: Let_def FlushedItems_def BytesFlushed_def stamped_def)
qed

text \<open>The same engine without delta encoding.\<close>

definition plain_config :: "nat list Config" where
  "plain_config = \<lparr>Sink = Some StdoutSink, Compressor = None, OnFlushError = None, QueueSize = 4,
     MaxBatchSize = 10, MaxItemSize = 1, TickRate = 60, Backpressure = DropOldest, ShutdownTimeout = 0,
     FlushTimeout = 0, DeltaEncoding = False, KeyframeInterval = 0\<rparr>"

lemma plain_batcher:
  "\<exists>b b1. New (0::byte) 1 plain_config = Ret (Inr b) \<and> Push b 7 = Ret b1 \<and> engine_inv b1 \<and> items (ring b1) = [7] \<and>
     cfg b1 = plain_config \<and> baseline b1 0 [] \<and> sequenceID b1 = 0"
proof -
  have acc: "accepted (effective 1 plain_config)" "QueueSize plain_config \<noteq> 1"
    by (simp_all add: accepted_def effective_def plain_config_def is_pow2_def wrap64_def)
  obtain b where b: "New (0::byte) 1 plain_config = Ret (Inr b)" "cfg b = effective 1 plain_config" "engine_inv b"
    "items (ring b) = []" "sequenceID b = 0"
    using New_inv [OF acc, of "0::byte"] by auto
  have "previousState b = []" using b(1) by (auto simp: New_def plain_config_def go_simps Let_def split: if_splits)
  then have base: "baseline b 0 []" by (simp add: baseline_def zext_def)
  have "depth (ring b) = 0" using b(4) length_items [of "ring b"] by simp
  moreover have "0 < cap (ring b)" using b(3) cap_pos [OF ring_invD(1)] by (fastforce simp: engine_inv_def)
  ultimately obtain r where r: "Push b 7 = Ret (b\<lparr>ring := r\<rparr>)" "items r = [7]"
    using Push_ring [OF b(3), of 7] b(4) by auto
  have "cfg b = plain_config" using b(2) by (simp add: effective_def plain_config_def)
  with b base r Push_inv [OF b(3) r(1)] show ?thesis by (auto simp: baseline_def)
qed

theorem drain_emits_frame_witness:
  "\<exists>b b' po' k'. items (ring b) = [7::byte] \<and>
     drainAndFlush byte_marshal True [] 5 Background \<lparr>env = [], slog = []\<rparr> b 0 0 =
       Ret (\<lparr>env = [9::nat], slog = []\<rparr>, b', po', k', Completed) \<and> items (ring b') = []"
proof -
  obtain b where b: "engine_inv b" "items (ring b) = [7::byte]" "cfg b = plain_config" "baseline b 0 []"
    using plain_batcher by blast
  have nf: "never_fails StdoutSink" by (simp add: never_fails_def StdoutSink_def)
  obtain n s b' where n: "0 < n" "n \<le> length (items (ring b))"
    "Flush StdoutSink Background (mk_frame (sequenceID b + 1) (of_nat n)
       (integrity_tag False (concat (map (\<lambda>x. [x]) (take n (items (ring b)))))) (concat (map (\<lambda>x. [x]) (take n (items (ring b)))))) [] =
       (s, Returns None)"
    "drainAndFlush byte_marshal True [] 5 Background \<lparr>env = [], slog = []\<rparr> b 0 0 = Ret (\<lparr>env = s, slog = []\<rparr>, b', 0, 0, Completed)"
    "items (ring b') = drop n (items (ring b))"
    using drain_emits_frame [of b 0 "[]" byte_marshal "\<lambda>x. [x]" StdoutSink Background "\<lparr>env = [], slog = []\<rparr>" True 5 0]
      b serializable_byte nf by (auto simp: plain_config_def Let_def)
  have "length (items (ring b)) = 1" using b(2) by simp
  then have "n = 1" using n(1,2) by linarith
  with n b(2) show ?thesis by (auto simp: StdoutSink_def headerSize_def)
qed

text \<open>The counter of the keyframe cycle after \<open>m\<close> successful flushes.\<close>

lemma keyframe_cycle:
  assumes "DeltaEncoding c"
  shows "sends_keyframe c ((next_keyframeN c ^^ m) 0) \<longleftrightarrow>
    KeyframeInterval c > 0 \<and> m mod unat (KeyframeInterval c) = 0"
proof (cases "KeyframeInterval c > 0")
  case False
  then show ?thesis by (simp add: sends_keyframe_def)
next
  case True
  let ?K = "unat (KeyframeInterval c)"
  have K: "0 < ?K" "?K < 2 ^ 32" using True unsigned_less [of "KeyframeInterval c"] by (auto simp: word_less_nat_alt)
  have "(next_keyframeN c ^^ m) 0 = of_nat (m mod ?K)"
  proof (induction m)
    case (Suc m)
    have lt: "m mod ?K < ?K" using K(1) by simp
    have un: "unat (of_nat (m mod ?K) + 1 :: u32) = Suc (m mod ?K)"
    proof -
      have "Suc (m mod ?K) < 2 ^ 32" using lt K(2) by linarith
      then have "unat (of_nat (Suc (m mod ?K)) :: u32) = Suc (m mod ?K)" by (simp only: unat_of_nat) simp
      then show ?thesis by (simp add: add.commute)
    qed
    have "next_keyframeN c (of_nat (m mod ?K)) = of_nat (Suc m mod ?K)"
      using True un lt by (auto simp: next_keyframeN_def Let_def word_le_nat_alt mod_Suc add.commute)
    then show ?case using Suc by simp
  qed simp
  moreover have "(of_nat (m mod ?K) :: u32) = 0 \<longleftrightarrow> m mod ?K = 0"
  proof -
    have "m mod ?K < 2 ^ 32" using K mod_less_divisor [of ?K m] by linarith
    then have "unat (of_nat (m mod ?K) :: u32) = m mod ?K" by (simp only: unat_of_nat) simp
    with unat_eq_0 [of "of_nat (m mod ?K) :: u32"] show ?thesis by (simp only:)
  qed
  ultimately show ?thesis using True assms by (simp add: sends_keyframe_def)
qed

text \<open>
  The keyframe schedule. Counting successful flushes from the start of the loop, with a
  positive \<^verbatim>\<open>KeyframeInterval\<close> the \<open>m\<close>-th one (from zero) is a keyframe exactly when the interval
  divides \<open>m\<close>; an interval of one makes every frame a keyframe, and an interval of zero none.
\<close>

lemma keyframe_schedule:
  assumes "DeltaEncoding c"
  shows "sends_keyframe c ((next_keyframeN c ^^ m) 0) \<longleftrightarrow>
    KeyframeInterval c > 0 \<and> m mod unat (KeyframeInterval c) = 0"
  by (rule keyframe_cycle [OF assms])

end
