(* ===== verification/Engine_Errors.thy ===== *)
theory Engine_Errors
  imports Engine_Facts
begin

unbundle bit_operations_syntax

text \<open>
  The error paths of the engine: the flush timeout and its in-flight guard, and the rate limit
  of the fallback log.
\<close>

section \<open>The flush timeout\<close>

text \<open>The snapshot that the flush goroutine sends: the payload, if the timeout buffer holds it.\<close>

lemma snapshot_eq:
  "take (min (length tb) (length p)) (go_copy tb p) = take (length tb) p"
  by (simp add: go_copy_def min_def)

lemma flushWithTimeout_armed:
  assumes "FlushTimeout (cfg b) \<noteq> 0"
  shows "flushWithTimeout sink ctx p w b =
    (if flushInFlight b then Ret (w, b, FlushReturned (Some ErrFlushTimeout))
     else
       let b1 = b\<lparr>timeoutBuf := go_copy (timeoutBuf b) p\<rparr> in
       case Flush sink (WithTimeout ctx (FlushTimeout (cfg b))) (take (length (timeoutBuf b)) p) (env w) of
         (s, Returns e) \<Rightarrow> Ret (w\<lparr>env := s\<rparr>, b1\<lparr>flushInFlight := False\<rparr>, FlushReturned e)
       | (s, ReturnsUnstored e) \<Rightarrow> Ret (w\<lparr>env := s\<rparr>, b1\<lparr>flushInFlight := True\<rparr>, FlushReturned e)
       | (s, Stalls) \<Rightarrow> Ret (w\<lparr>env := s\<rparr>, b1\<lparr>flushInFlight := True\<rparr>, FlushReturned (Some ErrFlushTimeout)))"
proof -
  let ?n = "min (length (timeoutBuf b)) (length p)"
  have "go_slice (go_copy (timeoutBuf b) p) 0 (int ?n) = Ret (take (length (timeoutBuf b)) p)"
    by (simp add: snapshot_eq)
  then show ?thesis
    using assms by (simp add: flushWithTimeout_def Let_def split: prod.split completion.split)
qed

section \<open>Properties\<close>

text \<open>
  The flush timeout. While an earlier \<^verbatim>\<open>Sink.Flush\<close> is in flight the sink is not called and the
  flush fails with \<^verbatim>\<open>ErrFlushTimeout\<close>; otherwise the sink is called once, with the deadline and a
  copy of the whole payload, and a stalled call gives \<^verbatim>\<open>ErrFlushTimeout\<close> and stays in flight.
  With a positive timeout the drain goroutine is never parked.
\<close>

lemma flush_timeout_guard:
  assumes "engine_inv b" and "FlushTimeout (cfg b) > 0" and "int (length p) \<le> MaxBatchSize (cfg b)"
  shows "if flushInFlight b then flushWithTimeout sink ctx p w b = Ret (w, b, FlushReturned (Some ErrFlushTimeout))
    else \<exists>b'. side_state b b' \<and>
      (case Flush sink (WithTimeout ctx (FlushTimeout (cfg b))) p (env w) of
         (s, Returns e) \<Rightarrow> flushWithTimeout sink ctx p w b = Ret (w\<lparr>env := s\<rparr>, b', FlushReturned e) \<and> \<not> flushInFlight b'
       | (s, ReturnsUnstored e) \<Rightarrow> flushWithTimeout sink ctx p w b = Ret (w\<lparr>env := s\<rparr>, b', FlushReturned e) \<and> flushInFlight b'
       | (s, Stalls) \<Rightarrow> flushWithTimeout sink ctx p w b = Ret (w\<lparr>env := s\<rparr>, b', FlushReturned (Some ErrFlushTimeout)) \<and>
           flushInFlight b')"
proof -
  have "length p \<le> length (timeoutBuf b)"
    using assms by (simp add: engine_inv_def buffers_ok_def Let_def)
  moreover have "side_state b (b\<lparr>timeoutBuf := go_copy (timeoutBuf b) p, flushInFlight := f\<rparr>)" for f
    by (simp add: side_state_def)
  moreover obtain s c where "Flush sink (WithTimeout ctx (FlushTimeout (cfg b))) p (env w) = (s, c)" by fastforce
  ultimately show ?thesis
    using flushWithTimeout_armed [of b sink ctx p w] assms(2)
    by (cases c) (auto simp: Let_def intro!: exI [of _ "b\<lparr>timeoutBuf := _, flushInFlight := _\<rparr>"])
qed

text \<open>A batcher with a flush timeout, for the witnesses.\<close>

definition timeout_config :: "int \<Rightarrow> nat list Config" where
  "timeout_config t = plain_config\<lparr>FlushTimeout := t\<rparr>"

lemma timeout_batcher:
  "\<exists>b. New (0::byte) 1 (timeout_config t) = Ret (Inr b) \<and> engine_inv b \<and> cfg b = timeout_config t \<and> \<not> flushInFlight b \<and>
     items (ring b) = []"
proof -
  have acc: "accepted (effective 1 (timeout_config t))" "QueueSize (timeout_config t) \<noteq> 1"
    by (simp_all add: accepted_def effective_def timeout_config_def plain_config_def is_pow2_def wrap64_def)
  from New_inv [OF acc, of "0::byte"] show ?thesis
    by (auto simp: timeout_config_def plain_config_def effective_def)
qed

text \<open>
  A spurious timeout. The flush goroutine sends its result before it clears \<^verbatim>\<open>flushInFlight\<close>; if
  it is descheduled in between, the flush is reported as successful, and the next one fails
  with \<^verbatim>\<open>ErrFlushTimeout\<close> at once although no sink call is running.
\<close>

lemma spurious_flush_timeout:
  assumes "FlushTimeout (cfg b) > 0" and "\<not> flushInFlight b"
    and "Flush sink (WithTimeout ctx (FlushTimeout (cfg b))) (take (length (timeoutBuf b)) p) (env w) = (s, ReturnsUnstored None)"
  shows "\<exists>b1. flushWithTimeout sink ctx p w b = Ret (w\<lparr>env := s\<rparr>, b1, FlushReturned None) \<and>
    flushWithTimeout sink ctx q (w\<lparr>env := s\<rparr>) b1 = Ret (w\<lparr>env := s\<rparr>, b1, FlushReturned (Some ErrFlushTimeout))"
  using assms flushWithTimeout_armed [of b sink ctx p w]
    flushWithTimeout_armed [of "b\<lparr>timeoutBuf := go_copy (timeoutBuf b) p, flushInFlight := True\<rparr>" sink ctx q "w\<lparr>env := s\<rparr>"]
  by (simp add: Let_def)

definition slow_store_sink :: "nat list sink_ops" where
  "slow_store_sink = \<lparr>Flush = (\<lambda>_ p s. (s @ [length p], ReturnsUnstored None)), Reliable = True\<rparr>"

text \<open>
  A negative \<^verbatim>\<open>FlushTimeout\<close>, which \<^verbatim>\<open>New\<close> accepts, loses every payload: the timeout buffer was
  never allocated, so the sink is handed an empty payload whatever the batch holds, and when
  its nil arrives before the expired context is noticed, the batch counts as delivered with
  its full length.
\<close>

lemma negative_flush_timeout_sends_nothing:
  assumes "engine_inv b" and "FlushTimeout (cfg b) < 0" and "\<not> flushInFlight b" and "Compressor (cfg b) = None"
    and "Flush sink (WithTimeout ctx (FlushTimeout (cfg b))) [] (env w) = (s, Returns None)"
  shows "\<exists>b'. deliver sink now ctx p w b = Ret (w\<lparr>env := s\<rparr>, b', Delivered (length p))"
proof -
  have "timeoutBuf b = []" using assms(1,2) by (simp add: engine_inv_def buffers_ok_def Let_def)
  then show ?thesis
    using assms(2-5) flushWithTimeout_armed [of b sink ctx p w]
    by (simp add: deliver_def compress_payload_def Let_def)
qed

end
