(* ===== verification/Engine_Run.thy ===== *)
theory Engine_Run
  imports Engine_Errors
begin

unbundle bit_operations_syntax

text \<open>
  The engine's goroutine: \<^verbatim>\<open>runLoop\<close> and \<^verbatim>\<open>finalDrain\<close> (\<^verbatim>\<open>batcher.go\<close>), driven by a list of events:
  ticks with the time they take, cancellation of the context, and, between them, what other
  goroutines do: pushes, and the late return of an abandoned flush. Every list of events is
  one schedule; the theorems hold for all of them. Pushes that overlap a drain carry their place
  among its queue operations (the argument \<open>arr\<close> of a tick); that the operations of the ring take
  effect one after the other is what \<^verbatim>\<open>Ring_Linearizable\<close> shows.
\<close>

section \<open>The loop\<close>

text \<open>
  \<open>now\<close> is the time of the flush, \<open>later\<close> that of the shutdown report. With a shutdown timeout the
  drain runs on its own goroutine and the final \<^verbatim>\<open>select\<close> takes one of two cases. \<open>Parked\<close>: the drain
  never ends, and the deadline is taken. \<open>expired\<close>: the deadline is taken although the drain does
  end (at the deadline, or after it on the abandoned goroutine); the state is the one once it
  has, with the shutdown report ordered behind the drain's own.
\<close>

definition finalDrain ::
  "'a marshal \<Rightarrow> bool \<Rightarrow> bool \<Rightarrow> 'a list list \<Rightarrow> int \<Rightarrow> int \<Rightarrow> 's world \<Rightarrow> ('a, 's) Batcher \<Rightarrow> int \<Rightarrow> u32 \<Rightarrow>
   ('s world \<times> ('a, 's) Batcher \<times> int \<times> u32 \<times> drain_status) go" where
  "finalDrain marshal le expired arr now later w b prevOffset keyframeN =
     (if ShutdownTimeout (cfg b) \<le> 0
      then drainAndFlush marshal le arr now Background w b prevOffset keyframeN
      else
        let base = WithTimeout Background (ShutdownTimeout (cfg b)) in
        go_bind (drainAndFlush marshal le arr now base w b prevOffset keyframeN) (\<lambda>(w1, b1, po1, k1, st).
        if st = Completed \<and> \<not> expired then Ret (w1, b1, po1, k1, Completed)
        else
            (case reportError later (ErrShutdown (ShutdownTimeout (cfg b))) w1 b1 of
               (w2, b2) \<Rightarrow> Ret (w2, b2, po1, k1, Completed))))"

definition tickInterval :: "'s Config \<Rightarrow> int" where
  "tickInterval c = 1000000000 div TickRate c"

text \<open>The tick slippage added after a drain that took \<open>elapsed\<close> nanoseconds.\<close>

definition count_slippage :: "int \<Rightarrow> ('a, 's) Batcher \<Rightarrow> ('a, 's) Batcher" where
  "count_slippage elapsed b =
     (if elapsed > tickInterval (cfg b)
      then b\<lparr>coalescedTicks := coalescedTicks b + (of_int (elapsed div tickInterval (cfg b)) - 1)\<rparr>
      else b)"

datatype loop_status = Running | Stopped | Stuck

record ('a, 's) loop_state =
  lworld :: "'s world"
  engine :: "('a, 's) Batcher"
  prevOffset :: int
  keyframeN :: u32
  status :: loop_status

datatype 'a event =
    Produce 'a            \<comment> \<open>a producer calls Push\<close>
  | LateReturn            \<comment> \<open>an abandoned flush goroutine clears flushInFlight\<close>
  | Tick "'a list list" int int    \<comment> \<open>tickC: pushes during the drain, time of the flush, duration\<close>
  | Cancel bool "'a list list" int int
      \<comment> \<open>ctx.Done(): is the shutdown deadline taken, pushes during the drain, times of flush and report\<close>

definition runLoop_start :: "'s world \<Rightarrow> ('a, 's) Batcher \<Rightarrow> ('a, 's) loop_state" where
  "runLoop_start w b = \<lparr>lworld = w, engine = b, prevOffset = 0, keyframeN = 0, status = Running\<rparr>"

fun runLoop_step :: "'a marshal \<Rightarrow> bool \<Rightarrow> 'a event \<Rightarrow> ('a, 's) loop_state \<Rightarrow> ('a, 's) loop_state go" where
  "runLoop_step marshal le (Produce x) s = go_bind (Push (engine s) x) (\<lambda>b. Ret (s\<lparr>engine := b\<rparr>))"
| "runLoop_step marshal le LateReturn s = Ret (s\<lparr>engine := (engine s)\<lparr>flushInFlight := False\<rparr>\<rparr>)"
| "runLoop_step marshal le (Tick arr now elapsed) s =
     (if status s \<noteq> Running then go_bind (pushes (concat arr) (engine s)) (\<lambda>b. Ret (s\<lparr>engine := b\<rparr>))
      else
        go_bind (drainAndFlush marshal le arr now Background (lworld s) (engine s) (prevOffset s) (keyframeN s))
          (\<lambda>(w, b, po, k, st).
          case st of
            Parked \<Rightarrow> Ret \<lparr>lworld = w, engine = b, prevOffset = po, keyframeN = k, status = Stuck\<rparr>
          | Completed \<Rightarrow> Ret \<lparr>lworld = w, engine = count_slippage elapsed b, prevOffset = po, keyframeN = k, status = Running\<rparr>))"
| "runLoop_step marshal le (Cancel expired arr now later) s =
     (if status s \<noteq> Running then go_bind (pushes (concat arr) (engine s)) (\<lambda>b. Ret (s\<lparr>engine := b\<rparr>))
      else
        go_bind (finalDrain marshal le expired arr now later (lworld s) (engine s) (prevOffset s) (keyframeN s))
          (\<lambda>(w, b, po, k, st).
          Ret \<lparr>lworld = w, engine = b, prevOffset = po, keyframeN = k,
               status = (case st of Parked \<Rightarrow> Stuck | Completed \<Rightarrow> Stopped)\<rparr>))"

fun runLoop :: "'a marshal \<Rightarrow> bool \<Rightarrow> 'a event list \<Rightarrow> ('a, 's) loop_state \<Rightarrow> ('a, 's) loop_state go" where
  "runLoop marshal le [] s = Ret s"
| "runLoop marshal le (e # es) s = go_bind (runLoop_step marshal le e s) (runLoop marshal le es)"

section \<open>Invariant and accounting\<close>

definition loop_inv :: "('a, 's) loop_state \<Rightarrow> bool" where
  "loop_inv s \<longleftrightarrow> run_inv (engine s) (prevOffset s)"

text \<open>Where the items are: queued, or in one of the counters.\<close>

definition balance :: "('a, 's) Batcher \<Rightarrow> u64" where
  "balance b = of_nat (length (items (ring b))) + dropped b + evicted (ring b) + truncated b + flushedItems b"

lemma balance_side: "side_state b b' \<Longrightarrow> balance b' = balance b"
  by (simp add: balance_def side_state_def)

lemma run_inv_side: "side_state b b' \<Longrightarrow> run_inv b po \<Longrightarrow> run_inv b' po"
  using side_state_buffers [of b b'] by (simp add: run_inv_def engine_inv_def baseline_def side_state_def)

text \<open>One drain, as the loop sees it.\<close>

text \<open>The items of its batch are lost when it counts no flushed batch.\<close>

definition lost_between :: "'a marshal \<Rightarrow> 'a list list \<Rightarrow> ('a, 's) Batcher \<Rightarrow> ('a, 's) Batcher \<Rightarrow> nat" where
  "lost_between marshal arr b b' = (if flushedBatches b' = flushedBatches b then batch_count marshal arr b else 0)"

lemma drain_step:
  assumes "run_inv b po"
  shows "\<exists>w' b' po' k' st lost. drainAndFlush marshal le arr now ctx w b po k = Ret (w', b', po', k', st) \<and>
    run_inv b' po' \<and> cfg b' = cfg b \<and> balance b' + of_nat lost = balance b + of_nat (length (concat arr)) \<and>
    (lossless (cfg b) \<longrightarrow> lost = 0) \<and> lost = lost_between marshal arr b b'"
proof -
  from assms obtain prv where inv: "engine_inv b" "baseline b po prv" by (auto simp: run_inv_def)
  obtain w' b' po' k' st where eq: "drainAndFlush marshal le arr now ctx w b po k = Ret (w', b', po', k', st)"
    "run_inv b' po'" "cfg b' = cfg b"
    using drain_inv [OF inv, of marshal le arr now ctx w k] by blast
  obtain ys sent lost t where "flow b (concat arr) ys (ring b') (dropped b')" "length ys = sent + lost + t"
    "flushedItems b' = flushedItems b + of_nat sent" "truncated b' = truncated b + of_nat t" "lossless (cfg b) \<longrightarrow> lost = 0"
    and fate: "flushedBatches b' = flushedBatches b + (if sent = 0 then 0 else 1)" "sent = 0 \<or> lost = 0" "sent + lost = batch_count marshal arr b"
    using drain_accounts [OF inv eq(1)] by blast
  then have "balance b' + of_nat lost = balance b + of_nat (length (concat arr))" "lossless (cfg b) \<longrightarrow> lost = 0"
    by (simp_all add: balance_def flow_def algebra_simps)
  moreover have "lost = lost_between marshal arr b b'" using fate by (auto simp: lost_between_def)
  ultimately show ?thesis using eq by blast
qed

lemma finalDrain_step:
  assumes "run_inv b po"
  shows "\<exists>w' b' po' k' st lost. finalDrain marshal le expired arr now later w b po k = Ret (w', b', po', k', st) \<and>
    run_inv b' po' \<and> cfg b' = cfg b \<and> balance b' + of_nat lost = balance b + of_nat (length (concat arr)) \<and>
    (lossless (cfg b) \<longrightarrow> lost = 0) \<and> lost = lost_between marshal arr b b' \<and> (0 < ShutdownTimeout (cfg b) \<longrightarrow> st = Completed)"
proof (cases "ShutdownTimeout (cfg b) \<le> 0")
  case True
  then show ?thesis using drain_step [OF assms, of marshal le arr now Background w k] by (auto simp: finalDrain_def)
next
  case False
  obtain w' b' po' k' st lost where d: "drainAndFlush marshal le arr now (WithTimeout Background (ShutdownTimeout (cfg b))) w b po k =
      Ret (w', b', po', k', st)"
    "run_inv b' po'" "cfg b' = cfg b" "balance b' + of_nat lost = balance b + of_nat (length (concat arr))" "lossless (cfg b) \<longrightarrow> lost = 0"
    "lost = lost_between marshal arr b b'"
    using drain_step [OF assms] by blast
  obtain w2 b2 where rep: "reportError later (ErrShutdown (ShutdownTimeout (cfg b))) w' b' = (w2, b2)" by fastforce
  have side: "side_state b' b2" using reportError_side [of b' later "ErrShutdown (ShutdownTimeout (cfg b))" w'] rep by simp
  then have "run_inv b2 po'" "cfg b2 = cfg b" "balance b2 + of_nat lost = balance b + of_nat (length (concat arr))"
    "lost = lost_between marshal arr b b2"
    using d run_inv_side [OF side] balance_side [OF side] side by (simp_all add: side_state_def lost_between_def)
  with False d rep show ?thesis by (cases "st = Completed \<and> \<not> expired") (auto simp: finalDrain_def Let_def)
qed

lemma pushes_balance:
  assumes "run_inv b po"
  shows "\<exists>b'. pushes xs b = Ret b' \<and> run_inv b' po \<and> cfg b' = cfg b \<and> balance b' = balance b + of_nat (length xs)"
proof -
  have inv: "engine_inv b" using assms by (simp add: run_inv_def)
  obtain r d where p: "pushes xs b = Ret (b\<lparr>ring := r, dropped := d\<rparr>)" "flow b xs [] r d"
    using flow_pushes [OF inv] by blast
  have "run_inv (b\<lparr>ring := r, dropped := d\<rparr>) po"
    using flow_inv [OF inv p(2)] assms by (auto simp: run_inv_def baseline_def)
  with p show ?thesis by (simp add: balance_def flow_def algebra_simps)
qed

lemma Push_balance:
  assumes "run_inv b po"
  shows "\<exists>b'. Push b x = Ret b' \<and> run_inv b' po \<and> cfg b' = cfg b \<and> balance b' = balance b + 1"
  using pushes_balance [OF assms, of "[x]"] by (auto simp: go_simps)

text \<open>Every step returns, keeps the invariant and moves the balance by the item it produced.\<close>

primrec pushed :: "'a event \<Rightarrow> 'a list" where
  "pushed (Produce x) = [x]" | "pushed LateReturn = []" | "pushed (Tick arr n e) = concat arr"
| "pushed (Cancel x arr n l) = concat arr"

lemma count_slippage_simps [simp]:
  "cfg (count_slippage e b) = cfg b" "balance (count_slippage e b) = balance b"
  "run_inv (count_slippage e b) po = run_inv b po"
  by (simp_all add: count_slippage_def balance_def run_inv_def engine_inv_def buffers_ok_def baseline_def)

lemma lost_between_slippage [simp]: "lost_between marshal arr b (count_slippage e b') = lost_between marshal arr b b'"
  by (simp add: lost_between_def count_slippage_def)

text \<open>The items that an event between the states \<open>s\<close> and \<open>s'\<close> of the loop has taken out of the queue without
  delivering them: those of the batch that it drained, when that was not flushed.\<close>

primrec undelivered :: "'a marshal \<Rightarrow> 'a event \<Rightarrow> ('a, 's) loop_state \<Rightarrow> ('a, 's) loop_state \<Rightarrow> nat" where
  "undelivered marshal (Produce x) s s' = 0"
| "undelivered marshal LateReturn s s' = 0"
| "undelivered marshal (Tick arr n e) s s' =
     (if status s = Running then lost_between marshal arr (engine s) (engine s') else 0)"
| "undelivered marshal (Cancel x arr n l) s s' =
     (if status s = Running then lost_between marshal arr (engine s) (engine s') else 0)"

fun lost_items :: "'a marshal \<Rightarrow> bool \<Rightarrow> 'a event list \<Rightarrow> ('a, 's) loop_state \<Rightarrow> nat" where
  "lost_items marshal le [] s = 0"
| "lost_items marshal le (e # es) s =
     (case runLoop_step marshal le e s of Ret s' \<Rightarrow> undelivered marshal e s s' + lost_items marshal le es s' | _ \<Rightarrow> 0)"

text \<open>What one event of the loop may do: keep the invariant and account for the items.\<close>

definition step_ok :: "('a, 's) loop_state \<Rightarrow> ('a, 's) loop_state go \<Rightarrow> nat \<Rightarrow> (('a, 's) loop_state \<Rightarrow> nat) \<Rightarrow> bool" where
  "step_ok s g n lost \<longleftrightarrow> (\<exists>s'. g = Ret s' \<and> loop_inv s' \<and> cfg (engine s') = cfg (engine s) \<and>
    balance (engine s') + of_nat (lost s') = balance (engine s) + of_nat n \<and> (lossless (cfg (engine s)) \<longrightarrow> lost s' = 0))"

lemma step_ok_stopped:
  assumes "loop_inv s" and "\<And>s'. lost s' = 0"
  shows "step_ok s (go_bind (pushes xs (engine s)) (\<lambda>b. Ret (s\<lparr>engine := b\<rparr>))) (length xs) lost"
  using pushes_balance [of "engine s" "prevOffset s" xs] assms by (auto simp: loop_inv_def step_ok_def)

lemma tick_ok:
  assumes "loop_inv s"
  shows "step_ok s (runLoop_step marshal le (Tick arr now el) s) (length (concat arr)) (undelivered marshal (Tick arr now el) s)"
proof (cases "status s = Running")
  case True
  obtain w' b' po' k' st lost where "drainAndFlush marshal le arr now Background (lworld s) (engine s) (prevOffset s) (keyframeN s) =
      Ret (w', b', po', k', st)" "run_inv b' po'" "cfg b' = cfg (engine s)"
    "balance b' + of_nat lost = balance (engine s) + of_nat (length (concat arr))" "lossless (cfg (engine s)) \<longrightarrow> lost = 0"
    "lost = lost_between marshal arr (engine s) b'"
    using drain_step [of "engine s" "prevOffset s"] assms unfolding loop_inv_def by blast
  then show ?thesis using True by (cases st) (auto simp: step_ok_def loop_inv_def)
next
  case False
  then show ?thesis using step_ok_stopped [OF assms, of "undelivered marshal (Tick arr now el) s" "concat arr"] by simp
qed

lemma cancel_ok:
  assumes "loop_inv s"
  shows "step_ok s (runLoop_step marshal le (Cancel expired arr now later) s) (length (concat arr))
    (undelivered marshal (Cancel expired arr now later) s)"
proof (cases "status s = Running")
  case True
  obtain w' b' po' k' st lost where "finalDrain marshal le expired arr now later (lworld s) (engine s) (prevOffset s) (keyframeN s) =
      Ret (w', b', po', k', st)" "run_inv b' po'" "cfg b' = cfg (engine s)"
    "balance b' + of_nat lost = balance (engine s) + of_nat (length (concat arr))" "lossless (cfg (engine s)) \<longrightarrow> lost = 0"
    "lost = lost_between marshal arr (engine s) b'"
    using finalDrain_step [of "engine s" "prevOffset s"] assms unfolding loop_inv_def by blast
  then show ?thesis using True by (auto simp: step_ok_def loop_inv_def)
next
  case False
  then show ?thesis using step_ok_stopped [OF assms, of "undelivered marshal (Cancel expired arr now later) s" "concat arr"] by simp
qed

lemma loop_step_ok:
  assumes "loop_inv s"
  shows "step_ok s (runLoop_step marshal le e s) (length (pushed e)) (undelivered marshal e s)"
proof (cases e)
  case (Produce x)
  then show ?thesis
    using Push_balance [of "engine s" "prevOffset s" x] assms by (auto simp: loop_inv_def step_ok_def)
next
  case LateReturn
  have "side_state (engine s) ((engine s)\<lparr>flushInFlight := False\<rparr>)" by (simp add: side_state_def)
  then show ?thesis
    using LateReturn assms run_inv_side balance_side by (auto simp: loop_inv_def step_ok_def)
qed (use assms tick_ok cancel_ok in \<open>simp_all del: runLoop_step.simps undelivered.simps\<close>)

lemmas runLoop_step_ok = loop_step_ok [unfolded step_ok_def]

lemma account_chain:
  fixes a :: u64
  assumes "b + u = a + p" and "c + l = b + q"
  shows "c + (u + l) = a + (p + q)"
proof -
  have "c + (u + l) = (c + l) + u" by (simp add: ac_simps)
  also have "\<dots> = (b + u) + q" using assms(2) by (simp add: ac_simps)
  finally show ?thesis using assms(1) by (simp add: ac_simps)
qed

lemma runLoop_lost:
  assumes "loop_inv s"
  shows "\<exists>s'. runLoop marshal le es s = Ret s' \<and> loop_inv s' \<and> cfg (engine s') = cfg (engine s) \<and>
    balance (engine s') + of_nat (lost_items marshal le es s) = balance (engine s) + of_nat (length (concat (map pushed es))) \<and>
    (lossless (cfg (engine s)) \<longrightarrow> lost_items marshal le es s = 0)"
  using assms
proof (induction es arbitrary: s)
  case (Cons e es)
  obtain s1 where s1: "runLoop_step marshal le e s = Ret s1" "loop_inv s1" "cfg (engine s1) = cfg (engine s)"
    "balance (engine s1) + of_nat (undelivered marshal e s s1) = balance (engine s) + of_nat (length (pushed e))"
    "lossless (cfg (engine s)) \<longrightarrow> undelivered marshal e s s1 = 0"
    using runLoop_step_ok [OF Cons.prems] by blast
  obtain s2 where "runLoop marshal le es s1 = Ret s2" "loop_inv s2" "cfg (engine s2) = cfg (engine s1)"
    "balance (engine s2) + of_nat (lost_items marshal le es s1) = balance (engine s1) + of_nat (length (concat (map pushed es)))"
    "lossless (cfg (engine s1)) \<longrightarrow> lost_items marshal le es s1 = 0"
    using Cons.IH [OF s1(2)] by blast
  with s1 account_chain [OF s1(4)] show ?case by (intro exI [of _ s2]) simp
qed simp

lemma runLoop_ok:
  assumes "loop_inv s"
  shows "\<exists>s' lost. runLoop marshal le es s = Ret s' \<and> loop_inv s' \<and> cfg (engine s') = cfg (engine s) \<and>
    balance (engine s') + of_nat lost = balance (engine s) + of_nat (length (concat (map pushed es))) \<and>
    (lossless (cfg (engine s)) \<longrightarrow> lost = 0)"
  using runLoop_lost [OF assms] by blast

lemma start_inv:
  assumes "New zero sizeofT c = Ret (Inr b)" and "QueueSize c \<noteq> 1"
  shows "loop_inv (runLoop_start w b)" and "balance b = 0" and "cfg b = effective sizeofT c" and "items (ring b) = []"
proof -
  have acc: "accepted (effective sizeofT c)"
    using assms(1) New_cases [of sizeofT c zero] by (auto split: if_splits)
  have inv: "engine_inv b" "items (ring b) = []" "cfg b = effective sizeofT c" "dropped b = 0" "truncated b = 0"
    "flushedItems b = 0" "evicted (ring b) = 0"
    using New_inv [OF acc assms(2), of zero] assms(1) by auto
  have "baseline b 0 []"
  proof (cases "DeltaEncoding c")
    case True
    then have "previousState b = make_bytes (MaxBatchSize c)"
      using New_inv [OF acc assms(2), of zero] assms(1) by auto
    then show ?thesis by (simp add: baseline_def zext_def make_bytes_def)
  next
    case False
    then have "previousState b = []"
      using assms(1) by (auto simp: New_def go_simps Let_def split: if_splits)
    then show ?thesis by (simp add: baseline_def zext_def)
  qed
  with inv show "loop_inv (runLoop_start w b)" "balance b = 0" "cfg b = effective sizeofT c" "items (ring b) = []"
    by (auto simp: loop_inv_def runLoop_start_def run_inv_def balance_def)
qed

text \<open>What a drain leaves in the queue does not depend on the fate of the batch.\<close>

lemma drain_rest:
  assumes inv: "engine_inv b" and base: "baseline b po prv" and col: "collects marshal arr b ys r d buf offset n trunc"
    and eq: "drainAndFlush marshal le arr now ctx w b po k = Ret (w', b', po', k', st)"
  shows "ring b' = r"
  using inv base col
proof (cases rule: drain_outcome [where k = k and now = now and ctx = ctx and w = w and le = le])
  case idle
  then show ?thesis using eq by auto
next
  case (send sink raw db w2 b2 res)
  then show ?thesis using eq by (cases res) (auto simp: side_state_def stamped_def)
qed

text \<open>While its sink answers nil, the loop flushes on every tick that finds an item: an item is found
  after every push.\<close>

lemma produce_queues:
  assumes "loop_inv s"
  shows "\<exists>r d. runLoop_step marshal le (Produce x) s = Ret (s\<lparr>engine := (engine s)\<lparr>ring := r, dropped := d\<rparr>\<rparr>) \<and>
    loop_inv (s\<lparr>engine := (engine s)\<lparr>ring := r, dropped := d\<rparr>\<rparr>) \<and> items r \<noteq> []"
proof -
  have inv: "engine_inv (engine s)" and run: "run_inv (engine s) (prevOffset s)"
    using assms by (auto simp: loop_inv_def run_inv_def)
  obtain r d where p: "Push (engine s) x = Ret ((engine s)\<lparr>ring := r, dropped := d\<rparr>)"
    "items r = (if depth (ring (engine s)) < cap (ring (engine s)) then items (ring (engine s)) @ [x]
               else if Backpressure (cfg (engine s)) = DropNewest then items (ring (engine s))
               else tl (items (ring (engine s))) @ [x])"
    using Push_ring [OF inv, of x] by blast
  have "ring_inv (ring (engine s))" using inv by (simp add: engine_inv_def)
  then have "items r \<noteq> []"
    using p(2) rq.nonzero [of "ring (engine s)"] length_items [of "ring (engine s)"] by (cases "items (ring (engine s))") auto
  with p(1) Push_balance [OF run, of x] show ?thesis by (auto simp: loop_inv_def)
qed

lemma tick_flushes:
  assumes inv: "loop_inv s" and run: "status s = Running" and c: "cfg (engine s) = c"
    and plain: "Compressor c = None" "FlushTimeout c = 0" "Sink c = Some sink"
    and ser: "serializable marshal enc (MaxItemSize c)" and room: "8 + MaxItemSize c \<le> MaxBatchSize c"
    and ne: "items (ring (engine s)) \<noteq> []"
    and up: "\<And>p. \<exists>v. Flush sink Background p (env (lworld s)) = (v, Returns None) \<and> P v"
  shows "\<exists>s'. runLoop_step marshal le (Tick [] now el) s = Ret s' \<and> loop_inv s' \<and> status s' = Running \<and>
    cfg (engine s') = c \<and> P (env (lworld s'))"
proof -
  obtain prv where e: "engine_inv (engine s)" "baseline (engine s) (prevOffset s) prv"
    using inv by (auto simp: loop_inv_def run_inv_def)
  obtain r d n buf offset where col: "collects marshal [] (engine s) (take n (items (ring (engine s)))) r d buf offset n (truncated (engine s))"
    and n: "0 < n"
    using collects_quiet [OF e(1), of marshal enc] ser room ne c by metis
  from e col have "\<exists>w' b' po' k'. drainAndFlush marshal le [] now Background (lworld s) (engine s) (prevOffset s) (keyframeN s) =
      Ret (w', b', po', k', Completed) \<and> P (env w')"
  proof (cases rule: drain_outcome [where k = "keyframeN s" and now = now and ctx = Background and w = "lworld s" and le = le])
    case idle
    with n plain(3) c show ?thesis by simp
  next
    case (send sk raw db w2 b2 res)
    let ?st = "stamped (engine s) r d (truncated (engine s)) (raw @ drop (nat offset) buf) db"
    have sk: "sk = sink" and st: "cfg ?st = c" using send(2) plain(3) c by (simp_all add: stamped_def)
    obtain v where "Flush sink Background (wire (engine s) (keyframeN s) raw) (env (lworld s)) = (v, Returns None)" "P v"
      using up by blast
    with send(6) sk st plain deliver_direct [of ?st sink now Background "wire (engine s) (keyframeN s) raw" "lworld s"]
    have "\<exists>l. res = Delivered l" "P (env w2)" by auto
    with send(8) show ?thesis by auto
  qed
  moreover obtain s' where "runLoop_step marshal le (Tick [] now el) s = Ret s'" "loop_inv s'" "cfg (engine s') = c"
    using runLoop_step_ok [OF inv, of marshal le "Tick [] now el"] c by auto
  ultimately show ?thesis using run by auto
qed

section \<open>Properties\<close>

text \<open>
  C2: the engine's lifetime. From a batcher made by \<^verbatim>\<open>New\<close> (with at least two slots), every
  sequence of pushes, ticks, late flush returns and cancellation runs without a panic and
  without a spinning loop, and ends in the invariant, for any \<^verbatim>\<open>Marshal\<close>, sink, compressor and
  callback. Every item ever pushed is accounted for: modulo \<open>2 ^ 64\<close>, the queue, the dropped,
  evicted, truncated and flushed counters and the items of the batches that were drained and
  not flushed sum to the number of pushes. With a sink that never fails (no compressor, no flush
  timeout) there are no such batches.
\<close>

theorem engine_lifetime:
  assumes "New zero sizeofT c = Ret (Inr b)" and "QueueSize c \<noteq> 1"
  shows "\<exists>s. runLoop marshal le es (runLoop_start w b) = Ret s \<and> run_inv (engine s) (prevOffset s) \<and>
    of_nat (length (items (ring (engine s)))) + DroppedCount (engine s) + EvictedCount (engine s) +
      TruncatedCount (engine s) + FlushedItems (engine s) + of_nat (lost_items marshal le es (runLoop_start w b))
      = of_nat (length (concat (map pushed es))) \<and>
    (lossless (cfg b) \<longrightarrow> lost_items marshal le es (runLoop_start w b) = 0)"
proof -
  note st = start_inv [OF assms]
  have e: "engine (runLoop_start w b) = b" by (simp add: runLoop_start_def)
  obtain s where "runLoop marshal le es (runLoop_start w b) = Ret s" "loop_inv s"
    "balance (engine s) + of_nat (lost_items marshal le es (runLoop_start w b)) = of_nat (length (concat (map pushed es)))"
    "lossless (cfg b) \<longrightarrow> lost_items marshal le es (runLoop_start w b) = 0"
    using runLoop_lost [OF st(1), of marshal le es w, unfolded e] st(2) by auto
  then show ?thesis
    by (auto simp: loop_inv_def balance_def DroppedCount_def EvictedCount_def TruncatedCount_def FlushedItems_def)
qed

theorem engine_lifetime_witness:
  "\<exists>b s. New (0::byte) 1 plain_config = Ret (Inr b) \<and>
     runLoop byte_marshal True [Produce 7, Tick [[8], [], [9]] 5 1, Produce 1, Cancel False [] 6 6] (runLoop_start \<lparr>env = [], slog = []\<rparr> b) = Ret s \<and>
     of_nat (length (items (ring (engine s)))) + DroppedCount (engine s) + EvictedCount (engine s) +
       TruncatedCount (engine s) + FlushedItems (engine s) = 4"
proof -
  obtain b where b: "New (0::byte) 1 plain_config = Ret (Inr b)" using plain_batcher by blast
  have q: "QueueSize plain_config \<noteq> 1" by (simp add: plain_config_def)
  have "cfg b = plain_config" using start_inv(3) [OF b q] by (simp add: effective_def plain_config_def)
  then have "lossless (cfg b)"
    by (simp add: lossless_def plain_config_def never_fails_def StdoutSink_def)
  with engine_lifetime [OF b q, of byte_marshal True "[Produce 7, Tick [[8], [], [9]] 5 1, Produce 1, Cancel False [] 6 6]" "\<lparr>env = [], slog = []\<rparr>"] b
  show ?thesis by (auto simp: numeral_eq_Suc)
qed

text \<open>
  C38: shutdown is one batch. Whatever is queued when the context is cancelled, the loop stops after
  a single drain (which a shutdown timeout bounds): if the encodings of the queued items do
  not all fit into one frame, items are still queued when \<^verbatim>\<open>runLoop\<close> has returned, whatever
  the sink does.
\<close>

theorem shutdown_leaves_items:
  assumes "engine_inv b" and "baseline b po prv" and "serializable marshal enc (MaxItemSize (cfg b))"
    and "8 + MaxItemSize (cfg b) \<le> MaxBatchSize (cfg b)"
    and "MaxBatchSize (cfg b) < 8 + int (length (concat (map enc (items (ring b)))))"
    and "0 < ShutdownTimeout (cfg b)"
  shows "\<exists>s'. runLoop_step marshal le (Cancel expired [] now later)
      \<lparr>lworld = w, engine = b, prevOffset = po, keyframeN = k, status = Running\<rparr> = Ret s' \<and>
    status s' = Stopped \<and> items (ring (engine s')) \<noteq> []"
proof -
  let ?base = "WithTimeout Background (ShutdownTimeout (cfg b))"
  have lb: "int (length (byteBuffer b)) = MaxBatchSize (cfg b)"
    using assms(1) by (simp add: engine_inv_def buffers_ok_def cfg_ok_def batch_headerSize_def Let_def)
  have ne: "items (ring b) \<noteq> []" using assms(5,1) by (auto simp: engine_inv_def cfg_ok_def batch_headerSize_def)
  obtain r d n buf offset where col: "collects marshal [] b (take n (items (ring b))) r d buf offset n (truncated b)"
    "items r = drop n (items (ring b))" "n \<le> length (items (ring b))"
    "offset = 8 + int (length (concat (map enc (take n (items (ring b))))))"
    using collects_quiet [OF assms(1,3,4) ne] by blast
  have "n < length (items (ring b))"
  proof (rule ccontr)
    assume "\<not> n < length (items (ring b))"
    then have "take n (items (ring b)) = items (ring b)" by simp
    then show False using col(4) collects_bounds(3) [OF assms(1) col(1)] assms(5) lb by simp
  qed
  then have rest: "drop n (items (ring b)) \<noteq> []" by simp
  obtain w' b' po' k' st where eq: "drainAndFlush marshal le [] now ?base w b po k = Ret (w', b', po', k', st)"
    using drain_inv [OF assms(1,2), of marshal le "[]" now ?base w k] by blast
  have it: "items (ring b') = drop n (items (ring b))"
    using drain_rest [OF assms(1,2) col(1) eq] col(2) by simp
  obtain w2 b2 where rep: "reportError later (ErrShutdown (ShutdownTimeout (cfg b))) w' b' = (w2, b2)" by fastforce
  then have "ring b2 = ring b'"
    using reportError_side [of b' later "ErrShutdown (ShutdownTimeout (cfg b))" w'] by (simp add: side_state_def)
  with eq rest assms(6) it rep show ?thesis
    by (cases "st = Completed \<and> \<not> expired") (auto simp: finalDrain_def Let_def)
qed

lemma Push_room:
  assumes "run_inv b po" and "length (items (ring b)) < unat (QueueSize (cfg b))"
  shows "\<exists>b'. Push b x = Ret b' \<and> run_inv b' po \<and> cfg b' = cfg b \<and> items (ring b') = items (ring b) @ [x]"
  using Push_balance [OF assms(1), of x] Push_ring [of b x] assms
  by (fastforce simp: run_inv_def engine_inv_def)

theorem shutdown_leaves_items_witness:
  "\<exists>b s'. items (ring b) = [1, 2, 3::byte] \<and>
     runLoop_step byte_marshal True (Cancel True [] 5 6)
       \<lparr>lworld = \<lparr>env = [] :: nat list, slog = []\<rparr>, engine = b, prevOffset = 0, keyframeN = 0, status = Running\<rparr> = Ret s' \<and>
     status s' = Stopped \<and> items (ring (engine s')) \<noteq> []"
proof -
  let ?c = "plain_config\<lparr>ShutdownTimeout := 9\<rparr>"
  have acc: "accepted (effective 1 ?c)" "QueueSize ?c \<noteq> 1"
    by (simp_all add: accepted_def effective_def plain_config_def is_pow2_def wrap64_def)
  then obtain b0 where "New (0::byte) 1 ?c = Ret (Inr b0)"
    using New_inv [OF acc, of "0::byte"] by blast
  from start_inv [OF this acc(2)] have b0: "run_inv b0 0" "cfg b0 = ?c" "items (ring b0) = []"
    by (auto simp: loop_inv_def runLoop_start_def effective_def plain_config_def)
  have q: "unat (QueueSize ?c) = 4" by (simp add: plain_config_def)
  obtain b1 where b1: "run_inv b1 0" "cfg b1 = ?c" "items (ring b1) = [1::byte]"
    using Push_room [OF b0(1), of 1] b0 q by auto
  obtain b2 where b2: "run_inv b2 0" "cfg b2 = ?c" "items (ring b2) = [1, 2::byte]"
    using Push_room [OF b1(1), of 2] b1 q by auto
  obtain b where b: "run_inv b 0" "cfg b = ?c" "items (ring b) = [1, 2, 3::byte]"
    using Push_room [OF b2(1), of 3] b2 q by auto
  obtain prv where "engine_inv b" "baseline b 0 prv" using b(1) by (auto simp: run_inv_def)
  from shutdown_leaves_items [OF this, of byte_marshal "\<lambda>x. [x]" True True 5 6 "\<lparr>env = [], slog = []\<rparr>" 0] b serializable_byte
  show ?thesis by (auto simp: plain_config_def)
qed

end
