(* ===== verification/Engine_World.thy ===== *)
theory Engine_World
  imports Engine_Run
begin

text \<open>
  What a run of the engine does to the world outside it: the state behind the sink, the compressor
  and the error callback changes only through their calls (\<open>world_contract\<close>), and while an
  abandoned \<^verbatim>\<open>Sink.Flush\<close> is still running the engine neither calls the sink again nor touches the
  snapshot it is reading (\<^verbatim>\<open>flushInFlight\<close> and \<^verbatim>\<open>timeoutBuf\<close> of \<^verbatim>\<open>batcher.go\<close>).
\<close>

section \<open>Drains by cases\<close>

text \<open>A drain sends nothing, or hands one payload to \<open>deliver\<close> and concludes.\<close>

lemma conclude_keeps:
  assumes "conclude now n raw po k (w2, b2, res) = (w', b', po', k', st)"
  shows "w' = w2 \<and> cfg b' = cfg b2 \<and> flushInFlight b' = flushInFlight b2 \<and> timeoutBuf b' = timeoutBuf b2 \<and>
    coalescedTicks b' = coalescedTicks b2 \<and> (st = Parked \<longleftrightarrow> res = ParkedInFlush) \<and>
    (res = Failed \<longrightarrow> flushedBatches b' = flushedBatches b2) \<and> (k' = k \<or> k' = next_keyframeN (cfg b2) k) \<and>
    flushErrs b' = flushErrs b2"
  using assms by (cases res) auto

lemma drain_cases:
  fixes b :: "('a, 's) Batcher"
  assumes "run_inv b po"
    and eq: "drainAndFlush marshal le arr now ctx w b po k = Ret (w', b', po', k', st)"
  obtains (idle) "env w' = env w" "flushInFlight b' = flushInFlight b" "timeoutBuf b' = timeoutBuf b" "cfg b' = cfg b"
      "st = Completed" "coalescedTicks b' = coalescedTicks b" "flushedBatches b' = flushedBatches b" "k' = k"
      "flushErrs b' = flushErrs b"
  | (sent) sink p res and b1 b2 :: "('a, 's) Batcher" where "Sink (cfg b) = Some sink" "deliver sink now ctx p w b1 = Ret (w', b2, res)"
      "cfg b1 = cfg b" "flushInFlight b1 = flushInFlight b" "timeoutBuf b1 = timeoutBuf b" "coalescedTicks b1 = coalescedTicks b"
      "flushedBatches b1 = flushedBatches b" "res = Failed \<Longrightarrow> flushedBatches b' = flushedBatches b2"
      "cfg b' = cfg b2" "flushInFlight b' = flushInFlight b2" "timeoutBuf b' = timeoutBuf b2"
      "coalescedTicks b' = coalescedTicks b2" "st = Parked \<longleftrightarrow> res = ParkedInFlush"
      "k' = k \<or> k' = next_keyframeN (cfg b2) k" "flushErrs b1 = flushErrs b" "flushErrs b' = flushErrs b2"
proof -
  from assms(1) obtain prv where inv: "engine_inv b" and base: "baseline b po prv" by (auto simp: run_inv_def)
  obtain ys r d buf offset n trunc where col: "collects marshal arr b ys r d buf offset n trunc"
    using collects_exists [OF inv] by blast
  from inv base col show ?thesis
  proof (cases rule: drain_outcome [where k = k and now = now and ctx = ctx and w = w and le = le])
    case idle
    then show ?thesis using that(1) eq by auto
  next
    case (send sink raw db w2 b2 res)
    from eq send(8) have "conclude now n raw po k (w2, b2, res) = (w', b', po', k', st)" by simp
    note cc = conclude_keeps [OF this]
    show ?thesis
      by (rule sent [of sink "wire b k raw" "stamped b r d trunc (raw @ drop (nat offset) buf) db" b2 res])
        (use send(2,6) cc in \<open>simp_all add: stamped_def\<close>)
  qed
qed

section \<open>The world changes by calls only\<close>

text \<open>A property of the outside world that the compressor and the callback keep, and one that the
  sink keeps as well.\<close>

locale helper_contract =
  fixes c :: "'s Config" and P :: "'s \<Rightarrow> bool"
  assumes compressor_keeps: "Compressor c = Some f \<Longrightarrow> P s \<Longrightarrow> P (fst (f dst src s))"
    and callback_keeps: "OnFlushError c = Some g \<Longrightarrow> P s \<Longrightarrow> P (g s err)"
begin

lemma report_world: "cfg b = c \<Longrightarrow> P (env w) \<Longrightarrow> reportError now err w b = (w', b') \<Longrightarrow> P (env w') \<and> cfg b' = c"
  using callback_keeps by (auto simp: reportError_def Let_def split: option.splits if_splits)

lemma compress_world:
  assumes "cfg b = c" and "P (env w)" and "compress_payload p w b = (w', b', res)"
  shows "P (env w')"
proof -
  have "P s" if "Compressor c = Some f" "f x q (env w) = (s, y)" for f x q s y
    using compressor_keeps [OF that(1) assms(2), of x q] that(2) by simp
  with assms show ?thesis
    by (auto simp: compress_payload_def Let_def split: option.splits prod.splits if_splits)
qed

text \<open>A delivery while a flush is in flight fails without a call of the sink.\<close>

lemma deliver_in_flight:
  assumes "cfg b = c" and "FlushTimeout c \<noteq> 0" and "flushInFlight b" and "P (env w)"
    and eq: "deliver sink now base p w b = Ret (w', b', res)"
  shows "P (env w') \<and> res = Failed \<and> flushInFlight b' \<and> timeoutBuf b' = timeoutBuf b"
proof -
  obtain w1 b1 r1 where cp: "compress_payload p w b = (w1, b1, r1)" by (metis prod.exhaust)
  have p1: "P (env w1)" by (rule compress_world [OF assms(1,4) cp])
  have b1: "cfg b1 = c" "flushInFlight b1" "timeoutBuf b1 = timeoutBuf b"
    using cp assms(1,3) by (auto simp: compress_payload_def Let_def split: option.splits prod.splits if_splits)
  have rep: "P (env w2) \<and> flushInFlight b2 \<and> timeoutBuf b2 = timeoutBuf b'"
    if "reportError now err w1 b' = (w2, b2)" "cfg b' = c" "flushInFlight b'" for err w2 b2 and b' :: "('x, 's) Batcher"
    using report_world [OF that(2) p1 that(1)] that(1,3) by (auto simp: reportError_def Let_def split: option.splits if_splits)
  show ?thesis
  proof (cases r1)
    case (Inl err)
    then show ?thesis using eq cp rep b1 by (auto simp: deliver_def split: prod.splits)
  next
    case (Inr q)
    have "flushWithTimeout sink base q w1 b1 = Ret (w1, b1, FlushReturned (Some ErrFlushTimeout))"
      using b1 assms(2) by (simp add: flushWithTimeout_def)
    then show ?thesis
      using eq cp Inr rep [of _ "b1\<lparr>flushErrs := flushErrs b1 + 1\<rparr>"] b1 by (auto simp: deliver_def split: prod.splits)
  qed
qed

end

locale world_contract = helper_contract +
  assumes sink_keeps: "Sink c = Some sink \<Longrightarrow> P s \<Longrightarrow> P (fst (Flush sink ctx p s))"
begin

lemma flush_world:
  assumes "Sink c = Some sink" and "P (env w)" and "flushWithTimeout sink base p w b = Ret (w', b', res)"
  shows "P (env w')"
proof -
  have "P s" if "Flush sink x q (env w) = (s, e)" for x q s e
    using sink_keeps [OF assms(1,2), of x q] that by simp
  with assms(2,3) show ?thesis
    by (auto simp: flushWithTimeout_def Let_def go_simps split: if_splits prod.splits completion.splits)
qed

lemma deliver_world:
  assumes "cfg b = c" and "Sink c = Some sink" and "P (env w)" and eq: "deliver sink now base p w b = Ret (w', b', res)"
  shows "P (env w')"
proof -
  obtain w1 b1 r1 where cp: "compress_payload p w b = (w1, b1, r1)" by (metis prod.exhaust)
  have p1: "P (env w1)" by (rule compress_world [OF assms(1,3) cp])
  have c1: "cfg b1 = c" using compress_payload_side [of b p w] cp assms(1) by (simp add: side_state_def)
  show ?thesis
  proof (cases r1)
    case (Inl err)
    then show ?thesis using eq cp report_world [OF c1 p1] by (auto simp: deliver_def split: prod.splits)
  next
    case (Inr q)
    obtain w2 b2 r2 where fl: "flushWithTimeout sink base q w1 b1 = Ret (w2, b2, r2)" "side_state b1 b2"
      using flushWithTimeout_side by blast
    have p2: "P (env w2)" by (rule flush_world [OF assms(2) p1 fl(1)])
    have "cfg (b2\<lparr>flushErrs := flushErrs b2 + 1\<rparr>) = c" using fl(2) c1 by (simp add: side_state_def)
    from report_world [OF this p2] p2 eq cp Inr fl(1) show ?thesis
      by (auto simp: deliver_def split: flush_result.splits option.splits prod.splits)
  qed
qed

lemma drain_world:
  assumes "run_inv b po" and "cfg b = c" and "P (env w)"
    and "drainAndFlush marshal le arr now ctx w b po k = Ret (w', b', po', k', st)"
  shows "P (env w')"
  using assms(1,4)
proof (cases rule: drain_cases)
  case idle
  then show ?thesis using assms(3) by simp
next
  case (sent sink p res b1 b2)
  then show ?thesis using deliver_world [of b1 sink w now ctx p w' b2 res] assms(2,3) by simp
qed

lemma step_world:
  assumes inv: "loop_inv s" and c: "cfg (engine s) = c" and P: "P (env (lworld s))"
    and eq: "runLoop_step marshal le e s = Ret s'"
  shows "P (env (lworld s'))"
proof -
  have run: "run_inv (engine s) (prevOffset s)" using inv by (simp add: loop_inv_def)
  note drain = drain_world [OF run c P]
  show ?thesis
  proof (cases e)
    case (Tick arr now el)
    show ?thesis
    proof (cases "status s = Running")
      case True
      obtain w' b' po' k' st where d: "drainAndFlush marshal le arr now Background (lworld s) (engine s) (prevOffset s) (keyframeN s) =
          Ret (w', b', po', k', st)" using drain_step [OF run] by blast
      with True Tick eq drain [OF d] show ?thesis by (cases st) auto
    qed (use Tick eq P in \<open>auto simp: go_simps\<close>)
  next
    case (Cancel expired arr now later)
    show ?thesis
    proof (cases "status s = Running")
      case True
      let ?base = "if ShutdownTimeout c \<le> 0 then Background else WithTimeout Background (ShutdownTimeout c)"
      obtain w' b' po' k' st where d: "drainAndFlush marshal le arr now ?base (lworld s) (engine s) (prevOffset s) (keyframeN s) =
          Ret (w', b', po', k', st)" and c': "cfg b' = c" using drain_step [OF run, where arr = arr] c by blast
      note p = drain [OF d]
      from report_world [OF c' p] d True Cancel eq c p show ?thesis
        by (auto simp: finalDrain_def Let_def go_simps split: if_splits prod.splits)
    qed (use Cancel eq P in \<open>auto simp: go_simps\<close>)
  qed (use eq P in \<open>auto simp: go_simps\<close>)
qed

end

text \<open>The error callback as a ledger: with direct flushes and no shutdown timeout, it is called once for every
  failed flush that the engine counts. \<open>count\<close> is the number of its calls that the outside world has seen.\<close>

locale callback_ledger =
  fixes c :: "'s Config" and g :: "'s \<Rightarrow> error \<Rightarrow> 's" and count :: "'s \<Rightarrow> nat"
  assumes direct: "Compressor c = None" "FlushTimeout c = 0" "ShutdownTimeout c \<le> 0" "OnFlushError c = Some g"
    and sink_count: "Sink c = Some sink \<Longrightarrow> count (fst (Flush sink ctx p s)) = count s"
    and callback_count: "count (g s err) = Suc (count s)"
begin

lemma deliver_ledger:
  fixes b :: "('x, 's) Batcher"
  assumes "cfg b = c" and "Sink c = Some sink" and "flushErrs b = of_nat (count (env w))"
    and eq: "deliver sink now ctx p w b = Ret (w', b', res)"
  shows "flushErrs b' = of_nat (count (env w'))"
proof -
  obtain s x where f: "Flush sink ctx p (env w) = (s, x)" by fastforce
  have s: "count s = count (env w)" using sink_count [OF assms(2), of ctx p "env w"] f by simp
  have rep: "reportError now err w1 b1 = (w1\<lparr>env := g (env w1) err\<rparr>, b1)" if "cfg b1 = c" for err w1 and b1 :: "('x, 's) Batcher"
    using direct(4) that by (simp add: reportError_def)
  show ?thesis
    using eq assms(1,3) s callback_count f direct(1,2)
    by (auto simp: deliver_direct rep split: completion.splits option.splits)
qed

lemma drain_ledger:
  assumes "run_inv b po" and "cfg b = c" and "flushErrs b = of_nat (count (env w))"
    and "drainAndFlush marshal le arr now ctx w b po k = Ret (w', b', po', k', st)"
  shows "flushErrs b' = of_nat (count (env w'))"
  using assms(1,4)
proof (cases rule: drain_cases)
  case idle
  then show ?thesis using assms(3) by simp
next
  case (sent sink p res b1 b2)
  then show ?thesis using deliver_ledger [of b1 sink w now ctx p w' b2 res] assms(2,3) by simp
qed

lemma pushes_ledger: "pushes xs b = Ret b' \<Longrightarrow> flushErrs b' = flushErrs b"
proof (induction xs arbitrary: b)
  case (Cons x xs)
  obtain b1 where "Push b x = Ret b1" "pushes xs b1 = Ret b'" using Cons.prems(1) by (auto simp: go_simps)
  moreover from this have "flushErrs b1 = flushErrs b" by (auto simp: Push_def split: option.splits prod.splits if_splits)
  ultimately show ?case using Cons.IH [of b1] by simp
qed simp

lemma step_ledger:
  assumes inv: "loop_inv s" and c: "cfg (engine s) = c" and l: "flushErrs (engine s) = of_nat (count (env (lworld s)))"
    and eq: "runLoop_step marshal le e s = Ret s'"
  shows "flushErrs (engine s') = of_nat (count (env (lworld s')))"
proof -
  have run: "run_inv (engine s) (prevOffset s)" using inv by (simp add: loop_inv_def)
  obtain w' b' po' k' st where d: "drainAndFlush marshal le arr now Background (lworld s) (engine s) (prevOffset s) (keyframeN s) =
      Ret (w' arr now, b' arr now, po' arr now, k' arr now, st arr now)" for arr now
    using drain_step [OF run, of marshal le _ _ Background "lworld s" "keyframeN s"] by metis
  note drain = drain_ledger [OF run c l d]
  have idle: "flushErrs (engine s') = of_nat (count (env (lworld s')))"
    if "go_bind (pushes xs (engine s)) (\<lambda>b. Ret (s\<lparr>engine := b\<rparr>)) = Ret s'" for xs
    using that l pushes_ledger [of xs "engine s"] by (auto simp: go_simps)
  show ?thesis
  proof (cases e)
    case (Produce x)
    then show ?thesis using eq idle [of "[x]"] by (auto simp: go_simps)
  next
    case (Tick arr now el)
    show ?thesis
    proof (cases "status s = Running")
      case True
      with Tick eq d drain [of arr now] show ?thesis by (auto simp: count_slippage_def split: drain_status.splits)
    qed (use Tick eq idle in simp)
  next
    case (Cancel expired arr now later)
    show ?thesis
    proof (cases "status s = Running")
      case True
      with Cancel eq d drain [of arr now] direct(3) c show ?thesis by (auto simp: finalDrain_def)
    qed (use Cancel eq idle in simp)
  qed (use eq l in auto)
qed

end

text \<open>The standard output of \<^verbatim>\<open>StdoutSink\<close> only grows.\<close>

interpretation stdout: world_contract plain_config "prefix lines" for lines
  by unfold_locales (auto simp: plain_config_def StdoutSink_def)

section \<open>While a flush is in flight\<close>

definition undisturbed :: "('a, 's) Batcher \<Rightarrow> ('a, 's) Batcher \<Rightarrow> bool" where
  "undisturbed b b' \<longleftrightarrow> flushInFlight b' \<and> timeoutBuf b' = timeoutBuf b \<and> flushedBatches b' = flushedBatches b \<and> cfg b' = cfg b"

lemma drain_in_flight:
  assumes "helper_contract (cfg b) P" and "run_inv b po" and "FlushTimeout (cfg b) \<noteq> 0" and "flushInFlight b" and "P (env w)"
    and eq: "drainAndFlush marshal le arr now ctx w b po k = Ret (w', b', po', k', st)"
  shows "P (env w') \<and> undisturbed b b' \<and> st = Completed"
  using assms(2,6)
proof (cases rule: drain_cases)
  case idle
  then show ?thesis using assms(4,5) by (simp add: undisturbed_def)
next
  case (sent sink p res b1 b2)
  note d = helper_contract.deliver_in_flight [OF assms(1) sent(3) assms(3) _ assms(5) sent(2)]
  have "cfg b2 = cfg b1" "flushedBatches b2 = flushedBatches b1"
    using deliver_side [of sink now ctx p w b1] sent(2) by (auto simp: side_state_def)
  with d sent assms(4) show ?thesis by (cases st) (simp_all add: undisturbed_def)
qed

lemma pushes_undisturbed: "pushes xs b = Ret b' \<Longrightarrow> flushInFlight b \<Longrightarrow> undisturbed b b'"
proof (induction xs arbitrary: b)
  case (Cons x xs)
  obtain b1 where "Push b x = Ret b1" "pushes xs b1 = Ret b'" using Cons.prems(1) by (auto simp: go_simps)
  moreover from this have "undisturbed b b1"
    using Cons.prems(2) by (auto simp: Push_def undisturbed_def split: option.splits prod.splits if_splits)
  ultimately show ?case using Cons.IH [of b1] by (simp add: undisturbed_def)
qed (simp add: undisturbed_def)

lemma step_in_flight:
  assumes hc: "helper_contract (cfg (engine s)) P" and inv: "loop_inv s" and ft: "FlushTimeout (cfg (engine s)) \<noteq> 0"
    and fl: "flushInFlight (engine s)" and P: "P (env (lworld s))" and e: "e \<noteq> LateReturn"
    and eq: "runLoop_step marshal le e s = Ret s'"
  shows "P (env (lworld s')) \<and> undisturbed (engine s) (engine s')"
proof -
  have run: "run_inv (engine s) (prevOffset s)" using inv by (simp add: loop_inv_def)
  note drain = drain_in_flight [OF hc run ft fl P]
  show ?thesis
  proof (cases e)
    case (Produce x)
    then show ?thesis using eq P pushes_undisturbed [of "[x]" "engine s"] fl by (auto simp: go_simps)
  next
    case LateReturn
    with e show ?thesis by simp
  next
    case (Tick arr now el)
    show ?thesis
    proof (cases "status s = Running")
      case True
      obtain w' b' po' k' st where d: "drainAndFlush marshal le arr now Background (lworld s) (engine s) (prevOffset s) (keyframeN s) =
          Ret (w', b', po', k', st)" using drain_step [OF run] by blast
      with True Tick eq drain [OF d] show ?thesis by (auto simp: undisturbed_def count_slippage_def)
    qed (use Tick eq P pushes_undisturbed fl in \<open>auto simp: go_simps\<close>)
  next
    case (Cancel expired arr now later)
    show ?thesis
    proof (cases "status s = Running")
      case True
      let ?c = "cfg (engine s)"
      let ?base = "if ShutdownTimeout ?c \<le> 0 then Background else WithTimeout Background (ShutdownTimeout ?c)"
      obtain w' b' po' k' st where d: "drainAndFlush marshal le arr now ?base (lworld s) (engine s) (prevOffset s) (keyframeN s) =
          Ret (w', b', po', k', st)" using drain_step [OF run, where arr = arr] by blast
      note u = drain [OF d]
      have "P (env w2) \<and> undisturbed (engine s) b2" if "reportError later err w' b' = (w2, b2)" for err w2 b2
        using helper_contract.report_world [OF hc _ _ that] u that
        by (auto simp: undisturbed_def reportError_def Let_def split: option.splits if_splits)
      with d True Cancel eq u show ?thesis by (auto simp: finalDrain_def Let_def go_simps split: if_splits prod.splits)
    qed (use Cancel eq P pushes_undisturbed fl in \<open>auto simp: go_simps\<close>)
  qed
qed

section \<open>Properties\<close>

text \<open>
  C19: an abandoned flush is left alone. While a \<^verbatim>\<open>Sink.Flush\<close> that missed its deadline is still running
  (\<^verbatim>\<open>flushInFlight\<close> is set and its goroutine has not come back), no sequence of pushes, ticks and
  shutdown changes the snapshot it reads or delivers a batch, and the outside world changes only
  through the compressor and the error callback: the sink is not called again.
\<close>

theorem abandoned_flush_undisturbed:
  assumes "helper_contract (cfg (engine s)) P" and "loop_inv s" and "FlushTimeout (cfg (engine s)) \<noteq> 0"
    and "flushInFlight (engine s)" and "P (env (lworld s))" and "LateReturn \<notin> set es"
  shows "\<exists>s'. runLoop marshal le es s = Ret s' \<and> flushInFlight (engine s') \<and>
    timeoutBuf (engine s') = timeoutBuf (engine s) \<and>
    FlushedBatches (engine s') = FlushedBatches (engine s) \<and> P (env (lworld s'))"
  using assms
proof (induction es arbitrary: s)
  case (Cons e es)
  obtain s1 where s1: "runLoop_step marshal le e s = Ret s1" "loop_inv s1" using runLoop_step_ok [OF Cons.prems(2)] by blast
  have u: "P (env (lworld s1)) \<and> undisturbed (engine s) (engine s1)"
    using step_in_flight [OF Cons.prems(1-5) _ s1(1)] Cons.prems(6) by auto
  then have "cfg (engine s1) = cfg (engine s)" by (simp add: undisturbed_def)
  from Cons.IH [of s1, unfolded this] Cons.prems s1 u show ?case by (auto simp: undisturbed_def FlushedBatches_def)
qed simp

text \<open>A push, a tick and the shutdown while a flush is in flight print nothing.\<close>

theorem abandoned_flush_undisturbed_witness:
  "\<exists>b s'. New (0::byte) 1 (plain_config\<lparr>FlushTimeout := 5\<rparr>) = Ret (Inr b) \<and>
     runLoop byte_marshal True [Produce 7, Tick [] 9 9, Cancel False [] 10 11]
       (runLoop_start \<lparr>env = [3], slog = []\<rparr> (b\<lparr>flushInFlight := True\<rparr>)) = Ret s' \<and>
     flushInFlight (engine s') \<and> FlushedBatches (engine s') = 0 \<and> env (lworld s') = [3]"
proof -
  let ?c = "plain_config\<lparr>FlushTimeout := 5\<rparr>"
  have acc: "accepted (effective 1 ?c)" "QueueSize ?c \<noteq> 1"
    by (simp_all add: accepted_def effective_def plain_config_def is_pow2_def wrap64_def)
  then obtain b where b: "New (0::byte) 1 ?c = Ret (Inr b)" "flushedBatches b = 0"
    using New_inv [OF acc, of "0::byte"] by blast
  note st = start_inv [OF b(1) acc(2)]
  let ?s = "runLoop_start \<lparr>env = [3], slog = []\<rparr> (b\<lparr>flushInFlight := True\<rparr>)"
  have "side_state b (b\<lparr>flushInFlight := True\<rparr>)" by (simp add: side_state_def)
  then have inv: "loop_inv ?s" using st(1) [of "\<lparr>env = [3], slog = []\<rparr>"] run_inv_side by (auto simp: loop_inv_def runLoop_start_def)
  have c: "cfg (engine ?s) = ?c" using st(3) by (simp add: runLoop_start_def effective_def plain_config_def)
  have "helper_contract (cfg (engine ?s)) (\<lambda>e. e = [3])"
    unfolding c by unfold_locales (simp_all add: plain_config_def)
  from abandoned_flush_undisturbed [OF this inv, of "[Produce 7, Tick [] 9 9, Cancel False [] 10 11]" byte_marshal True] c b
  show ?thesis by (auto simp: runLoop_start_def FlushedBatches_def)
qed

end
