(* ===== verification/Loop_Types.thy ===== *)
theory Loop_Types
  imports Engine_World
begin

text \<open>
  The state of \<^verbatim>\<open>runLoop\<close> (\<^verbatim>\<open>batcher.go\<close>) stays well formed: its configuration and the sizes of its buffers
  are those \<^verbatim>\<open>New\<close> made, and its two local variables, which index those buffers and the keyframe
  cycle, stay in range.
\<close>

section \<open>The keyframe counter\<close>

definition keyframe_ok :: "'s Config \<Rightarrow> u32 \<Rightarrow> bool" where
  "keyframe_ok c k \<longleftrightarrow> k = 0 \<or> k < KeyframeInterval c"

lemma next_keyframe_ok: "keyframe_ok c k \<Longrightarrow> keyframe_ok c (next_keyframeN c k)"
  by (auto simp: keyframe_ok_def next_keyframeN_def Let_def)

lemma drain_keyframe:
  assumes "run_inv b po" and "drainAndFlush marshal le arr now ctx w b po k = Ret (w', b', po', k', st)" and "keyframe_ok (cfg b) k"
  shows "keyframe_ok (cfg b) k'"
  using assms(1,2)
proof (cases rule: drain_cases)
  case idle
  then show ?thesis using assms(3) by simp
next
  case (sent sink p res b1 b2)
  have "cfg b2 = cfg b" using deliver_side [of sink now ctx p w b1] sent(2,3) by (auto simp: side_state_def)
  with sent(14) assms(3) next_keyframe_ok show ?thesis by metis
qed

lemma step_keyframe:
  assumes inv: "loop_inv s" and ok: "keyframe_ok (cfg (engine s)) (keyframeN s)" and eq: "runLoop_step marshal le e s = Ret s'"
  shows "keyframe_ok (cfg (engine s)) (keyframeN s')"
proof -
  have run: "run_inv (engine s) (prevOffset s)" using inv by (simp add: loop_inv_def)
  note keep = drain_keyframe [OF run _ ok]
  show ?thesis
  proof (cases "status s = Running")
    case True
    show ?thesis
    proof (cases e)
      case (Tick arr now el)
      obtain w' b' po' k' st where d: "drainAndFlush marshal le arr now Background (lworld s) (engine s) (prevOffset s) (keyframeN s) =
          Ret (w', b', po', k', st)" using drain_step [OF run] by blast
      with True Tick eq keep [OF d] show ?thesis by (auto split: drain_status.splits)
    next
      case (Cancel expired arr now later)
      let ?c = "cfg (engine s)"
      let ?base = "if ShutdownTimeout ?c \<le> 0 then Background else WithTimeout Background (ShutdownTimeout ?c)"
      obtain w' b' po' k' st where d: "drainAndFlush marshal le arr now ?base (lworld s) (engine s) (prevOffset s) (keyframeN s) =
          Ret (w', b', po', k', st)" using drain_step [OF run] by blast
      with True Cancel eq keep [OF d] show ?thesis
        by (cases "ShutdownTimeout ?c \<le> 0") (auto simp: finalDrain_def Let_def go_simps split: if_splits prod.splits)
    qed (use eq ok in \<open>auto simp: go_simps\<close>)
  qed (use eq ok in \<open>cases e; auto simp: go_simps\<close>)
qed

lemma run_keyframe:
  assumes "loop_inv s" and "keyframe_ok (cfg (engine s)) (keyframeN s)" and "runLoop marshal le es s = Ret s'"
  shows "keyframe_ok (cfg (engine s)) (keyframeN s')"
  using assms
proof (induction es arbitrary: s)
  case (Cons e es)
  obtain s1 where s1: "runLoop_step marshal le e s = Ret s1" "runLoop marshal le es s1 = Ret s'"
    using Cons.prems(3) by (auto simp: go_simps)
  have "loop_inv s1" "cfg (engine s1) = cfg (engine s)" using runLoop_step_ok [OF Cons.prems(1), of marshal le e] s1(1) by auto
  with Cons.IH [of s1] step_keyframe [OF Cons.prems(1,2) s1(1)] s1(2) show ?case by simp
qed simp

section \<open>Property\<close>

text \<open>
  C16: the loop's state is well formed at every moment of every run from a batcher made by \<^verbatim>\<open>New\<close>, for
  any \<^verbatim>\<open>Marshal\<close>, sink, compressor and callback. The configuration never changes; the batch, delta,
  compression and timeout buffers keep their sizes and the ring its capacity; \<^verbatim>\<open>prevOffset\<close> never
  exceeds the baseline buffer it indexes, whose bytes behind it are zero; \<^verbatim>\<open>keyframeN\<close> stays below the
  keyframe interval.
\<close>

theorem loop_state_types:
  assumes "New zero sizeofT c = Ret (Inr b)" and "QueueSize c \<noteq> 1" and "runLoop marshal le es (runLoop_start w b) = Ret s"
  shows "let e = engine s; n = nat (MaxBatchSize c) in
    cfg e = effective sizeofT c \<and> length (byteBuffer e) = n \<and>
    (DeltaEncoding c \<longrightarrow> length (previousState e) = n \<and> length (deltaBuffer e) = n) \<and>
    (Compressor c \<noteq> None \<longrightarrow> length (compressBuffer e) = n) \<and> (FlushTimeout c > 0 \<longrightarrow> length (timeoutBuf e) = n) \<and>
    ring_inv (ring e) \<and> cap (ring e) = unat (QueueSize c) \<and>
    0 \<le> prevOffset s \<and> prevOffset s \<le> int (length (previousState e)) \<and>
    (\<forall>i. nat (prevOffset s) \<le> i \<and> i < length (previousState e) \<longrightarrow> previousState e ! i = 0) \<and>
    (keyframeN s = 0 \<or> keyframeN s < KeyframeInterval c)"
proof -
  note st = start_inv [OF assms(1,2)]
  have s: "run_inv (engine s) (prevOffset s)" "cfg (engine s) = effective sizeofT c"
    using runLoop_ok [OF st(1), of marshal le es w] assms(3) st(3) by (auto simp: loop_inv_def runLoop_start_def)
  then obtain prv where inv: "engine_inv (engine s)" and base: "baseline (engine s) (prevOffset s) prv" by (auto simp: run_inv_def)
  have cf: "MaxBatchSize (effective sizeofT c) = MaxBatchSize c" "DeltaEncoding (effective sizeofT c) = DeltaEncoding c"
    "Compressor (effective sizeofT c) = Compressor c" "FlushTimeout (effective sizeofT c) = FlushTimeout c"
    "QueueSize (effective sizeofT c) = QueueSize c" "KeyframeInterval (effective sizeofT c) = KeyframeInterval c"
    by (simp_all add: effective_def)
  have "keyframe_ok (cfg b) (keyframeN s)"
    using run_keyframe [OF st(1) _ assms(3)] by (simp add: runLoop_start_def keyframe_ok_def)
  moreover have "zext prv k ! i = 0" if "length prv \<le> i" "i < k" for i k
    using that by (simp add: zext_def nth_append)
  moreover have "nat (prevOffset s) = length prv" "0 \<le> prevOffset s" "prevOffset s \<le> int (length (previousState (engine s)))"
    using base by (simp_all add: baseline_def)
  moreover have "previousState (engine s) = zext prv (length (previousState (engine s)))" using base by (simp add: baseline_def)
  ultimately show ?thesis
    using inv s(2) cf st(3) unfolding engine_inv_def buffers_ok_def Let_def keyframe_ok_def by metis
qed

theorem loop_state_types_witness:
  "\<exists>b s. New (0::byte) 1 (delta_config 2) = Ret (Inr b) \<and>
     runLoop byte_marshal True [Produce 7, Tick [[8]] 5 1, Produce 1, Tick [] 6 1] (runLoop_start \<lparr>env = \<lparr>Err = None, payloads = []\<rparr>, slog = []\<rparr> b) = Ret s \<and>
     (keyframeN s = 0 \<or> keyframeN s < 2) \<and> length (previousState (engine s)) = 10 \<and> prevOffset s \<le> 10"
proof -
  obtain b where b: "New (0::byte) 1 (delta_config 2) = Ret (Inr b)" using delta_batcher by blast
  have q: "QueueSize (delta_config 2) \<noteq> 1" by (simp add: delta_config_def)
  let ?es = "[Produce 7, Tick [[8]] 5 1, Produce 1, Tick [] 6 1]" and ?w = "\<lparr>env = \<lparr>Err = None, payloads = []\<rparr>, slog = []\<rparr>"
  obtain s where s: "runLoop byte_marshal True ?es (runLoop_start ?w b) = Ret s"
    using runLoop_ok [OF start_inv(1) [OF b q], of byte_marshal True ?es ?w] by blast
  have c: "DeltaEncoding (delta_config 2)" "MaxBatchSize (delta_config 2) = 10" "KeyframeInterval (delta_config 2) = 2"
    by (simp_all add: delta_config_def)
  from loop_state_types [OF b q s] b s c show ?thesis by (auto simp: Let_def simp del: runLoop.simps)
qed

end
