(* ===== verification/Ticker.thy ===== *)
theory Ticker
  imports Engine_World
begin

text \<open>
  The ticker of the drain loop and the clock of a run. \<^verbatim>\<open>defaultTicker\<close> (\<^verbatim>\<open>batcher.go\<close>) is a
  \<^verbatim>\<open>time.Ticker\<close>: it fires at the multiples of its period into a channel that holds one tick, and a
  tick that finds the channel full is dropped. \<open>timed_drain\<close> is one round of \<^verbatim>\<open>runLoop\<close> with its
  times: the loop waits for a tick, drains and adds the slippage. Here
  the ticks of \<^verbatim>\<open>Engine_Run\<close> get their times, and the counter \<^verbatim>\<open>CoalescedTicks\<close> can be compared with
  the ticks that were really dropped.
\<close>

section \<open>The ticker\<close>

text \<open>\<open>missed\<close> is a history variable: the ticks dropped so far.\<close>

record ticker =
  period :: int
  fired :: nat
  pending :: bool
  missed :: nat

definition defaultTicker :: "int \<Rightarrow> ticker" where
  "defaultTicker d = \<lparr>period = d, fired = 0, pending = False, missed = 0\<rparr>"

definition fire :: "ticker \<Rightarrow> ticker" where
  "fire tk = tk\<lparr>fired := fired tk + 1, pending := True, missed := missed tk + (if pending tk then 1 else 0)\<rparr>"

text \<open>All firings up to time \<open>t\<close>, in nanoseconds since the ticker was made.\<close>

definition elapse :: "int \<Rightarrow> ticker \<Rightarrow> ticker" where
  "elapse t tk = (fire ^^ nat (t div period tk - int (fired tk))) tk"

text \<open>When the loop, ready at \<open>now\<close>, finds a tick in the channel.\<close>

definition available :: "int \<Rightarrow> ticker \<Rightarrow> int" where
  "available now tk = (if pending tk then now else (int (fired tk) + 1) * period tk)"

section \<open>The timed loop\<close>

record ('a, 's) timed =
  tloop :: "('a, 's) loop_state"
  clock :: int
  tick :: ticker

definition timed_start :: "'s world \<Rightarrow> ('a, 's) Batcher \<Rightarrow> ('a, 's) timed" where
  "timed_start w b = \<lparr>tloop = runLoop_start w b, clock = 0, tick = defaultTicker (tickInterval (cfg b))\<rparr>"

text \<open>
  One drain: the delay of the scheduler between the tick and its receipt, the pushes during the
  drain, the wall-clock time of the flush and the duration, in nanoseconds.
\<close>

record 'a drain_run =
  latency :: int
  during :: "'a list list"
  wall :: int
  duration :: int

text \<open>The times of one round of the loop: the tick is received, then the drain runs.\<close>

definition tick_round :: "'a drain_run \<Rightarrow> int \<Rightarrow> ticker \<Rightarrow> int \<times> ticker" where
  "tick_round d now tk =
     (let t0 = available now tk + latency d;
          received = (elapse t0 tk)\<lparr>pending := False\<rparr>;
          t1 = t0 + duration d in (t1, elapse t1 received))"

definition timed_drain :: "'a marshal \<Rightarrow> bool \<Rightarrow> 'a drain_run \<Rightarrow> ('a, 's) timed \<Rightarrow> ('a, 's) timed go" where
  "timed_drain marshal le d s =
     go_bind (runLoop_step marshal le (Tick (during d) (wall d) (duration d)) (tloop s)) (\<lambda>l.
     case tick_round d (clock s) (tick s) of (t, tk) \<Rightarrow> Ret \<lparr>tloop = l, clock = t, tick = tk\<rparr>)"

fun timed_run :: "'a marshal \<Rightarrow> bool \<Rightarrow> 'a drain_run list \<Rightarrow> ('a, 's) timed \<Rightarrow> ('a, 's) timed go" where
  "timed_run marshal le [] s = Ret s"
| "timed_run marshal le (d # ds) s = go_bind (timed_drain marshal le d s) (timed_run marshal le ds)"

section \<open>Firing\<close>

lemma fire_pow:
  "(fire ^^ n) tk = (if n = 0 then tk
     else tk\<lparr>fired := fired tk + n, pending := True, missed := missed tk + (n - 1) + (if pending tk then 1 else 0)\<rparr>)"
  by (induction n) (auto simp: fire_def)

lemma elapse_eq:
  assumes "nat (t div period tk - int (fired tk)) = n"
  shows "elapse t tk = tk\<lparr>fired := fired tk + n, pending := pending tk \<or> n \<noteq> 0,
    missed := missed tk + (if pending tk then n else n - 1)\<rparr>"
  unfolding elapse_def assms fire_pow by auto

text \<open>The ticks that fall into a drain of \<open>e\<close> nanoseconds from \<open>t\<close> on.\<close>

lemma ticks_within:
  assumes "0 < p" and "0 \<le> e"
  shows "(t + e) div p - t div p = e div p + (t mod p + e mod p) div (p::int)"
    and "(t mod p + e mod p) div p = 0 \<or> (t mod p + e mod p) div p = 1"
proof -
  show "(t + e) div p - t div p = e div p + (t mod p + e mod p) div p"
    using div_add1_eq [of t e p] by simp
  have b: "0 \<le> t mod p + e mod p" "t mod p + e mod p < 2 * p"
    using assms pos_mod_bound [of p t] pos_mod_bound [of p e] by (simp, linarith)
  show "(t mod p + e mod p) div p = 0 \<or> (t mod p + e mod p) div p = 1"
  proof (cases "t mod p + e mod p < p")
    case True
    with b show ?thesis by simp
  next
    case False
    with b assms(1) div_pos_geq [of p "t mod p + e mod p"] show ?thesis by simp
  qed
qed

text \<open>The slippage the code adds for a drain of \<open>e\<close> nanoseconds.\<close>

definition slip :: "int \<Rightarrow> int \<Rightarrow> nat" where
  "slip p e = (if e > p then nat (e div p - 1) else 0)"

lemma slip_bounds:
  assumes "0 < p" and "0 \<le> e" and "m = nat ((t + e) div p - t div p)"
  shows "slip p e \<le> m - 1" and "m - 1 \<le> slip p e + of_bool (e > p)"
proof -
  note tw = ticks_within [OF assms(1,2), of t]
  consider "e > p" | "e = p" | "e < p" by linarith
  then have "slip p e \<le> m - 1 \<and> m - 1 \<le> slip p e + of_bool (e > p)"
  proof cases
    case 1
    then have "1 \<le> e div p" using assms(1) by (simp add: int_one_le_iff_zero_less pos_imp_zdiv_pos_iff)
    with 1 tw show ?thesis unfolding assms(3) slip_def by auto
  next
    case 2
    then have "m = 1" using tw(1) assms(1,3) by (simp add: div_pos_pos_trivial)
    with 2 show ?thesis by (simp add: slip_def)
  next
    case 3
    then have "e div p = 0" using assms(2) by simp
    with tw assms(3) 3 show ?thesis by (auto simp: slip_def)
  qed
  then show "slip p e \<le> m - 1" and "m - 1 \<le> slip p e + of_bool (e > p)" by simp_all
qed

section \<open>One round\<close>

definition ticker_inv :: "int \<Rightarrow> ticker \<Rightarrow> bool" where
  "ticker_inv now tk \<longleftrightarrow> 0 < period tk \<and> 0 \<le> now \<and> int (fired tk) = now div period tk"

lemma tick_receive:
  assumes inv: "ticker_inv now tk" and "0 \<le> latency d"
  defines "t0 \<equiv> available now tk + latency d"
  shows "ticker_inv t0 (elapse t0 tk)" and "period (elapse t0 tk) = period tk" and "pending (elapse t0 tk)"
    and "missed tk \<le> missed (elapse t0 tk)" and "latency d = 0 \<Longrightarrow> missed (elapse t0 tk) = missed tk"
    and "fired (elapse t0 tk) + missed tk + of_bool (pending tk) = fired tk + missed (elapse t0 tk) + 1"
proof -
  let ?p = "period tk"
  have p: "0 < ?p" "0 \<le> now" "int (fired tk) = now div ?p" using inv by (simp_all add: ticker_inv_def)
  have le: "int (fired tk) + of_bool (\<not> pending tk) \<le> t0 div ?p"
  proof (cases "pending tk")
    case True
    then show ?thesis using assms(2) p zdiv_mono1 [of now t0 ?p] by (simp add: t0_def available_def)
  next
    case False
    then show ?thesis using assms(2) p by (simp add: t0_def available_def pos_imp_zdiv_nonneg_iff)
  qed
  have t0: "0 \<le> t0" using assms(2) p by (simp add: t0_def available_def)
  define n where "n = nat (t0 div ?p - int (fired tk))"
  note eq = elapse_eq [OF n_def [symmetric]]
  have n: "int (fired tk) + int n = t0 div ?p" using le by (cases "pending tk") (simp_all add: n_def)
  have quick: "n \<le> of_bool (\<not> pending tk)" if "latency d = 0"
    using that p by (auto simp: n_def t0_def available_def)
  show "ticker_inv t0 (elapse t0 tk)" using p n t0 by (simp add: eq ticker_inv_def)
  show "period (elapse t0 tk) = ?p" "missed tk \<le> missed (elapse t0 tk)" by (simp_all add: eq)
  show "pending (elapse t0 tk)"
    and "fired (elapse t0 tk) + missed tk + of_bool (pending tk) = fired tk + missed (elapse t0 tk) + 1"
    using le n by (cases "pending tk"; auto simp: eq)+
  show "missed (elapse t0 tk) = missed tk" if "latency d = 0" using quick [OF that] by (auto simp: eq)
qed

lemma tick_round_ok:
  assumes inv: "ticker_inv now tk" and "0 \<le> latency d" and "0 \<le> duration d"
    and eq: "tick_round d now tk = (now', tk')"
  shows "ticker_inv now' tk'" and "period tk' = period tk"
    and "now' = available now tk + latency d + duration d"
    and "missed tk + slip (period tk) (duration d) \<le> missed tk'"
    and "latency d = 0 \<Longrightarrow> missed tk' \<le> missed tk + slip (period tk) (duration d) + of_bool (duration d > period tk)"
    and "fired tk' + missed tk + of_bool (pending tk) = fired tk + missed tk' + 1 + of_bool (pending tk')"
    and "duration d > period tk \<Longrightarrow> pending tk'"
proof -
  let ?p = "period tk"
  define t0 where "t0 = available now tk + latency d"
  define tk0 where "tk0 = (elapse t0 tk)\<lparr>pending := False\<rparr>"
  define t1 where "t1 = t0 + duration d"
  define m where "m = nat (t1 div ?p - t0 div ?p)"
  note rc = tick_receive [OF inv assms(2), folded t0_def]
  have p: "0 < ?p" using inv by (simp add: ticker_inv_def)
  have tk0: "period tk0 = ?p" "\<not> pending tk0" "int (fired tk0) = t0 div ?p" "missed tk0 = missed (elapse t0 tk)"
    "fired tk0 = fired (elapse t0 tk)" "0 \<le> t0"
    using rc(1,2) by (simp_all add: tk0_def ticker_inv_def)
  have mono: "t0 div ?p \<le> t1 div ?p" using zdiv_mono1 [of t0 t1 ?p] assms(3) p by (simp add: t1_def)
  have n: "nat (t1 div period tk0 - int (fired tk0)) = m" by (simp add: m_def tk0(1,3))
  have e: "elapse t1 tk0 = tk0\<lparr>fired := fired tk0 + m, pending := m \<noteq> 0, missed := missed tk0 + (m - 1)\<rparr>"
    using elapse_eq [OF n] tk0(2) by simp
  have out: "now' = t1" "tk' = elapse t1 tk0"
    using eq by (auto simp: tick_round_def Let_def t0_def tk0_def t1_def)
  note sb = slip_bounds [OF p assms(3), of m t0, folded t1_def, OF m_def]
  have "int (fired tk0) + int m = t1 div ?p" "0 \<le> t1" using mono tk0 assms(3) by (simp_all add: m_def t1_def)
  then show "ticker_inv now' tk'" using p tk0(1) by (simp add: out e ticker_inv_def)
  show "period tk' = ?p" by (simp add: out e tk0)
  show "now' = available now tk + latency d + duration d" by (simp add: out t1_def t0_def)
  show "missed tk + slip ?p (duration d) \<le> missed tk'" using sb(1) rc(4) by (simp add: out e tk0)
  show "missed tk' \<le> missed tk + slip ?p (duration d) + of_bool (duration d > ?p)" if "latency d = 0"
    using sb(2) rc(5) [OF that] by (simp add: out e tk0)
  show "fired tk' + missed tk + of_bool (pending tk) = fired tk + missed tk' + 1 + of_bool (pending tk')"
    using rc(6) by (auto simp: out e tk0)
  show "pending tk'" if "duration d > ?p"
  proof -
    have "1 \<le> duration d div ?p" using that p by (simp add: int_one_le_iff_zero_less pos_imp_zdiv_pos_iff)
    with ticks_within [OF p assms(3), of t0, folded t1_def] have "m \<noteq> 0" by (auto simp: m_def)
    then show ?thesis by (simp add: out e)
  qed
qed

section \<open>Slippage and dropped ticks\<close>

text \<open>Only the loop itself, after a drain, changes the slippage counter.\<close>

lemma drain_coalesced:
  assumes "run_inv b po"
    and "drainAndFlush marshal le arr now ctx w b po k = Ret (w', b', po', k', st)"
  shows "coalescedTicks b' = coalescedTicks b"
  using assms
proof (cases rule: drain_cases)
  case (sent sink p res b1 b2)
  then show ?thesis using deliver_side [of sink now ctx p w b1] by (auto simp: side_state_def)
qed simp

lemma pushes_coalesced: "pushes xs b = Ret b' \<Longrightarrow> coalescedTicks b' = coalescedTicks b"
  by (induction xs arbitrary: b) (auto simp: Push_def split: option.splits prod.splits if_splits)

lemma count_slippage_slip:
  "0 < tickInterval (cfg b) \<Longrightarrow>
   coalescedTicks (count_slippage e b) = coalescedTicks b + of_nat (slip (tickInterval (cfg b)) e)"
  by (auto simp: count_slippage_def slip_def pos_imp_zdiv_pos_iff of_nat_nat int_one_le_iff_zero_less)

text \<open>The slippage a tick adds: that of its duration, or none when the loop does not come back to it.\<close>

lemma tick_coalesced:
  assumes inv: "loop_inv s" and p: "0 < tickInterval (cfg (engine s))"
    and eq: "runLoop_step marshal le (Tick arr now e) s = Ret s'"
  shows "coalescedTicks (engine s') = coalescedTicks (engine s) +
      of_nat (if status s' = Running then slip (tickInterval (cfg (engine s))) e else 0)"
    and "status s' = Running \<Longrightarrow> status s = Running"
proof -
  have run: "run_inv (engine s) (prevOffset s)" using inv by (simp add: loop_inv_def)
  have "coalescedTicks (engine s') = coalescedTicks (engine s) +
      of_nat (if status s' = Running then slip (tickInterval (cfg (engine s))) e else 0) \<and>
      (status s' = Running \<longrightarrow> status s = Running)"
  proof (cases "status s = Running")
    case True
    obtain w' b' po' k' st where d: "drainAndFlush marshal le arr now Background (lworld s) (engine s) (prevOffset s) (keyframeN s) =
        Ret (w', b', po', k', st)" "cfg b' = cfg (engine s)"
      using drain_step [OF run] by blast
    with True eq drain_coalesced [OF run d(1)] count_slippage_slip [of b' e] p show ?thesis by (cases st) auto
  next
    case False
    obtain b' where "pushes (concat arr) (engine s) = Ret b'" using pushes_balance [OF run] by blast
    with False eq pushes_coalesced [OF this] show ?thesis by auto
  qed
  then show "coalescedTicks (engine s') = coalescedTicks (engine s) +
      of_nat (if status s' = Running then slip (tickInterval (cfg (engine s))) e else 0)"
    and "status s' = Running \<Longrightarrow> status s = Running" by simp_all
qed

definition timed_inv :: "('a, 's) timed \<Rightarrow> bool" where
  "timed_inv s \<longleftrightarrow> loop_inv (tloop s) \<and> ticker_inv (clock s) (tick s) \<and>
     period (tick s) = tickInterval (cfg (engine (tloop s)))"

lemma timed_drain_ok:
  assumes inv: "timed_inv s" and d: "0 \<le> latency d" "0 \<le> duration d"
  shows "\<exists>s'. timed_drain marshal le d s = Ret s' \<and> timed_inv s' \<and> period (tick s') = period (tick s) \<and>
    tick_round d (clock s) (tick s) = (clock s', tick s') \<and>
    coalescedTicks (engine (tloop s')) = coalescedTicks (engine (tloop s)) +
      of_nat (if status (tloop s') = Running then slip (period (tick s)) (duration d) else 0) \<and>
    (status (tloop s') = Running \<longrightarrow> status (tloop s) = Running)"
proof -
  have li: "loop_inv (tloop s)" and p: "period (tick s) = tickInterval (cfg (engine (tloop s)))"
    and ti: "ticker_inv (clock s) (tick s)" using inv by (simp_all add: timed_inv_def)
  obtain l where l: "runLoop_step marshal le (Tick (during d) (wall d) (duration d)) (tloop s) = Ret l" "loop_inv l"
    "cfg (engine l) = cfg (engine (tloop s))" using runLoop_step_ok [OF li] by blast
  obtain t tk where tk: "tick_round d (clock s) (tick s) = (t, tk)" by fastforce
  note r = tick_round_ok(1,2) [OF ti d tk]
  have "0 < tickInterval (cfg (engine (tloop s)))" using ti p by (simp add: ticker_inv_def)
  from tick_coalesced [OF li this l(1)] l tk r p show ?thesis
    by (simp add: timed_drain_def timed_inv_def)
qed

text \<open>A run of drains; \<open>c\<close> is the slippage counted meanwhile.\<close>

definition overruns :: "int \<Rightarrow> 'a drain_run list \<Rightarrow> nat" where
  "overruns p ds = length (filter (\<lambda>d. duration d > p) ds)"

definition prompt :: "'a drain_run list \<Rightarrow> bool" where
  "prompt ds \<longleftrightarrow> (\<forall>d \<in> set ds. latency d = 0)"

definition forward :: "'a drain_run list \<Rightarrow> bool" where
  "forward ds \<longleftrightarrow> (\<forall>d \<in> set ds. 0 \<le> latency d \<and> 0 \<le> duration d)"

lemma timed_run_slippage:
  assumes "timed_inv s" and "forward ds"
  shows "\<exists>s' c. timed_run marshal le ds s = Ret s' \<and>
    coalescedTicks (engine (tloop s')) = coalescedTicks (engine (tloop s)) + of_nat c \<and>
    missed (tick s) + c \<le> missed (tick s') \<and> c \<le> (\<Sum>d \<leftarrow> ds. slip (period (tick s)) (duration d)) \<and>
    (prompt ds \<and> status (tloop s') = Running \<longrightarrow>
       missed (tick s') \<le> missed (tick s) + c + overruns (period (tick s)) ds) \<and>
    (status (tloop s') = Running \<longrightarrow> status (tloop s) = Running)"
  using assms
proof (induction ds arbitrary: s)
  case Nil
  then show ?case by (intro exI [of _ s] exI [of _ "0::nat"]) simp
next
  case (Cons d ds)
  have d: "0 \<le> latency d" "0 \<le> duration d" and fw: "forward ds" using Cons.prems(2) by (simp_all add: forward_def)
  obtain s1 where s1: "timed_drain marshal le d s = Ret s1" "timed_inv s1" "period (tick s1) = period (tick s)"
    "tick_round d (clock s) (tick s) = (clock s1, tick s1)"
    "coalescedTicks (engine (tloop s1)) = coalescedTicks (engine (tloop s)) +
      of_nat (if status (tloop s1) = Running then slip (period (tick s)) (duration d) else 0)"
    "status (tloop s1) = Running \<longrightarrow> status (tloop s) = Running"
    using timed_drain_ok [OF Cons.prems(1) d] by blast
  have "ticker_inv (clock s) (tick s)" using Cons.prems(1) by (simp add: timed_inv_def)
  note r = tick_round_ok(4,5) [OF this d s1(4)]
  obtain s2 c where s2: "timed_run marshal le ds s1 = Ret s2"
    "coalescedTicks (engine (tloop s2)) = coalescedTicks (engine (tloop s1)) + of_nat c"
    "missed (tick s1) + c \<le> missed (tick s2)" "c \<le> (\<Sum>d \<leftarrow> ds. slip (period (tick s1)) (duration d))"
    "prompt ds \<and> status (tloop s2) = Running \<longrightarrow> missed (tick s2) \<le> missed (tick s1) + c + overruns (period (tick s1)) ds"
    "status (tloop s2) = Running \<longrightarrow> status (tloop s1) = Running"
    using Cons.IH [OF s1(2) fw] by blast
  let ?c = "(if status (tloop s1) = Running then slip (period (tick s)) (duration d) else 0) + c"
  have "missed (tick s2) \<le> missed (tick s) + ?c + overruns (period (tick s)) (d # ds)"
    if "prompt (d # ds)" "status (tloop s2) = Running"
    using that s1(3) s2(5,6) r(2) by (auto simp: prompt_def overruns_def)
  then show ?case
    using s1 s2 r(1) by (intro exI [of _ s2] exI [of _ ?c]) (auto simp: algebra_simps)
qed

lemma timed_start_inv:
  assumes "New zero sizeofT c = Ret (Inr b)" and "QueueSize c \<noteq> 1"
  shows "timed_inv (timed_start w b)"
proof -
  note st = start_inv(1) [OF assms, of w]
  then have "engine_inv b" by (simp add: loop_inv_def run_inv_def runLoop_start_def)
  then have "TickRate (cfg b) \<le> 1000000000" "1 \<le> TickRate (cfg b)" by (auto simp: engine_inv_def cfg_ok_def)
  then have "0 < tickInterval (cfg b)" by (simp add: tickInterval_def pos_imp_zdiv_pos_iff)
  then show ?thesis
    using st by (simp add: timed_inv_def timed_start_def ticker_inv_def defaultTicker_def runLoop_start_def)
qed

lemma New_coalesced: "New zero sizeofT c = Ret (Inr b) \<Longrightarrow> coalescedTicks b = 0"
  by (auto simp: New_def Let_def go_simps split: if_splits)

section \<open>Properties\<close>

text \<open>
  C25: the slippage counter against the ticker. Over any sequence of drains, with any durations and
  scheduling delays, \<^verbatim>\<open>CoalescedTicks\<close> never exceeds the number of ticks the ticker really dropped;
  while the loop is running and picks its ticks up at once, it falls short by at most one for every
  drain that took longer than the tick interval.
\<close>

theorem coalesced_ticks_bounds:
  assumes "New zero sizeofT cf = Ret (Inr b)" and "QueueSize cf \<noteq> 1" and "forward ds"
  shows "\<exists>s c. timed_run marshal le ds (timed_start w b) = Ret s \<and>
    CoalescedTicks (engine (tloop s)) = of_nat c \<and> c \<le> missed (tick s) \<and>
    (prompt ds \<and> status (tloop s) = Running \<longrightarrow> missed (tick s) \<le> c + overruns (tickInterval (cfg b)) ds)"
proof -
  from timed_run_slippage [OF timed_start_inv [OF assms(1,2), of w] assms(3), of marshal le] New_coalesced [OF assms(1)] show ?thesis
    by (auto simp: timed_start_def runLoop_start_def defaultTicker_def CoalescedTicks_def)
qed

definition drains :: "int list \<Rightarrow> 'a drain_run list" where
  "drains es = map (\<lambda>e. \<lparr>latency = 0, during = [], wall = 1, duration = e\<rparr>) es"

lemma drains_simps:
  "forward (drains es) \<longleftrightarrow> (\<forall>e \<in> set es. 0 \<le> e)" "prompt (drains es)"
  "overruns p (drains es) = length (filter (\<lambda>e. e > p) es)"
  by (auto simp: drains_def forward_def prompt_def overruns_def filter_map comp_def)

text \<open>A drain of half a second at 60 ticks a second: all 29 dropped ticks are counted.\<close>

theorem coalesced_ticks_bounds_witness:
  "\<exists>b s c. New (0::byte) 1 plain_config = Ret (Inr b) \<and>
     timed_run byte_marshal True (drains [500000000, 1000]) (timed_start \<lparr>env = [], slog = []\<rparr> b) = Ret s \<and>
     CoalescedTicks (engine (tloop s)) = of_nat c \<and> c \<le> missed (tick s) \<and>
     (status (tloop s) = Running \<longrightarrow> missed (tick s) \<le> c + 1)"
proof -
  obtain b where b: "New (0::byte) 1 plain_config = Ret (Inr b)" using plain_batcher by blast
  have q: "QueueSize plain_config \<noteq> 1" by (simp add: plain_config_def)
  have "tickInterval (cfg b) = 16666666"
    using start_inv(3) [OF b q] by (simp add: tickInterval_def effective_def plain_config_def)
  with coalesced_ticks_bounds [OF b q, of "drains [500000000, 1000]" byte_marshal True "\<lparr>env = [], slog = []\<rparr>"] b
  show ?thesis by (auto simp: drains_simps)
qed

text \<open>Drains back to back, each longer than the interval.\<close>

lemma timed_run_busy:
  assumes "timed_inv s" and "pending (tick s)" and "period (tick s) < e"
    and "\<forall>d \<in> set ds. latency d = 0 \<and> duration d = e" and "timed_run marshal le ds s = Ret s'"
  shows "timed_inv s' \<and> period (tick s') = period (tick s) \<and> pending (tick s') \<and>
    clock s' = clock s + int (length ds) * e \<and>
    fired (tick s') + missed (tick s) = fired (tick s) + missed (tick s') + length ds"
  using assms
proof (induction ds arbitrary: s)
  case (Cons d ds)
  have ti: "ticker_inv (clock s) (tick s)" using Cons.prems(1) by (simp add: timed_inv_def)
  have d: "latency d = 0" "duration d = e" "0 \<le> latency d" "0 \<le> duration d"
    using Cons.prems(3,4) ti by (auto simp: ticker_inv_def)
  obtain s1 where s1: "timed_drain marshal le d s = Ret s1" "timed_inv s1" "period (tick s1) = period (tick s)"
    "tick_round d (clock s) (tick s) = (clock s1, tick s1)"
    using timed_drain_ok [OF Cons.prems(1) d(3,4)] by blast
  note r = tick_round_ok(3,6,7) [OF ti d(3,4) s1(4)]
  have run: "timed_run marshal le ds s1 = Ret s'" using Cons.prems(5) s1(1) by simp
  have "pending (tick s1)" using r(3) d(2) Cons.prems(3) by simp
  with Cons.IH [OF s1(2) this _ _ run] Cons.prems r s1(3) d show ?case
    by (auto simp: available_def algebra_simps)
qed simp

text \<open>
  C35: sustained overrun goes unseen. When every drain takes more than one tick interval and less than
  two, the loop drops \<open>n * (e - interval) div interval\<close> of the ticks over \<open>n\<close> drains of \<open>e\<close>
  nanoseconds, up to almost half of all its ticks, and \<^verbatim>\<open>CoalescedTicks\<close> stays at zero.
\<close>

theorem slippage_unseen:
  assumes "New zero sizeofT cf = Ret (Inr b)" and "QueueSize cf \<noteq> 1" and "ds \<noteq> []"
    and "\<forall>d \<in> set ds. latency d = 0 \<and> duration d = e"
    and "tickInterval (cfg b) < e" and "e < 2 * tickInterval (cfg b)"
  shows "\<exists>s. timed_run marshal le ds (timed_start w b) = Ret s \<and> CoalescedTicks (engine (tloop s)) = 0 \<and>
    int (missed (tick s)) = int (length ds) * (e - tickInterval (cfg b)) div tickInterval (cfg b)"
proof -
  let ?p = "tickInterval (cfg b)" and ?s = "timed_start w b"
  obtain d ds' where ds: "ds = d # ds'" using assms(3) by (cases ds) auto
  have p: "0 < ?p" using timed_start_inv [OF assms(1,2), of w] by (simp add: timed_inv_def ticker_inv_def timed_start_def defaultTicker_def)
  have st: "period (tick ?s) = ?p" "\<not> pending (tick ?s)" "fired (tick ?s) = 0" "missed (tick ?s) = 0" "coalescedTicks (engine (tloop ?s)) = 0"
    using New_coalesced [OF assms(1)] by (simp_all add: timed_start_def defaultTicker_def runLoop_start_def)
  have fw: "forward ds" using assms(4,5) p by (auto simp: forward_def)
  note inv = timed_start_inv [OF assms(1,2), of w]
  have "e div ?p = 1" using assms(5,6) p div_pos_geq [of ?p e] by simp
  then have none: "(\<Sum>d \<leftarrow> ds. slip ?p (duration d)) = 0" using assms(4) by (auto simp: slip_def)
  obtain s where run: "timed_run marshal le ds ?s = Ret s" "CoalescedTicks (engine (tloop s)) = 0"
    using timed_run_slippage [OF inv fw, of marshal le] none st by (auto simp: CoalescedTicks_def)
  have d: "latency d = 0" "duration d = e" "0 \<le> latency d" "0 \<le> duration d" using assms(4,5) p by (auto simp: ds)
  obtain s1 where s1: "timed_drain marshal le d ?s = Ret s1" "timed_inv s1" "period (tick s1) = ?p"
    "tick_round d (clock ?s) (tick ?s) = (clock s1, tick s1)"
    using timed_drain_ok [OF inv d(3,4)] st by metis
  have "ticker_inv (clock ?s) (tick ?s)" using inv by (simp add: timed_inv_def)
  note r = tick_round_ok(3,6,7) [OF this d(3,4) s1(4)]
  have pend: "pending (tick s1)" using r(3) st(1) d(2) assms(5) by simp
  have run': "timed_run marshal le ds' s1 = Ret s" using run(1) s1(1) by (simp add: ds)
  have busy: "timed_inv s" "period (tick s) = ?p" "clock s = clock s1 + int (length ds') * e"
    "fired (tick s) + missed (tick s1) = fired (tick s1) + missed (tick s) + length ds'"
    using timed_run_busy [OF s1(2) pend _ _ run', of e] assms(4,5) s1(3) by (simp_all add: ds)
  have c: "clock s = ?p + int (length ds) * e" using busy(3) r(1) st d by (simp add: ds available_def algebra_simps)
  have "int (fired (tick s)) = clock s div ?p" using busy(1,2) by (simp add: timed_inv_def ticker_inv_def)
  moreover have "fired (tick s) = missed (tick s) + length ds + 1"
    using busy(4) r(2) st pend by (simp add: ds)
  moreover have "?p + int (length ds) * e = int (length ds) * (e - ?p) + (int (length ds) + 1) * ?p" by (simp add: algebra_simps)
  ultimately have "int (missed (tick s)) = int (length ds) * (e - ?p) div ?p" using c p by simp
  with run show ?thesis by blast
qed

text \<open>Ten drains of 30 ms at 60 ticks a second: eight ticks are dropped, none is counted.\<close>

theorem slippage_unseen_witness:
  "\<exists>b s. New (0::byte) 1 plain_config = Ret (Inr b) \<and>
     timed_run byte_marshal True (drains (replicate 10 30000000)) (timed_start \<lparr>env = [], slog = []\<rparr> b) = Ret s \<and>
     CoalescedTicks (engine (tloop s)) = 0 \<and> missed (tick s) = 8"
proof -
  obtain b where b: "New (0::byte) 1 plain_config = Ret (Inr b)" using plain_batcher by blast
  have q: "QueueSize plain_config \<noteq> 1" by (simp add: plain_config_def)
  have "tickInterval (cfg b) = 16666666"
    using start_inv(3) [OF b q] by (simp add: tickInterval_def effective_def plain_config_def)
  with slippage_unseen [OF b q, of "drains (replicate 10 30000000)" 30000000 byte_marshal True "\<lparr>env = [], slog = []\<rparr>"] b
  show ?thesis by (auto simp: drains_def)
qed

end
