(* ===== verification/Wire_Stream.thy ===== *)
theory Wire_Stream
  imports Codec
begin

unbundle bit_operations_syntax

text \<open>
  A whole stream of frames on the wire, as \<^verbatim>\<open>SPEC.md\<close> lays it out, and the decoders of
  \<^verbatim>\<open>codec/codec.go\<close> on it. Nothing here is about the engine: \<^verbatim>\<open>Delta_Stream\<close> shows that what the
  engine sends is such a stream.
\<close>

section \<open>Frames and what travels for them\<close>

text \<open>A frame by its sequence number, item count and body.\<close>

type_synonym frame_info = "u32 \<times> nat \<times> bytes"

text \<open>With an interval \<open>K\<close> every \<open>K\<close>-th frame of a delta stream, from the first, is a keyframe.\<close>

definition key_at :: "bool \<Rightarrow> nat \<Rightarrow> nat \<Rightarrow> bool" where
  "key_at delta K m \<longleftrightarrow> delta \<and> 0 < K \<and> m mod K = 0"

definition frame_at :: "bool \<Rightarrow> nat \<Rightarrow> nat \<Rightarrow> frame_info \<Rightarrow> bytes" where
  "frame_at delta K m f = (case f of (sq, n, body) \<Rightarrow>
     mk_frame sq (of_nat n) (integrity_tag (key_at delta K m) body) body)"

definition header_at :: "bool \<Rightarrow> nat \<Rightarrow> nat \<Rightarrow> frame_info \<Rightarrow> Header" where
  "header_at delta K m f = (case f of (sq, n, body) \<Rightarrow>
     \<lparr>Seq = sq, Count = of_nat n, CRC = ucast (ChecksumIEEE body AND 0x7fff), Keyframe = key_at delta K m\<rparr>)"

text \<open>The payload of frame number \<open>m\<close>, sent after the frame \<open>prv\<close>.\<close>

definition payload_at :: "bool \<Rightarrow> nat \<Rightarrow> bytes \<Rightarrow> nat \<Rightarrow> frame_info \<Rightarrow> bytes" where
  "payload_at delta K prv m f =
     (if delta \<and> \<not> key_at delta K m then delta_wire prv (frame_at delta K m f) else frame_at delta K m f)"

fun transmit :: "bool \<Rightarrow> nat \<Rightarrow> bytes \<Rightarrow> nat \<Rightarrow> frame_info list \<Rightarrow> bytes list" where
  "transmit delta K prv m [] = []"
| "transmit delta K prv m (f # fs) = payload_at delta K prv m f # transmit delta K (frame_at delta K m f) (Suc m) fs"

text \<open>The last frame of a stream that starts after \<open>prv\<close>.\<close>

fun last_frame :: "bool \<Rightarrow> nat \<Rightarrow> bytes \<Rightarrow> nat \<Rightarrow> frame_info list \<Rightarrow> bytes" where
  "last_frame delta K prv m [] = prv"
| "last_frame delta K prv m (f # fs) = last_frame delta K (frame_at delta K m f) (Suc m) fs"

section \<open>The receiver\<close>

text \<open>\<^verbatim>\<open>Reconstruct\<close> on a list of received payloads.\<close>

fun receive :: "DeltaReconstructor \<Rightarrow> bytes list \<Rightarrow> DeltaReconstructor \<times> (codec_error + (bytes \<times> Header)) list" where
  "receive d [] = (d, [])"
| "receive d (p # ps) =
     (case Reconstruct d p of (d1, res) \<Rightarrow> case receive d1 ps of (d2, rs) \<Rightarrow> (d2, res # rs))"

text \<open>What a receiver should get: every frame with its header.\<close>

fun originals :: "bool \<Rightarrow> nat \<Rightarrow> nat \<Rightarrow> frame_info list \<Rightarrow> (bytes \<times> Header) list" where
  "originals delta K m [] = []"
| "originals delta K m (f # fs) = (frame_at delta K m f, header_at delta K m f) # originals delta K (Suc m) fs"

text \<open>
  No delta of the stream passes for a keyframe. \<open>delta_misread_iff\<close> says when this fails for a pair
  of frames; it can only be at a delta right after a keyframe.
\<close>

definition unambiguous :: "nat \<Rightarrow> nat \<Rightarrow> bytes list \<Rightarrow> bool" where
  "unambiguous K m ps \<longleftrightarrow> (\<forall>i < length ps. reads_as_keyframe (ps ! i) \<longrightarrow> key_at True K (m + i))"

section \<open>Lemmas\<close>

lemma receive_append:
  "receive d (ps @ qs) =
     (case receive d ps of (d1, rs1) \<Rightarrow> case receive d1 qs of (d2, rs2) \<Rightarrow> (d2, rs1 @ rs2))"
  by (induction ps arbitrary: d) (auto split: prod.split)

lemma length_transmit [simp]: "length (transmit delta K prv m fs) = length fs"
  by (induction fs arbitrary: prv m) auto

lemma length_originals [simp]: "length (originals delta K m fs) = length fs"
  by (induction fs arbitrary: m) auto

lemma transmit_append:
  "transmit delta K prv m (fs @ gs) =
     transmit delta K prv m fs @ transmit delta K (last_frame delta K prv m fs) (m + length fs) gs"
  by (induction fs arbitrary: prv m) auto

lemma last_frame_append:
  "last_frame delta K prv m (fs @ gs) = last_frame delta K (last_frame delta K prv m fs) (m + length fs) gs"
  by (induction fs arbitrary: prv m) auto

lemma originals_append:
  "originals delta K m (fs @ gs) = originals delta K m fs @ originals delta K (m + length fs) gs"
  by (induction fs arbitrary: m) auto

lemma originals_contents:
  "map (\<lambda>(raw, h). (drop headerSize raw, Seq h, Count h)) (originals delta K m fs) =
     map (\<lambda>(sq, n, body). (body, sq, of_nat n)) fs"
  by (induction fs arbitrary: m) (auto simp: frame_at_def header_at_def)

lemma unambiguous_Cons:
  "unambiguous K m (p # ps) \<longleftrightarrow> (reads_as_keyframe p \<longrightarrow> key_at True K m) \<and> unambiguous K (Suc m) ps"
  unfolding unambiguous_def by (simp add: All_less_Suc2)

text \<open>One payload, at a keyframe or in sync.\<close>

lemma Reconstruct_payload:
  assumes "prev d = prv \<or> key_at True K m" and "reads_as_keyframe (payload_at True K prv m f) \<longrightarrow> key_at True K m"
  shows "Reconstruct d (payload_at True K prv m f) =
    (\<lparr>prev = frame_at True K m f\<rparr>, Inr (frame_at True K m f, header_at True K m f))"
proof -
  obtain sq n body where f: "f = (sq, n, body)" by (metis prod_cases3)
  show ?thesis
  proof (cases "key_at True K m")
    case True
    then show ?thesis by (simp add: payload_at_def frame_at_def header_at_def f Reconstruct_mk_keyframe)
  next
    case False
    let ?raw = "frame_at True K m f"
    have "headerSize \<le> length ?raw" "Decode ?raw = Inr (header_at True K m f, body)"
      by (simp_all add: frame_at_def header_at_def f Decode_mk_frame)
    moreover have "payload_at True K prv m f = delta_wire (prev d) ?raw"
      using assms(1) False by (simp add: payload_at_def)
    moreover have "d\<lparr>prev := ?raw\<rparr> = \<lparr>prev = ?raw\<rparr>" by (cases d) simp
    ultimately show ?thesis using Reconstruct_not_misread [of ?raw d] assms(2) False by simp
  qed
qed

text \<open>A receiver that is in sync, or that starts at a keyframe, recovers the stream.\<close>

lemma receive_transmit:
  assumes "prev d = prv \<or> key_at True K m" and "unambiguous K m (transmit True K prv m fs)"
  shows "receive d (transmit True K prv m fs) =
    (if fs = [] then d else \<lparr>prev = last_frame True K prv m fs\<rparr>, map Inr (originals True K m fs))"
  using assms
proof (induction fs arbitrary: d prv m)
  case (Cons f fs)
  have "receive \<lparr>prev = frame_at True K m f\<rparr> (transmit True K (frame_at True K m f) (Suc m) fs) =
      (\<lparr>prev = last_frame True K (frame_at True K m f) (Suc m) fs\<rparr>, map Inr (originals True K (Suc m) fs))"
    using Cons.IH [of "\<lparr>prev = frame_at True K m f\<rparr>" "frame_at True K m f" "Suc m"] Cons.prems(2)
    by (cases fs) (simp_all add: unambiguous_Cons)
  then show ?case
    using Reconstruct_payload [OF Cons.prems(1), of f] Cons.prems(2) by (simp add: unambiguous_Cons)
qed simp

lemma receive_from_start:
  assumes "unambiguous K 0 (transmit True K [] 0 fs)"
  shows "receive \<lparr>prev = []\<rparr> (transmit True K [] 0 fs) =
    (\<lparr>prev = last_frame True K [] 0 fs\<rparr>, map Inr (originals True K 0 fs))"
proof -
  have "prev \<lparr>prev = []\<rparr> = [] \<or> key_at True K 0" by simp
  from receive_transmit [OF this assms] show ?thesis by (auto split: if_splits)
qed

text \<open>A receiver in any state that starts at a keyframe.\<close>

lemma receive_from_keyframe:
  assumes "key_at True K j" and "j < length fs" and "unambiguous K j (drop j (transmit True K [] 0 fs))"
  shows "receive d (drop j (transmit True K [] 0 fs)) =
    (\<lparr>prev = last_frame True K [] 0 fs\<rparr>, map Inr (drop j (originals True K 0 fs)))"
proof -
  have fs: "fs = take j fs @ drop j fs" and len: "length (take j fs) = j" using assms(2) by simp_all
  let ?p = "last_frame True K [] 0 (take j fs)"
  have "drop j (transmit True K [] 0 fs) = transmit True K ?p j (drop j fs)"
    "last_frame True K [] 0 fs = last_frame True K ?p j (drop j fs)"
    "drop j (originals True K 0 fs) = originals True K j (drop j fs)"
    using transmit_append [of True K "[]" 0 "take j fs" "drop j fs"] last_frame_append [of True K "[]" 0 "take j fs" "drop j fs"]
      originals_append [of True K 0 "take j fs" "drop j fs"] len by simp_all
  then show ?thesis using receive_transmit [of d ?p K j "drop j fs"] assms by simp
qed

text \<open>Without keyframes, and with keyframes only, no payload is ambiguous.\<close>

lemma unambiguous_never:
  assumes "prv = [] \<or> (\<exists>sq c b. prv = mk_frame sq c (integrity_tag False b) b)"
  shows "unambiguous 0 m (transmit True 0 prv m fs)"
  using assms
proof (induction fs arbitrary: prv m)
  case (Cons f fs)
  obtain sq n body where f: "f = (sq, n, body)" by (metis prod_cases3)
  have "\<not> reads_as_keyframe (payload_at True 0 prv m f)"
    using Cons.prems plain_delta_not_misread by (auto simp: payload_at_def frame_at_def key_at_def f)
  moreover have "frame_at True 0 m f = mk_frame sq (of_nat n) (integrity_tag False body) body"
    by (simp add: frame_at_def key_at_def f)
  ultimately show ?case using Cons.IH [of "frame_at True 0 m f" "Suc m"] by (auto simp: unambiguous_Cons)
qed (simp add: unambiguous_def)

lemma unambiguous_always: "unambiguous 1 m ps"
  by (simp add: unambiguous_def key_at_def)

lemma Decode_frame_at: "Decode (frame_at delta K m f) = Inr (header_at delta K m f, snd (snd f))"
  by (cases f) (simp add: frame_at_def header_at_def Decode_mk_frame)

lemma originals_decode: "\<forall>(raw, h) \<in> set (originals delta K m fs). Decode raw = Inr (h, drop headerSize raw)"
  by (induction fs arbitrary: m) (auto simp: Decode_frame_at, auto simp: frame_at_def)

lemma transmit_raw: "transmit False K prv m fs = map (frame_at False K 0) fs"
  by (induction fs arbitrary: prv m) (auto simp: payload_at_def frame_at_def key_at_def)

end
