(* ===== verification/Delta_Stream.thy ===== *)
theory Delta_Stream
  imports Engine_Run Wire_Stream
begin

unbundle bit_operations_syntax

text \<open>
  Sender, link and receiver together: the engine on one side of a link that hands over exactly
  the payloads whose flush returned nil (the locale \<open>reliable_link\<close>), the decoders of
  \<^verbatim>\<open>codec.go\<close> on the other. What the engine sends is a stream of \<^verbatim>\<open>Wire_Stream\<close>, whose frames carry the
  pushed items in order. The lemmas are proved for any such link inside the locale and used for
  the recording sinks through its interpretations.
\<close>

section \<open>One frame\<close>

text \<open>On the wire a delta is taken against the frame in the baseline buffer.\<close>

lemma wire_baseline:
  assumes "baseline b po prv" and "length raw \<le> length (previousState b)"
  shows "wire b k raw =
    (if DeltaEncoding (cfg b) \<and> \<not> sends_keyframe (cfg b) k then delta_wire prv raw else raw)"
proof -
  have "take (length raw) (previousState b) = zext prv (length raw)"
    using assms take_zext [of "length raw" "length (previousState b)" prv] by (simp add: baseline_def)
  then show ?thesis by (simp add: wire_def delta_wire_def)
qed

text \<open>The interval of a configuration, and its keyframes counted by successful flushes.\<close>

abbreviation interval :: "'s Config \<Rightarrow> nat" where
  "interval c \<equiv> unat (KeyframeInterval c)"

lemma sends_keyframe_key_at:
  assumes "DeltaEncoding c \<longrightarrow> k = (next_keyframeN c ^^ m) 0"
  shows "sends_keyframe c k = key_at (DeltaEncoding c) (interval c) m"
proof (cases "DeltaEncoding c")
  case True
  with keyframe_cycle [OF True, of m] assms show ?thesis by (simp add: key_at_def word_less_nat_alt)
qed (simp add: sends_keyframe_def key_at_def)

section \<open>The link\<close>

context reliable_link
begin

lemma flush_log:
  assumes "ok s" and "Flush sink ctx p s = (s', c)"
  shows "ok s'" and "log s' = log s @ (if c \<in> {Returns None, ReturnsUnstored None} then [p] else [])"
  using flush_ok [OF assms] flush_nil [OF assms] flush_fail [OF assms] by auto

lemma flushWithTimeout_log:
  assumes ok: "ok (env w)" and fits: "FlushTimeout (cfg b) = 0 \<or> length p \<le> length (timeoutBuf b)"
    and fl: "flushWithTimeout sink ctx p w b = Ret (w', b', res)"
  shows "ok (env w')" and "log (env w') = log (env w) @ (if res = FlushReturned None then [p] else [])"
    and "cfg b' = cfg b"
proof -
  have "ok (env w') \<and> log (env w') = log (env w) @ (if res = FlushReturned None then [p] else [])"
  proof (cases "FlushTimeout (cfg b) = 0")
    case True
    obtain s c where c: "Flush sink ctx p (env w) = (s, c)" by fastforce
    with fl True flush_log [OF ok c] show ?thesis
      by (cases c) (auto simp: flushWithTimeout_def)
  next
    case False
    obtain s c where c: "Flush sink (WithTimeout ctx (FlushTimeout (cfg b))) p (env w) = (s, c)" by fastforce
    have "take (length (timeoutBuf b)) p = p" using fits False by simp
    with fl c ok False flush_log [OF ok c] flushWithTimeout_armed [of b sink ctx p w] show ?thesis
      by (cases "flushInFlight b"; cases c) (auto simp: Let_def)
  qed
  then show "ok (env w')" "log (env w') = log (env w) @ (if res = FlushReturned None then [p] else [])" by auto
  show "cfg b' = cfg b" using flushWithTimeout_side [of sink ctx p w b] fl by (auto simp: side_state_def)
qed

lemma deliver_log:
  assumes ok: "ok (env w)" and plain: "Compressor (cfg b) = None" "OnFlushError (cfg b) = None"
    and fits: "FlushTimeout (cfg b) = 0 \<or> length p \<le> length (timeoutBuf b)"
    and del: "deliver sink now ctx p w b = Ret (w', b', res)"
  shows "ok (env w')" and "log (env w') = log (env w) @ (if \<exists>len. res = Delivered len then [p] else [])"
proof -
  obtain w1 b1 r1 where f: "flushWithTimeout sink ctx p w b = Ret (w1, b1, r1)"
    using flushWithTimeout_side [of sink ctx p w b] by blast
  note fl = flushWithTimeout_log [OF ok fits f]
  have rep: "env w2 = env w1" if "reportError now e w1 (b1\<lparr>flushErrs := flushErrs b1 + 1\<rparr>) = (w2, b2)" for e w2 b2
    using that plain(2) fl(3) by (auto simp: reportError_def Let_def split: if_splits)
  have "ok (env w') \<and> log (env w') = log (env w) @ (if \<exists>len. res = Delivered len then [p] else [])"
  proof (cases r1)
    case FlushParked
    then show ?thesis using del f plain fl by (auto simp: deliver_def compress_payload_def)
  next
    case (FlushReturned e)
    then show ?thesis
      using del f plain fl by (cases e) (auto simp: deliver_def compress_payload_def dest!: rep split: prod.splits)
  qed
  then show "ok (env w')" and "log (env w') = log (env w) @ (if \<exists>len. res = Delivered len then [p] else [])" by auto
qed

end

section \<open>The stream\<close>

text \<open>The configurations the stream theorems are about.\<close>

definition stream_config :: "'s sink_ops \<Rightarrow> 's Config \<Rightarrow> bool" where
  "stream_config sink c \<longleftrightarrow> Sink c = Some sink \<and> Compressor c = None \<and> OnFlushError c = None \<and> 0 \<le> FlushTimeout c"

text \<open>\<open>carries enc fs yss\<close>: the frames are batches of the encodings of the items \<open>yss\<close>.\<close>

definition carries :: "('a \<Rightarrow> bytes) \<Rightarrow> frame_info list \<Rightarrow> 'a list list \<Rightarrow> bool" where
  "carries enc fs yss \<longleftrightarrow> map snd fs = map (\<lambda>ys. (length ys, concat (map enc ys))) yss"

text \<open>
  The invariant of the loop together with the link: what was delivered is the stream of the
  frames \<open>fs\<close>, the sender's baseline is the last of them, the counters count them, and if
  \<^verbatim>\<open>Marshal\<close> keeps its contract the frames carry, and the queue holds behind them, a subsequence of
  the items \<open>xs\<close> pushed so far.
\<close>

definition stream_state ::
  "'a marshal \<Rightarrow> ('s \<Rightarrow> bool) \<Rightarrow> ('s \<Rightarrow> bytes list) \<Rightarrow> 's world \<Rightarrow> ('a, 's) Batcher \<Rightarrow> int \<Rightarrow> u32 \<Rightarrow>
   'a list \<Rightarrow> frame_info list \<Rightarrow> bool" where
  "stream_state marshal ok log w b po k xs fs \<longleftrightarrow> run_inv b po \<and> ok (env w) \<and>
     log (env w) = transmit (DeltaEncoding (cfg b)) (interval (cfg b)) [] 0 fs \<and>
     (DeltaEncoding (cfg b) \<longrightarrow> k = (next_keyframeN (cfg b) ^^ length fs) 0 \<and>
        baseline b po (last_frame True (interval (cfg b)) [] 0 fs)) \<and>
     flushedBatches b = of_nat (length fs) \<and> flushedItems b = of_nat (sum_list (map (fst \<circ> snd) fs)) \<and>
     (\<forall>enc. serializable marshal enc (MaxItemSize (cfg b)) \<longrightarrow>
        (\<exists>yss. carries enc fs yss \<and> subseq (concat yss @ items (ring b)) xs))"

lemma subseq_flow:
  assumes "flow b as ys r d" and "subseq (zs @ items (ring b)) xs"
  shows "subseq (zs @ ys @ items r) (xs @ as)"
proof -
  have "subseq (zs @ ys @ items r) ((zs @ items (ring b)) @ as)"
    using assms(1) by (simp add: flow_def subseq_append')
  also have "subseq ((zs @ items (ring b)) @ as) (xs @ as)" using assms(2) by (simp only: subseq_append)
  finally show ?thesis .
qed

lemma subseq_skip: "subseq (zs @ ys @ q) xs \<Longrightarrow> subseq (zs @ q) xs"
  using subseq_order.order_trans [of "zs @ q" "zs @ ys @ q" xs] by (simp add: subseq_append' subseq_drop_many)

text \<open>Steps that deliver nothing: the same frames, and possibly more pushed items.\<close>

lemma stream_keep:
  assumes st: "stream_state marshal ok log w b po k xs fs" and fl: "flow b as ys (ring b') d"
    and inv: "run_inv b' po" and w: "ok (env w')" "log (env w') = log (env w)"
    and same: "cfg b' = cfg b" "previousState b' = previousState b"
      "flushedBatches b' = flushedBatches b" "flushedItems b' = flushedItems b"
  shows "stream_state marshal ok log w' b' po k (xs @ as) fs"
proof -
  have "\<exists>yss. carries enc fs yss \<and> subseq (concat yss @ items (ring b')) (xs @ as)"
    if ser: "serializable marshal enc (MaxItemSize (cfg b))" for enc
  proof -
    obtain yss where "carries enc fs yss" "subseq (concat yss @ items (ring b)) xs"
      using st ser by (auto simp: stream_state_def)
    with subseq_skip [OF subseq_flow [OF fl]] show ?thesis by blast
  qed
  then show ?thesis using st inv w same by (simp add: stream_state_def baseline_def)
qed

text \<open>A delivered frame.\<close>

lemma stream_send:
  assumes st: "stream_state marshal ok log w b po k xs fs" and fl: "flow b as ys (ring b') d"
    and inv: "run_inv b' po'" and ok: "ok (env w')" and cfg: "cfg b' = cfg b"
    and f: "f = (sq, n, body)" and raw: "raw = frame_at (DeltaEncoding (cfg b)) (interval (cfg b)) (length fs) f"
    and log: "log (env w') = log (env w) @
      [payload_at (DeltaEncoding (cfg b)) (interval (cfg b))
         (last_frame (DeltaEncoding (cfg b)) (interval (cfg b)) [] 0 fs) (length fs) f]"
    and delta: "DeltaEncoding (cfg b) \<longrightarrow> k' = next_keyframeN (cfg b) k \<and> baseline b' po' raw"
    and cnt: "flushedBatches b' = flushedBatches b + 1" "flushedItems b' = flushedItems b + of_nat n"
    and enc: "\<And>enc. serializable marshal enc (MaxItemSize (cfg b)) \<Longrightarrow> n = length ys \<and> body = concat (map enc ys)"
  shows "stream_state marshal ok log w' b' po' k' (xs @ as) (fs @ [f])"
proof -
  have "\<exists>yss. carries enc (fs @ [f]) yss \<and> subseq (concat yss @ items (ring b')) (xs @ as)"
    if ser: "serializable marshal enc (MaxItemSize (cfg b))" for enc
  proof -
    obtain yss where "carries enc fs yss" "subseq (concat yss @ items (ring b)) xs"
      using st ser by (auto simp: stream_state_def)
    with subseq_flow [OF fl, of "concat yss" xs] enc [OF ser] show ?thesis
      by (intro exI [of _ "yss @ [ys]"]) (simp add: carries_def f)
  qed
  then show ?thesis
    using st inv ok cfg log delta cnt raw
    by (simp add: stream_state_def transmit_append last_frame_append f add.commute)
qed

lemma lossless_effective: "lossless (effective sizeofT c) = lossless c"
  by (simp add: lossless_def effective_def)

lemma carries_bodies:
  "carries enc fs yss \<Longrightarrow> sum_list (map (fst \<circ> snd) fs) = length (concat yss)"
proof -
  assume "carries enc fs yss"
  then have "map fst (map snd fs) = map length yss" by (simp add: carries_def o_def)
  then show ?thesis by (simp add: length_concat)
qed

lemma originals_carry:
  assumes "carries enc fs yss"
  shows "map (\<lambda>(raw, h). (drop 8 raw, Count h)) (originals delta K m fs) =
    map (\<lambda>ys. (concat (map enc ys), of_nat (length ys))) yss"
proof -
  have "map (\<lambda>(raw, h). (drop 8 raw, Count h)) (originals delta K m fs) = map ((\<lambda>(n, body). (body, of_nat n)) \<circ> snd) fs"
    by (induction fs arbitrary: m) (auto simp: frame_at_def header_at_def drop_mk_frame [unfolded headerSize_def])
  also have "\<dots> = map (\<lambda>(n, body). (body, of_nat n)) (map snd fs)" by simp
  also have "\<dots> = map (\<lambda>ys. (concat (map enc ys), of_nat (length ys))) yss"
    unfolding assms [unfolded carries_def] by simp
  finally show ?thesis .
qed

text \<open>The frame the engine builds, and what it hands to the sink, in the terms of the stream.\<close>

lemma raw_frame_at:
  assumes "DeltaEncoding (cfg b) \<longrightarrow> k = (next_keyframeN (cfg b) ^^ m) 0"
  shows "raw_frame b k n body = frame_at (DeltaEncoding (cfg b)) (interval (cfg b)) m (sequenceID b + 1, n, body)"
  using sends_keyframe_key_at [OF assms] by (simp add: raw_frame_def frame_at_def)

lemma wire_payload_at:
  assumes k: "DeltaEncoding (cfg b) \<longrightarrow> k = (next_keyframeN (cfg b) ^^ m) 0" and base: "DeltaEncoding (cfg b) \<longrightarrow> baseline b po prv"
    and fit: "DeltaEncoding (cfg b) \<longrightarrow> length (raw_frame b k n body) \<le> length (previousState b)"
  shows "wire b k (raw_frame b k n body) =
    payload_at (DeltaEncoding (cfg b)) (interval (cfg b)) prv m (sequenceID b + 1, n, body)"
proof (cases "DeltaEncoding (cfg b)")
  case True
  with wire_baseline [of b po prv "raw_frame b k n body" k] base fit show ?thesis
    using sends_keyframe_key_at [OF k] by (simp add: payload_at_def raw_frame_at [OF k])
next
  case False
  then show ?thesis by (simp add: payload_at_def wire_def raw_frame_at [OF k])
qed

context reliable_link
begin

lemma drain_stream_sent:
  assumes cfg: "stream_config sink (cfg b)" and st: "stream_state marshal ok log w b po k xs fs"
    and col: "collects marshal arr b ys r d buf offset n trunc"
    and raw: "raw = raw_frame b k n (frame_body buf offset)" "length raw = nat offset"
    and del: "deliver sink now ctx (wire b k raw) w (stamped b r d trunc (raw @ drop (nat offset) buf) db) = Ret (w2, b2, res)"
    and side: "side_state (stamped b r d trunc (raw @ drop (nat offset) buf) db) b2"
    and eq: "conclude now n raw po k (w2, b2, res) = (w', b', po', k', fin)" and rest: "run_inv b' po'" "cfg b' = cfg b"
  shows "\<exists>fs'. stream_state marshal ok log w' b' po' k' (xs @ concat arr) fs'"
proof -
  let ?delta = "DeltaEncoding (cfg b)" and ?body = "frame_body buf offset"
  let ?prv = "last_frame ?delta (interval (cfg b)) [] 0 fs" and ?f = "(sequenceID b + 1, n, ?body)"
  have inv: "engine_inv b" and ok: "ok (env w)" and k: "?delta \<longrightarrow> k = (next_keyframeN (cfg b) ^^ length fs) 0"
    and base: "?delta \<longrightarrow> baseline b po ?prv" using st by (auto simp: stream_state_def run_inv_def)
  have fl: "flow b (concat arr) ys r d" using col by (simp add: collects_def)
  note c = cfg [unfolded stream_config_def] and bnd = collects_bounds [OF inv col]
  have fit: "?delta \<longrightarrow> length raw \<le> length (previousState b)" using raw(2) bnd(3) engine_sizes(2) [OF inv] by auto
  note wire = wire_payload_at [OF k base, of n ?body, folded raw(1), OF fit] and at = raw_frame_at [OF k, of n ?body, folded raw(1)]
  have same: "cfg b2 = cfg b" "previousState b2 = previousState b" "flushedBatches b2 = flushedBatches b"
    "flushedItems b2 = flushedItems b" "ring b2 = r" using side by (simp_all add: side_state_def stamped_def)
  have "length (wire b k raw) = length raw" using wire at by (simp add: payload_at_def)
  then have fits: "FlushTimeout (cfg b) = 0 \<or> length (wire b k raw) \<le> length (timeoutBuf b)"
    using c raw(2) bnd engine_sizes(4) [OF inv] by linarith
  have lg: "ok (env w2)" "log (env w2) = log (env w) @ (if \<exists>len. res = Delivered len then [wire b k raw] else [])"
    using deliver_log [OF ok _ _ _ del] c fits by (simp_all add: stamped_def)
  show ?thesis
  proof (cases "\<exists>len. res = Delivered len")
    case True
    then obtain l where l: "res = Delivered l" by blast
    have out: "w' = w2" "b' = after_success now n l raw b2" "?delta \<longrightarrow> po' = int (length raw) \<and> k' = next_keyframeN (cfg b) k"
      using eq l same by auto
    have enc: "n = length ys \<and> ?body = concat (map enc ys)" if "serializable marshal enc (MaxItemSize (cfg b))" for enc
      using collects_body [OF inv that col] collects_enc(1) [OF inv that col] by simp
    have "baseline b' po' raw" if "?delta" using that out after_success_baseline [of raw b2] fit same by simp
    then have "stream_state marshal ok log w' b' po' k' (xs @ concat arr) (fs @ [?f])"
      using stream_send [OF st, of "concat arr" ys b' d po' w' ?f "sequenceID b + 1" n ?body raw k'] fl rest lg l out same wire enc at
      by simp
    then show ?thesis by blast
  next
    case False
    then have "w' = w2" "b' = b2" "po' = po" "k' = k" using eq by (cases res; simp)+
    then have "stream_state marshal ok log w' b' po' k' (xs @ concat arr) fs"
      using stream_keep [OF st, of "concat arr" ys b2 d w2] fl rest lg False same by simp
    then show ?thesis by blast
  qed
qed

lemma drain_stream:
  assumes cfg: "stream_config sink (cfg b)" and st: "stream_state marshal ok log w b po k xs fs"
    and eq: "drainAndFlush marshal le arr now ctx w b po k = Ret (w', b', po', k', fin)"
  shows "\<exists>fs'. stream_state marshal ok log w' b' po' k' (xs @ concat arr) fs'"
proof -
  obtain prv where inv: "engine_inv b" "baseline b po prv" using st by (auto simp: stream_state_def run_inv_def)
  have rest: "run_inv b' po'" "cfg b' = cfg b" using drain_inv [OF inv, of marshal le arr now ctx w k] eq by auto
  obtain ys r d buf offset n trunc where col: "collects marshal arr b ys r d buf offset n trunc"
    using collects_exists [OF inv(1)] by blast
  from inv col show ?thesis
  proof (cases rule: drain_outcome [where k = k and now = now and ctx = ctx and w = w and le = le])
    case idle
    then have b': "w' = w" "po' = po" "k' = k" "b' = b\<lparr>ring := r, dropped := d, byteBuffer := buf, truncated := trunc\<rparr>"
      using eq by auto
    then have "stream_state marshal ok log w' b' po' k' (xs @ concat arr) fs"
      using stream_keep [OF st, of "concat arr" ys b' d w] col rest st by (simp add: collects_def stream_state_def)
    then show ?thesis by blast
  next
    case (send sk raw db w2 b2 res)
    have "sk = sink" using send(2) cfg by (simp add: stream_config_def)
    with send(6) have "deliver sink now ctx (wire b k raw) w (stamped b r d trunc (raw @ drop (nat offset) buf) db) = Ret (w2, b2, res)"
      by simp
    moreover have "conclude now n raw po k (w2, b2, res) = (w', b', po', k', fin)" using send(8) eq by simp
    ultimately show ?thesis by (rule drain_stream_sent [OF cfg st col send(3,4) _ send(7) _ rest])
  qed
qed

lemma pushes_stream:
  assumes st: "stream_state marshal ok log w b po k xs fs" and eq: "pushes as b = Ret b'"
  shows "stream_state marshal ok log w b' po k (xs @ as) fs"
proof -
  have run: "run_inv b po" using st by (simp add: stream_state_def)
  obtain r d where p: "b' = b\<lparr>ring := r, dropped := d\<rparr>" "flow b as [] r d"
    using flow_pushes [of b as] run eq by (auto simp: run_inv_def)
  have "run_inv b' po" using pushes_balance [OF run, of as] eq by auto
  with stream_keep [OF st, of as "[]" b' d w] p st show ?thesis by (simp add: stream_state_def)
qed

lemma side_stream:
  assumes st: "stream_state marshal ok log w b po k xs fs" and side: "side_state b b'" and w: "env w' = env w"
  shows "stream_state marshal ok log w' b' po k xs fs"
proof -
  have run: "run_inv b po" using st by (simp add: stream_state_def)
  have "flow b [] [] (ring b') (dropped b)"
    using run side flow_refl [of b] by (simp add: run_inv_def engine_inv_def side_state_def)
  with stream_keep [OF st this run_inv_side [OF side run], of w'] side w st show ?thesis
    by (simp add: side_state_def stream_state_def)
qed

lemma finalDrain_stream:
  assumes cfg: "stream_config sink (cfg b)" and st: "stream_state marshal ok log w b po k xs fs"
    and eq: "finalDrain marshal le expired arr now later w b po k = Ret (w', b', po', k', fin)"
  shows "\<exists>fs'. stream_state marshal ok log w' b' po' k' (xs @ concat arr) fs'"
proof (cases "ShutdownTimeout (cfg b) \<le> 0")
  case True
  then show ?thesis using drain_stream [OF cfg st] eq by (simp add: finalDrain_def)
next
  case False
  let ?base = "WithTimeout Background (ShutdownTimeout (cfg b))" and ?err = "ErrShutdown (ShutdownTimeout (cfg b))"
  obtain prv where inv: "engine_inv b" "baseline b po prv" using st by (auto simp: stream_state_def run_inv_def)
  obtain w1 b1 po1 k1 fin1 where d: "drainAndFlush marshal le arr now ?base w b po k = Ret (w1, b1, po1, k1, fin1)" "cfg b1 = cfg b"
    using drain_inv [OF inv, of marshal le arr now ?base w k] by blast
  obtain fs' where s1: "stream_state marshal ok log w1 b1 po1 k1 (xs @ concat arr) fs'"
    using drain_stream [OF cfg st d(1)] by blast
  obtain w2 b2 where rep: "reportError later ?err w1 b1 = (w2, b2)" by fastforce
  have "env w2 = env w1"
    using rep d(2) cfg by (auto simp: reportError_def stream_config_def Let_def split: if_splits)
  moreover have "side_state b1 b2" using reportError_side [of b1 later ?err w1] rep by simp
  ultimately have "stream_state marshal ok log w2 b2 po1 k1 (xs @ concat arr) fs'" using side_stream [OF s1] by blast
  with s1 d(1) eq False rep show ?thesis by (cases "fin1 = Completed \<and> \<not> expired") (auto simp: finalDrain_def Let_def)
qed

lemma slippage_stream: "stream_state marshal ok log w b po k xs fs \<Longrightarrow> stream_state marshal ok log w (count_slippage el b) po k xs fs"
  by (simp add: stream_state_def) (simp add: count_slippage_def baseline_def)

abbreviation loop_stream :: "'a marshal \<Rightarrow> ('a, 's) loop_state \<Rightarrow> 'a list \<Rightarrow> frame_info list \<Rightarrow> bool" where
  "loop_stream marshal s \<equiv> stream_state marshal ok log (lworld s) (engine s) (prevOffset s) (keyframeN s)"

lemma step_stream:
  assumes cfg: "stream_config sink (cfg (engine s))" and st: "loop_stream marshal s xs fs"
    and eq: "runLoop_step marshal le e s = Ret s'"
  shows "\<exists>fs'. loop_stream marshal s' (xs @ pushed e) fs'"
proof (cases e)
  case (Produce x)
  then show ?thesis using pushes_stream [OF st, of "[x]"] eq by (auto simp: go_simps)
next
  case LateReturn
  have "side_state (engine s) ((engine s)\<lparr>flushInFlight := False\<rparr>)" by (simp add: side_state_def)
  from side_stream [OF st this, of "lworld s"] show ?thesis using eq LateReturn by auto
next
  case (Tick arr now el)
  show ?thesis
  proof (cases "status s = Running")
    case True
    obtain w' b' po' k' fin where d: "drainAndFlush marshal le arr now Background (lworld s) (engine s) (prevOffset s) (keyframeN s) =
        Ret (w', b', po', k', fin)" using eq Tick True by (auto simp: go_simps)
    obtain fs' where f: "stream_state marshal ok log w' b' po' k' (xs @ concat arr) fs'"
      using drain_stream [OF cfg st d] by blast
    with slippage_stream [OF f, of el] show ?thesis using eq Tick True d by (cases fin) auto
  next
    case False
    then show ?thesis using pushes_stream [OF st, of "concat arr"] eq Tick by (auto simp: go_simps)
  qed
next
  case (Cancel expired arr now later)
  show ?thesis
  proof (cases "status s = Running")
    case True
    then show ?thesis
      using eq Cancel finalDrain_stream [OF cfg st, of le expired arr now later] by (auto simp: go_simps)
  next
    case False
    then show ?thesis using pushes_stream [OF st, of "concat arr"] eq Cancel by (auto simp: go_simps)
  qed
qed

lemma run_stream:
  assumes "stream_config sink (cfg (engine s))" and "loop_stream marshal s xs fs" and "runLoop marshal le es s = Ret s'"
  shows "\<exists>fs'. loop_stream marshal s' (xs @ concat (map pushed es)) fs'"
  using assms
proof (induction es arbitrary: s xs fs)
  case Nil
  then show ?case by auto
next
  case (Cons e es)
  obtain s1 where s1: "runLoop_step marshal le e s = Ret s1" "runLoop marshal le es s1 = Ret s'"
    using Cons.prems(3) by (auto simp: go_simps)
  have "loop_inv s" using Cons.prems(2) by (simp add: loop_inv_def stream_state_def)
  then have "cfg (engine s1) = cfg (engine s)" using runLoop_step_ok [of s marshal le e] s1(1) by auto
  moreover obtain fs1 where "loop_stream marshal s1 (xs @ pushed e) fs1"
    using step_stream [OF Cons.prems(1,2) s1(1)] by blast
  ultimately show ?case using Cons.IH [of s1] Cons.prems(1) s1(2) by fastforce
qed

text \<open>A fresh engine over a link that has delivered nothing.\<close>

lemma stream_from_New:
  assumes new: "New zero sizeofT c = Ret (Inr b)" "QueueSize c \<noteq> 1" and cfg: "stream_config sink c"
    and w: "ok (env w)" "log (env w) = []"
  shows "\<exists>s fs. runLoop marshal le es (runLoop_start w b) = Ret s \<and> loop_stream marshal s (concat (map pushed es)) fs \<and>
    cfg (engine s) = effective sizeofT c \<and>
    (lossless c \<longrightarrow> balance (engine s) = of_nat (length (concat (map pushed es))))"
proof -
  note st = start_inv(1) [OF new, of w] start_inv(2-4) [OF new]
  have acc: "accepted (effective sizeofT c)" using new(1) New_cases [of sizeofT c zero] by (auto split: if_splits)
  have b: "flushedBatches b = 0" "flushedItems b = 0" "DeltaEncoding c \<longrightarrow> previousState b = make_bytes (MaxBatchSize c)"
    using New_inv [OF acc new(2), of zero] new(1) by auto
  have cfg': "stream_config sink (cfg b)" using cfg st(3) by (simp add: stream_config_def effective_def)
  have "loop_stream marshal (runLoop_start w b) [] []"
    using st b w by (auto simp: stream_state_def runLoop_start_def loop_inv_def carries_def baseline_def zext_def make_bytes_def
        intro: exI [of _ "[]"])
  moreover have "lossless c = lossless (cfg b)" using st(3) by (simp add: lossless_def effective_def)
  then obtain s where "runLoop marshal le es (runLoop_start w b) = Ret s" "cfg (engine s) = cfg b"
    "lossless c \<longrightarrow> balance (engine s) = of_nat (length (concat (map pushed es)))"
    using runLoop_ok [OF st(1), of marshal le es] st(2) by (auto simp: runLoop_start_def)
  ultimately show ?thesis
    using run_stream [of "runLoop_start w b" marshal "[]" "[]" le es s] cfg' st(3) by (auto simp: runLoop_start_def)
qed

end

text \<open>
  \<open>delivered_items enc b yss xs\<close>: the batches \<open>yss\<close> account for \<^verbatim>\<open>FlushedItems\<close>; they and then the queue are a
  subsequence of the pushed items \<open>xs\<close>; and they are all of them when no loss counter moved and
  no batch can fail.
\<close>

definition delivered_items :: "('a, 's) Batcher \<Rightarrow> 'a list list \<Rightarrow> 'a list \<Rightarrow> bool" where
  "delivered_items b yss xs \<longleftrightarrow> FlushedItems b = of_nat (length (concat yss)) \<and>
     subseq (concat yss @ items (ring b)) xs \<and>
     (lossless (cfg b) \<and> DroppedCount b = 0 \<and> EvictedCount b = 0 \<and> TruncatedCount b = 0 \<and> length xs < 2 ^ 64 \<longrightarrow>
        concat yss @ items (ring b) = xs)"

lemma stream_items:
  assumes st: "stream_state marshal ok log w b po k xs fs" and ser: "serializable marshal enc (MaxItemSize (cfg b))"
    and bal: "lossless (cfg b) \<longrightarrow> balance b = of_nat (length xs)"
  shows "\<exists>yss. carries enc fs yss \<and> delivered_items b yss xs"
proof -
  obtain yss where y: "carries enc fs yss" "subseq (concat yss @ items (ring b)) xs"
    using st ser unfolding stream_state_def by blast
  have n: "flushedItems b = of_nat (length (concat yss))"
    using st carries_bodies [OF y(1)] by (simp add: stream_state_def)
  have "concat yss @ items (ring b) = xs"
    if "lossless (cfg b)" "DroppedCount b = 0" "EvictedCount b = 0" "TruncatedCount b = 0" "length xs < 2 ^ 64"
  proof (rule subseq_same_length [OF y(2)])
    let ?n = "length (concat yss @ items (ring b))"
    have le: "?n \<le> length xs" using y(2) by (rule list_emb_length)
    have "(of_nat ?n :: u64) = of_nat (length xs)"
      using bal that n by (simp add: balance_def DroppedCount_def EvictedCount_def TruncatedCount_def add.commute)
    then have "unat (of_nat ?n :: u64) = unat (of_nat (length xs) :: u64)" by simp
    then show "?n = length xs" using le that(5) by (simp add: unat_of_nat del: length_append)
  qed
  with y n show ?thesis by (auto simp: delivered_items_def FlushedItems_def)
qed

section \<open>Properties\<close>

text \<open>When the receiver's keyframe test cannot be fooled by what was delivered.\<close>

definition decodable :: "'s Config \<Rightarrow> bytes list \<Rightarrow> bool" where
  "decodable c ps \<longleftrightarrow> KeyframeInterval c \<in> {0, 1} \<or> unambiguous (interval c) 0 ps"

lemma decodable_transmit:
  "decodable c (transmit True (interval c) [] 0 fs) \<Longrightarrow> unambiguous (interval c) 0 (transmit True (interval c) [] 0 fs)"
  using unambiguous_never [of "[]"] unambiguous_always by (auto simp: decodable_def)

text \<open>
  C1: sender and receiver stay in sync. Take an engine with delta encoding and any keyframe
  interval, without compressor and error callback, over a link that hands over exactly the payloads whose flush
  returned nil in time, and any schedule of pushes (also during the drains), ticks, failing,
  stalling and late flushes and shutdown, and any \<^verbatim>\<open>Marshal\<close>. A \<^verbatim>\<open>DeltaReconstructor\<close> that
  starts from its zero value and gets what the link delivered reconstructs every frame
  without an error, its baseline is exactly the sender's, and it has read \<^verbatim>\<open>FlushedBatches\<close> frames. If
  \<^verbatim>\<open>Marshal\<close> keeps its contract, their bodies and counts are those of batches of items, \<^verbatim>\<open>FlushedItems\<close> in
  all, and these items and then the queued ones are a subsequence of the pushed ones: nothing is
  invented, duplicated or reordered; and they are all the pushed items when no loss counter
  moved and the sink never fails. For intervals above one the delivered bytes must not
  contain a delta that passes for a keyframe.
\<close>

theorem delta_stream_in_sync:
  assumes "reliable_link sink ok log" and "New zero sizeofT c = Ret (Inr b)" and "QueueSize c \<noteq> 1"
    and "stream_config sink c" and "DeltaEncoding c" and "ok (env w)" and "log (env w) = []"
  shows "\<exists>s. runLoop marshal le es (runLoop_start w b) = Ret s \<and>
    (decodable c (log (env (lworld s))) \<longrightarrow>
      (\<exists>d rs. receive \<lparr>prev = []\<rparr> (log (env (lworld s))) = (d, map Inr rs) \<and>
        baseline (engine s) (prevOffset s) (prev d) \<and> FlushedBatches (engine s) = of_nat (length rs) \<and>
        (serializable marshal enc (MaxItemSize (cfg b)) \<longrightarrow>
          (\<exists>yss. map (\<lambda>(raw, h). (drop 8 raw, Count h)) rs = map (\<lambda>ys. (concat (map enc ys), of_nat (length ys))) yss \<and>
             delivered_items (engine s) yss (concat (map pushed es))))))"
proof -
  have cfg: "cfg b = effective sizeofT c" using start_inv(3) [OF assms(2,3)] .
  obtain s fs where s: "runLoop marshal le es (runLoop_start w b) = Ret s"
    and st: "stream_state marshal ok log (lworld s) (engine s) (prevOffset s) (keyframeN s) (concat (map pushed es)) fs"
    and c: "cfg (engine s) = effective sizeofT c"
    and bal: "lossless (cfg (engine s)) \<longrightarrow> balance (engine s) = of_nat (length (concat (map pushed es)))"
    using reliable_link.stream_from_New [OF assms(1-4,6,7)] lossless_effective by metis
  have K: "interval (cfg (engine s)) = interval c" "DeltaEncoding (cfg (engine s))"
    using c assms(5) by (simp_all add: effective_def)
  have log: "log (env (lworld s)) = transmit True (interval c) [] 0 fs" using st K by (simp add: stream_state_def)
  let ?rs = "originals True (interval c) 0 fs" and ?d = "\<lparr>prev = last_frame True (interval c) [] 0 fs\<rparr>"
  have rec: "receive \<lparr>prev = []\<rparr> (log (env (lworld s))) = (?d, map Inr ?rs)" if "decodable c (log (env (lworld s)))"
    using receive_from_start decodable_transmit that unfolding log by blast
  have "\<exists>yss. map (\<lambda>(raw, h). (drop 8 raw, Count h)) ?rs = map (\<lambda>ys. (concat (map enc ys), of_nat (length ys))) yss \<and>
      delivered_items (engine s) yss (concat (map pushed es))"
    if "serializable marshal enc (MaxItemSize (cfg b))"
    using stream_items [OF st, of enc] originals_carry that bal c cfg by fastforce
  with s rec st K show ?thesis by (fastforce simp: stream_state_def FlushedBatches_def)
qed

text \<open>Delta encoding over TCP, with a keyframe interval \<open>ki\<close>.\<close>

definition tcp_config :: "u32 \<Rightarrow> bytes Config" where
  "tcp_config ki = \<lparr>Sink = Some (TCPSink buffer_conn), Compressor = None, OnFlushError = None, QueueSize = 4,
     MaxBatchSize = 10, MaxItemSize = 1, TickRate = 60, Backpressure = DropOldest, ShutdownTimeout = 0,
     FlushTimeout = 0, DeltaEncoding = True, KeyframeInterval = ki\<rparr>"

lemma tcp_batcher: "\<exists>b. New (0::byte) 1 (tcp_config i) = Ret (Inr b) \<and> cfg b = tcp_config i"
proof -
  have "accepted (effective 1 (tcp_config i))" "QueueSize (tcp_config i) \<noteq> 1" "effective 1 (tcp_config i) = tcp_config i"
    by (simp_all add: accepted_def effective_def tcp_config_def is_pow2_def wrap64_def TCPSink_def)
  with New_inv [of 1 "tcp_config i" "0::byte"] show ?thesis by auto
qed

lemma tcp_stream_config: "stream_config (TCPSink buffer_conn) (tcp_config i)" "QueueSize (tcp_config i) \<noteq> 1"
  "DeltaEncoding (tcp_config i)" "buffer.framed []" "fst (split_frames []) = []"
  by (simp_all add: stream_config_def tcp_config_def buffer.framed_def split_frames.simps exI [of _ "[]"])

theorem delta_stream_in_sync_witness:
  "\<exists>b s d rs yss. New (0::byte) 1 (tcp_config 0) = Ret (Inr b) \<and>
     runLoop byte_marshal True [Produce 7, Tick [[8], [9]] 5 1, Produce 1, Cancel False [] 7 7]
       (runLoop_start \<lparr>env = [], slog = []\<rparr> b) = Ret s \<and>
     receive \<lparr>prev = []\<rparr> (fst (split_frames (env (lworld s)))) = (d, map Inr rs) \<and>
     map (drop 8 \<circ> fst) rs = yss \<and> delivered_items (engine s) yss [7, 8, 9, 1]"
proof -
  obtain b where b: "New (0::byte) 1 (tcp_config 0) = Ret (Inr b)" "cfg b = tcp_config 0" using tcp_batcher by blast
  have ser: "serializable byte_marshal (\<lambda>x. [x]) (MaxItemSize (cfg b))"
    using serializable_byte b(2) by (simp add: tcp_config_def)
  have dec: "decodable (tcp_config 0) ps" for ps by (simp add: decodable_def tcp_config_def)
  have ok: "buffer.framed (env \<lparr>env = [], slog = []\<rparr>)" "fst (split_frames (env \<lparr>env = [], slog = []\<rparr>)) = []"
    using tcp_stream_config by simp_all
  obtain s d rs yss where "runLoop byte_marshal True [Produce 7, Tick [[8], [9]] 5 1, Produce 1, Cancel False [] 7 7]
       (runLoop_start \<lparr>env = [], slog = []\<rparr> b) = Ret s"
    "receive \<lparr>prev = []\<rparr> (fst (split_frames (env (lworld s)))) = (d, map Inr rs)"
    and y: "map (\<lambda>(raw, h). (drop 8 raw, Count h)) rs = map (\<lambda>ys. (concat (map (\<lambda>x. [x]) ys), of_nat (length ys))) yss"
    "delivered_items (engine s) yss [7, 8, 9, 1]"
    using delta_stream_in_sync [OF buffer.tcp.reliable_link_axioms b(1) tcp_stream_config(2,1,3) ok, of byte_marshal True
        "[Produce 7, Tick [[8], [9]] 5 1, Produce 1, Cancel False [] 7 7]" "\<lambda>x. [x]"] ser dec by auto
  moreover have "map (drop 8 \<circ> fst) rs = map fst (map (\<lambda>(raw, h). (drop 8 raw, Count h)) rs)" by (simp add: split_def)
  then have "map (drop 8 \<circ> fst) rs = yss" unfolding y(1) by (simp add: comp_def)
  ultimately show ?thesis using b(1) by blast
qed

text \<open>
  C17: keyframes bound the damage. However a receiver got out of step (a lost or corrupt frame, a
  delta taken for a keyframe, joining late), once it starts at any keyframe of the stream it
  reconstructs every frame from there on exactly, and ends with the sender's baseline, as long
  as no later delta passes for a keyframe. \<open>rs\<close> are the frames as they were sent.
\<close>

theorem keyframe_heals:
  assumes "reliable_link sink ok log" and "New zero sizeofT c = Ret (Inr b)" and "QueueSize c \<noteq> 1"
    and "stream_config sink c" and "DeltaEncoding c" and "0 < KeyframeInterval c" and "ok (env w)" and "log (env w) = []"
  shows "\<exists>s rs. runLoop marshal le es (runLoop_start w b) = Ret s \<and> length rs = length (log (env (lworld s))) \<and>
    FlushedBatches (engine s) = of_nat (length rs) \<and>
    (\<forall>(raw, h) \<in> set rs. Decode raw = Inr (h, drop 8 raw)) \<and>
    (\<forall>d j. j < length rs \<longrightarrow> j mod unat (KeyframeInterval c) = 0 \<longrightarrow>
       unambiguous (unat (KeyframeInterval c)) j (drop j (log (env (lworld s)))) \<longrightarrow>
       (\<exists>d'. receive d (drop j (log (env (lworld s)))) = (d', map Inr (drop j rs)) \<and>
          baseline (engine s) (prevOffset s) (prev d')))"
proof -
  obtain s fs where s: "runLoop marshal le es (runLoop_start w b) = Ret s"
    and st: "stream_state marshal ok log (lworld s) (engine s) (prevOffset s) (keyframeN s) (concat (map pushed es)) fs"
    and c: "cfg (engine s) = effective sizeofT c"
    using reliable_link.stream_from_New [OF assms(1-4,7,8)] by blast
  have K: "interval (cfg (engine s)) = interval c" "DeltaEncoding (cfg (engine s))" "0 < interval c"
    using c assms(5,6) by (simp_all add: effective_def word_less_nat_alt)
  let ?rs = "originals True (interval c) 0 fs" and ?d = "\<lparr>prev = last_frame True (interval c) [] 0 fs\<rparr>"
  have log: "log (env (lworld s)) = transmit True (interval c) [] 0 fs"
    and base: "baseline (engine s) (prevOffset s) (prev ?d)"
    and cnt: "FlushedBatches (engine s) = of_nat (length ?rs)"
    using st K by (simp_all add: stream_state_def FlushedBatches_def)
  have "receive d (drop j (log (env (lworld s)))) = (?d, map Inr (drop j ?rs))"
    if "j < length ?rs" "j mod interval c = 0" "unambiguous (interval c) j (drop j (log (env (lworld s))))" for d j
    using receive_from_keyframe [of "interval c" j fs d] that K(3) log by (simp add: key_at_def)
  moreover have "\<forall>(raw, h) \<in> set ?rs. Decode raw = Inr (h, drop 8 raw)"
    using originals_decode [of True "interval c" 0 fs] by (simp add: headerSize_def)
  ultimately show ?thesis using s base cnt log by (intro exI [of _ s] exI [of _ ?rs]) auto
qed

text \<open>Three flushes with keyframe interval 2, the third of them a keyframe.\<close>

lemma recorded_round:
  assumes "loop_inv s" and "status s = Running" and "cfg (engine s) = delta_config 2"
    and "Err (env (lworld s)) = None" and "length (payloads (env (lworld s))) = n"
  shows "\<exists>s'. runLoop byte_marshal True (Produce x # Tick [] now el # es) s = runLoop byte_marshal True es s' \<and> loop_inv s' \<and>
    status s' = Running \<and> cfg (engine s') = delta_config 2 \<and> Err (env (lworld s')) = None \<and> length (payloads (env (lworld s'))) = Suc n"
proof -
  obtain r d where p: "runLoop_step byte_marshal True (Produce x) s = Ret (s\<lparr>engine := (engine s)\<lparr>ring := r, dropped := d\<rparr>\<rparr>)"
    "loop_inv (s\<lparr>engine := (engine s)\<lparr>ring := r, dropped := d\<rparr>\<rparr>)" "items r \<noteq> []"
    using produce_queues [OF assms(1)] by blast
  let ?P = "\<lambda>v. Err v = None \<and> length (payloads v) = Suc n"
  have "\<exists>v. Flush ReliableRecordingSink Background q (env (lworld s)) = (v, Returns None) \<and> ?P v" for q
    using assms(4,5) by (simp add: ReliableRecordingSink_def RecordingSink_Flush_eq)
  then have "\<exists>s'. runLoop_step byte_marshal True (Tick [] now el) (s\<lparr>engine := (engine s)\<lparr>ring := r, dropped := d\<rparr>\<rparr>) = Ret s' \<and>
      loop_inv s' \<and> status s' = Running \<and> cfg (engine s') = delta_config 2 \<and> ?P (env (lworld s'))"
    using p(2,3) assms(2,3) serializable_byte
    by (intro tick_flushes [where sink = ReliableRecordingSink and enc = "\<lambda>x. [x]"]) (simp_all add: delta_config_def)
  then show ?thesis using p(1) by auto
qed

theorem keyframe_heals_witness:
  "\<exists>b s raw h d'. New (0::byte) 1 (delta_config 2) = Ret (Inr b) \<and>
     runLoop byte_marshal True [Produce 7, Tick [] 1 1, Produce 8, Tick [] 2 1, Produce 9, Tick [] 3 1]
       (runLoop_start \<lparr>env = \<lparr>Err = None, payloads = []\<rparr>, slog = []\<rparr> b) = Ret s \<and>
     length (payloads (env (lworld s))) = 3 \<and> Decode raw = Inr (h, drop 8 raw) \<and>
     receive \<lparr>prev = [42]\<rparr> (drop 2 (payloads (env (lworld s)))) = (d', [Inr (raw, h)]) \<and>
     baseline (engine s) (prevOffset s) (prev d')"
proof -
  let ?es = "[Produce 7, Tick [] 1 1, Produce 8, Tick [] 2 1, Produce 9, Tick [] 3 1] :: byte event list"
  let ?w = "\<lparr>env = \<lparr>Err = None, payloads = []\<rparr>, slog = []\<rparr>"
  obtain b where b: "New (0::byte) 1 (delta_config 2) = Ret (Inr b)" "cfg b = delta_config 2" using delta_batcher by blast
  have c: "QueueSize (delta_config 2) \<noteq> 1" "stream_config ReliableRecordingSink (delta_config 2)" "DeltaEncoding (delta_config 2)"
    "0 < KeyframeInterval (delta_config 2)" "unat (KeyframeInterval (delta_config 2)) = 2"
    by (simp_all add: delta_config_def stream_config_def)
  obtain s1 where s1: "runLoop byte_marshal True ?es (runLoop_start ?w b) = runLoop byte_marshal True (drop 2 ?es) s1" "loop_inv s1"
    "status s1 = Running" "cfg (engine s1) = delta_config 2" "Err (env (lworld s1)) = None" "length (payloads (env (lworld s1))) = 1"
    using recorded_round [OF start_inv(1) [OF b(1) c(1)], of ?w 0 7 1 1 "drop 2 ?es"] b(2)
    by (auto simp: runLoop_start_def simp del: runLoop_step.simps runLoop.simps(2))
  obtain s2 where s2: "runLoop byte_marshal True (drop 2 ?es) s1 = runLoop byte_marshal True (drop 4 ?es) s2" "loop_inv s2"
    "status s2 = Running" "cfg (engine s2) = delta_config 2" "Err (env (lworld s2)) = None" "length (payloads (env (lworld s2))) = 2"
    using recorded_round [OF s1(2-6), of 8 2 1 "drop 4 ?es"] by (auto simp del: runLoop_step.simps runLoop.simps(2))
  obtain s3 where s3: "runLoop byte_marshal True (drop 4 ?es) s2 = Ret s3" "length (payloads (env (lworld s3))) = 3"
    using recorded_round [OF s2(2-6), of 9 3 1 "[]"] by (auto simp del: runLoop_step.simps runLoop.simps(2))
  obtain s rs where s: "runLoop byte_marshal True ?es (runLoop_start ?w b) = Ret s" "length rs = length (payloads (env (lworld s)))"
    and dec: "\<forall>(raw, h) \<in> set rs. Decode raw = Inr (h, drop 8 raw)"
    and j: "\<forall>d j. j < length rs \<longrightarrow> j mod 2 = 0 \<longrightarrow> unambiguous 2 j (drop j (payloads (env (lworld s)))) \<longrightarrow>
       (\<exists>d'. receive d (drop j (payloads (env (lworld s)))) = (d', map Inr (drop j rs)) \<and> baseline (engine s) (prevOffset s) (prev d'))"
    using keyframe_heals [OF recording_link.reliable_link_axioms b(1) c(1-4), of ?w byte_marshal True ?es] unfolding c(5) by auto
  have three: "length rs = 3" using s s1(1) s2(1) s3 by simp
  then obtain raw h where rs: "drop 2 rs = [(raw, h)]" by (auto simp: numeral_3_eq_3 length_Suc_conv)
  then have "(raw, h) \<in> set rs" by (metis in_set_dropD list.set_intros(1))
  moreover have "unambiguous 2 2 (drop 2 (payloads (env (lworld s))))" using three s(2) by (simp add: unambiguous_def key_at_def)
  then obtain d' where "receive \<lparr>prev = [42]\<rparr> (drop 2 (payloads (env (lworld s)))) = (d', [Inr (raw, h)])"
    "baseline (engine s) (prevOffset s) (prev d')" using j [rule_format, of 2 "\<lparr>prev = [42]\<rparr>"] three rs by auto
  ultimately show ?thesis using b(1) s three dec by auto
qed

text \<open>
  C18: delivery without delta encoding. Over the same links and schedules, \<^verbatim>\<open>Decode\<close> accepts every delivered
  payload, and the bodies and counts it returns are those of batches of items that, followed by the
  queue, are a subsequence of the pushed ones, and all of them when no loss counter moved and
  the sink never fails.
\<close>

theorem plain_stream_delivery:
  assumes "reliable_link sink ok log" and "New zero sizeofT c = Ret (Inr b)" and "QueueSize c \<noteq> 1"
    and "stream_config sink c" and "\<not> DeltaEncoding c" and "ok (env w)" and "log (env w) = []"
    and "serializable marshal enc (MaxItemSize (cfg b))"
  shows "\<exists>s hs yss. runLoop marshal le es (runLoop_start w b) = Ret s \<and>
    map Decode (log (env (lworld s))) = map Inr hs \<and> FlushedBatches (engine s) = of_nat (length hs) \<and>
    map (\<lambda>(h, body). (body, Count h)) hs = map (\<lambda>ys. (concat (map enc ys), of_nat (length ys))) yss \<and>
    delivered_items (engine s) yss (concat (map pushed es))"
proof -
  obtain s fs where s: "runLoop marshal le es (runLoop_start w b) = Ret s"
    and st: "stream_state marshal ok log (lworld s) (engine s) (prevOffset s) (keyframeN s) (concat (map pushed es)) fs"
    and c: "cfg (engine s) = effective sizeofT c"
    and bal: "lossless (cfg (engine s)) \<longrightarrow> balance (engine s) = of_nat (length (concat (map pushed es)))"
    using reliable_link.stream_from_New [OF assms(1-4,6,7)] lossless_effective by metis
  have "MaxItemSize (cfg b) = MaxItemSize (cfg (engine s))" using start_inv(3) [OF assms(2,3)] c by simp
  then obtain yss where y: "carries enc fs yss" "delivered_items (engine s) yss (concat (map pushed es))"
    using stream_items [OF st _ bal, of enc] assms(8) by auto
  let ?hs = "map (\<lambda>f. (header_at False (interval c) 0 f, snd (snd f))) fs"
  have "log (env (lworld s)) = map (frame_at False (interval c) 0) fs"
    using st c assms(5) by (simp add: stream_state_def transmit_raw) (simp add: effective_def)
  then have "map Decode (log (env (lworld s))) = map Inr ?hs" by (simp add: Decode_frame_at)
  moreover have "map (\<lambda>(h, body). (body, Count h)) ?hs = map (\<lambda>(n, body). (body, of_nat n)) (map snd fs)"
    by (simp add: header_at_def split_def)
  then have "map (\<lambda>(h, body). (body, Count h)) ?hs = map (\<lambda>ys. (concat (map enc ys), of_nat (length ys))) yss"
    unfolding y(1) [unfolded carries_def] by simp
  moreover have "FlushedBatches (engine s) = of_nat (length ?hs)" using st by (simp add: stream_state_def FlushedBatches_def)
  ultimately show ?thesis using s y(2) by blast
qed

theorem plain_stream_delivery_witness:
  "\<exists>b s hs yss. New (0::byte) 1 ((tcp_config 0)\<lparr>DeltaEncoding := False\<rparr>) = Ret (Inr b) \<and>
     runLoop byte_marshal True [Produce 7, Tick [[8], [9]] 5 1, Produce 1, Cancel False [] 7 7]
       (runLoop_start \<lparr>env = [], slog = []\<rparr> b) = Ret s \<and>
     map Decode (fst (split_frames (env (lworld s)))) = map Inr hs \<and> delivered_items (engine s) yss [7, 8, 9, 1]"
proof -
  let ?c = "(tcp_config 0)\<lparr>DeltaEncoding := False\<rparr>"
  have acc: "accepted (effective 1 ?c)" "QueueSize ?c \<noteq> 1" "\<not> DeltaEncoding ?c" "stream_config (TCPSink buffer_conn) ?c"
    by (simp_all add: accepted_def effective_def tcp_config_def is_pow2_def wrap64_def stream_config_def)
  obtain b where b: "New (0::byte) 1 ?c = Ret (Inr b)" "cfg b = effective 1 ?c" using New_inv [OF acc(1,2), of "0::byte"] by blast
  have ser: "serializable byte_marshal (\<lambda>x. [x]) (MaxItemSize (cfg b))"
    using serializable_byte b(2) by (simp add: tcp_config_def effective_def)
  have ok: "buffer.framed (env \<lparr>env = [], slog = []\<rparr>)" "fst (split_frames (env \<lparr>env = [], slog = []\<rparr>)) = []"
    using tcp_stream_config by simp_all
  from plain_stream_delivery [OF buffer.tcp.reliable_link_axioms b(1) acc(2,4,3) ok ser, of True
      "[Produce 7, Tick [[8], [9]] 5 1, Produce 1, Cancel False [] 7 7]"] b(1)
  show ?thesis by auto
qed

end
