(* ===== verification/Late_Delivery.thy ===== *)
theory Late_Delivery
  imports Engine_Run Wire_Stream
begin

text \<open>
  A flush that times out and is delivered all the same: \<^verbatim>\<open>flushWithTimeout\<close> (\<^verbatim>\<open>batcher.go\<close>) gives up
  waiting, the abandoned goroutine completes its \<^verbatim>\<open>Sink.Flush\<close>, and the receiver gets a frame
  that the sender counts as failed. For a \<^verbatim>\<open>ReliableSink\<close> that is legitimate: a nil error promises
  delivery, an error does not promise the contrary. Flushes are serialised by \<^verbatim>\<open>flushInFlight\<close>, so that
  the late effect of a stalled call may be taken at the call itself.
\<close>

text \<open>A reliable sink over the list of payloads received and the calls that will be late.\<close>

definition late_sink :: "(bytes list \<times> bool list) sink_ops" where
  "late_sink = \<lparr>Flush = (\<lambda>_ p (log, late).
       ((log @ [p], tl late), if late \<noteq> [] \<and> hd late then Stalls else Returns None)), Reliable = True\<rparr>"

definition late_config :: "(bytes list \<times> bool list) Config" where
  "late_config = \<lparr>Sink = Some late_sink, Compressor = None, OnFlushError = None, QueueSize = 4,
     MaxBatchSize = 16, MaxItemSize = 1, TickRate = 60, Backpressure = DropNewest, ShutdownTimeout = 0,
     FlushTimeout = 5, DeltaEncoding = True, KeyframeInterval = 0\<rparr>"

text \<open>
  Three items on three ticks; the first flush returns after its deadline, before the next tick.
\<close>

definition late_events :: "byte event list" where
  "late_events = [Produce 7, Tick [] 1 1, LateReturn, Produce 9, Tick [] 2 1, Produce 9, Tick [] 3 1]"

definition late_run :: "(byte, bytes list \<times> bool list) loop_state go" where
  "late_run = go_bind (New 0 1 late_config) (\<lambda>x. case x of
     Inl _ \<Rightarrow> Hangs
   | Inr b \<Rightarrow> runLoop byte_marshal True late_events (runLoop_start \<lparr>env = ([], [True]), slog = []\<rparr> b))"

section \<open>The run step by step\<close>

text \<open>A state of the loop: sequence number \<open>sq\<close>, sender's baseline \<open>prv\<close>, whether a flush is in flight,
  the counts of successful and failed flushes, the world and the queue.\<close>

definition late_state ::
  "u32 \<Rightarrow> bytes \<Rightarrow> bool \<Rightarrow> u64 \<Rightarrow> u64 \<Rightarrow> bytes list \<times> bool list \<Rightarrow> byte list \<Rightarrow>
   (byte, bytes list \<times> bool list) loop_state \<Rightarrow> bool" where
  "late_state sq prv fl good bad v q s \<longleftrightarrow>
     engine_inv (engine s) \<and> baseline (engine s) (prevOffset s) prv \<and> cfg (engine s) = late_config \<and>
     sequenceID (engine s) = sq \<and> flushInFlight (engine s) = fl \<and> flushedBatches (engine s) = good \<and>
     flushErrs (engine s) = bad \<and> env (lworld s) = v \<and> items (ring (engine s)) = q \<and> status s = Running"

lemma late_produce:
  assumes "late_state sq prv fl good bad v [] s"
  shows "\<exists>s'. runLoop_step m le (Produce x) s = Ret s' \<and> late_state sq prv fl good bad v [x] s'"
proof -
  let ?b = "engine s"
  have inv: "engine_inv ?b" using assms by (simp add: late_state_def)
  obtain r d where p: "Push ?b x = Ret (?b\<lparr>ring := r, dropped := d\<rparr>)" "flow ?b [x] [] r d"
    using flow_push [OF inv] by blast
  have "items r = [x]"
    using p(2) assms rq.nonzero [of "ring ?b"] inv length_items [of "ring ?b"]
    by (simp add: flow_def late_state_def engine_inv_def)
  with p flow_inv [OF inv p(2)] assms show ?thesis by (auto simp: late_state_def baseline_def)
qed

lemma late_return:
  assumes "late_state sq prv fl good bad v q s"
  shows "\<exists>s'. runLoop_step m le LateReturn s = Ret s' \<and> late_state sq prv False good bad v q s'"
  using assms by (auto simp: late_state_def baseline_def engine_inv_def buffers_ok_def Let_def)

definition late_frame :: "u32 \<Rightarrow> byte \<Rightarrow> bytes" where
  "late_frame sq x = mk_frame sq 1 (integrity_tag False [x]) [x]"

lemma late_deliver:
  assumes "cfg b = late_config" and "flushInFlight b = False" and "length (timeoutBuf b) = 16" and "length p \<le> 16"
    and "env w = (log, late)"
  shows "\<exists>w' b' res. deliver late_sink now ctx p w b = Ret (w', b', res) \<and> env w' = (log @ [p], tl late) \<and> side_state b b' \<and>
    (if late \<noteq> [] \<and> hd late then res = Failed \<and> flushInFlight b' \<and> flushErrs b' = flushErrs b + 1
     else res = Delivered (length p) \<and> \<not> flushInFlight b' \<and> flushErrs b' = flushErrs b)"
proof -
  have c: "Compressor late_config = None" "FlushTimeout late_config = 5" "OnFlushError late_config = None"
    by (simp_all add: late_config_def)
  have "take (length p) (go_copy (timeoutBuf b) p) = p" using assms(3,4) by (simp add: go_copy_def)
  then have sl: "go_slice (go_copy (timeoutBuf b) p) 0 (int (min 16 (length p))) = Ret p"
    using assms(3,4) by (simp add: go_slice_def min_absorb2)
  show ?thesis
    using assms c sl
    by (auto simp: deliver_def compress_payload_def flushWithTimeout_def Let_def late_sink_def reportError_def side_state_def)
qed

lemma late_config_simps [simp]:
  "MaxItemSize late_config = 1" "MaxBatchSize late_config = 16" "Sink late_config = Some late_sink" "DeltaEncoding late_config"
  "KeyframeInterval late_config = 0" "FlushTimeout late_config = 5" "tickInterval late_config = 16666666"
  by (simp_all add: late_config_def tickInterval_def)

lemma length_late_frame [simp]: "length (late_frame sq x) = 9"
  by (simp add: late_frame_def headerSize_def)

text \<open>What the drain of one queued item collects, and the payload it makes of it.\<close>

lemma late_collects:
  assumes st: "late_state sq prv fl good bad v [x] s"
  shows "\<exists>r d buf offset. collects byte_marshal [] (engine s) [x] r d buf offset 1 (truncated (engine s)) \<and> items r = [] \<and>
    late_frame (sq + 1) x = raw_frame (engine s) (keyframeN s) 1 (frame_body buf offset) \<and> length buf = 16 \<and> nat offset = 9"
proof -
  let ?b = "engine s"
  have inv: "engine_inv ?b" and c: "cfg ?b = late_config" and q: "items (ring ?b) = [x]" using st by (simp_all add: late_state_def)
  have sz: "length (byteBuffer ?b) = 16" using inv c by (simp add: engine_inv_def buffers_ok_def Let_def cfg_ok_def)
  obtain r d n buf offset where col: "collects byte_marshal [] ?b (take n [x]) r d buf offset n (truncated ?b)"
    "items r = drop n [x]" "0 < n" "n \<le> length [x]" "frame_body buf offset = concat (map (\<lambda>x. [x]) (take n [x]))"
    using collects_quiet [OF inv, of byte_marshal "\<lambda>x. [x]"] serializable_byte q c by auto
  then have n: "n = 1" by simp
  have raw: "late_frame (sq + 1) x = raw_frame ?b (keyframeN s) 1 (frame_body buf offset)"
    using st col(5) c by (simp add: raw_frame_def late_frame_def n sends_keyframe_def late_state_def)
  have "length buf = 16" "nat offset = 9"
    using collects_bounds(1-3) [OF inv col(1)] sz length_raw_frame [of offset buf ?b "keyframeN s" 1, folded raw] by simp_all
  with col n raw show ?thesis by fastforce
qed

lemma late_wire:
  assumes "late_state sq prv fl good bad v q s"
  shows "length (previousState (engine s)) = 16" and "length (timeoutBuf (engine s)) = 16"
    and "length f = 9 \<Longrightarrow> wire (engine s) k f = xor_list f (zext prv 9)"
proof -
  let ?b = "engine s"
  have inv: "engine_inv ?b" and base: "baseline ?b (prevOffset s) prv" and c: "cfg ?b = late_config"
    using assms by (simp_all add: late_state_def)
  have "length (byteBuffer ?b) = 16" using inv c by (simp add: engine_inv_def buffers_ok_def Let_def cfg_ok_def)
  then show ps: "length (previousState ?b) = 16" "length (timeoutBuf ?b) = 16" using engine_sizes(2,4) [OF inv] c by simp_all
  have "previousState ?b = zext prv 16" using base ps by (simp add: baseline_def)
  then have "take 9 (previousState ?b) = zext prv 9" using take_zext [of 9 16 prv] by simp
  then show "wire ?b k f = xor_list f (zext prv 9)" if "length f = 9"
    using c that by (simp add: wire_def sends_keyframe_def)
qed

lemma late_tick:
  assumes st: "late_state sq prv False good bad (log, late) [x] s"
  shows "\<exists>s'. runLoop_step byte_marshal le (Tick [] now 1) s = Ret s' \<and>
    (let f = late_frame (sq + 1) x; v = (log @ [xor_list f (zext prv 9)], tl late) in
     if late \<noteq> [] \<and> hd late then late_state (sq + 1) prv True good (bad + 1) v [] s'
     else late_state (sq + 1) f False (good + 1) bad v [] s')"
proof -
  let ?b = "engine s" and ?k = "keyframeN s" and ?f = "late_frame (sq + 1) x"
  have inv: "engine_inv ?b" and base: "baseline ?b (prevOffset s) prv" and c: "cfg ?b = late_config"
    and run: "status s = Running" using st by (simp_all add: late_state_def)
  obtain r d buf offset where col: "collects byte_marshal [] ?b [x] r d buf offset 1 (truncated ?b)" "items r = []"
    "?f = raw_frame ?b ?k 1 (frame_body buf offset)" "length buf = 16" "nat offset = 9" using late_collects [OF st] by blast
  let ?st = "stamped ?b r d (truncated ?b) (?f @ drop (nat offset) buf)"
  obtain db w' b2 res where db: "length db = length (deltaBuffer ?b)"
    and del: "deliver late_sink now Background (wire ?b ?k ?f) (lworld s) (?st db) = Ret (w', b2, res)" and side: "side_state (?st db) b2"
    and eq: "drainAndFlush byte_marshal le [] now Background (lworld s) ?b (prevOffset s) ?k =
      Ret (conclude now 1 ?f (prevOffset s) ?k (w', b2, res))"
    using drainAndFlush_send [OF inv base col(1) one_neq_zero _ col(3), where now = now and base = Background and w = "lworld s" and le = le]
      c late_config_simps(3) by metis
  have pre: "cfg (?st db) = late_config" "flushInFlight (?st db) = False" "length (timeoutBuf (?st db)) = 16"
    "length (wire ?b ?k ?f) \<le> 16" "env (lworld s) = (log, late)" "flushErrs (?st db) = bad"
    using st late_wire [OF st] by (simp_all add: stamped_def late_state_def)
  have dl: "env w' = (log @ [xor_list ?f (zext prv 9)], tl late) \<and>
    (if late \<noteq> [] \<and> hd late then res = Failed \<and> flushInFlight b2 \<and> flushErrs b2 = bad + 1
     else (\<exists>l. res = Delivered l) \<and> \<not> flushInFlight b2 \<and> flushErrs b2 = bad)"
    using late_deliver [OF pre(1-5), of now Background] del pre(6) late_wire(3) [OF st length_late_frame] by (auto split: if_splits)
  have fl: "flow ?b (concat []) [x] r d" using col(1) by (simp add: collects_def)
  have inv2: "engine_inv b2"
    by (rule engine_inv_side [OF inv fl _ db side]) (use col(4,5) collects_bounds(1) [OF inv col(1)] in simp)
  have same: "cfg b2 = late_config" "previousState b2 = previousState ?b" "sequenceID b2 = sq + 1" "flushedBatches b2 = good" "ring b2 = r"
    using side st by (simp_all add: side_state_def stamped_def late_state_def)
  have base2: "baseline b2 (prevOffset s) prv" using base same(2) by (simp add: baseline_def)
  have "baseline (after_success now 1 l ?f b2) (int (length ?f)) ?f" for l
    by (rule after_success_baseline) (use same late_wire(1) [OF st] in simp_all)
  with run eq dl inv2 same base2 col(2) after_success_inv [OF inv2] show ?thesis
    by (cases "late \<noteq> [] \<and> hd late") (auto simp: late_state_def count_slippage_def Let_def)
qed

lemma late_start:
  "\<exists>b. New 0 1 late_config = Ret (Inr b) \<and>
     late_state 0 [] False 0 0 ([], [True]) [] (runLoop_start \<lparr>env = ([], [True]), slog = []\<rparr> b)"
proof -
  have acc: "accepted (effective 1 late_config)" "QueueSize late_config \<noteq> 1"
    by (simp_all add: accepted_def effective_def late_config_def is_pow2_def wrap64_def late_sink_def)
  obtain b :: "(byte, bytes list \<times> bool list) Batcher" where
    "New 0 1 late_config = Ret (Inr b)" "cfg b = effective 1 late_config" "engine_inv b" "items (ring b) = []"
    "DeltaEncoding late_config \<longrightarrow> previousState b = make_bytes (MaxBatchSize late_config)"
    "sequenceID b = 0" "flushErrs b = 0" "flushedBatches b = 0" "flushInFlight b = False"
    using New_inv [OF acc, of 0] by blast
  then show ?thesis
    by (auto simp: late_state_def runLoop_start_def baseline_def zext_def make_bytes_def effective_def late_config_def)
qed

section \<open>The desynchronisation\<close>

text \<open>What is on the wire: the first and second frame against the zero baseline, the third
  against the second.\<close>

definition late_log :: "bytes list" where
  "late_log = [late_frame 1 7, late_frame 2 9, xor_list (late_frame 3 9) (late_frame 2 9)]"

lemma late_run_log:
  "\<exists>s. late_run = Ret s \<and> FlushedBatches (engine s) = 2 \<and> FlushErrorCount (engine s) = 1 \<and> fst (env (lworld s)) = late_log"
proof -
  obtain b where b: "New 0 1 late_config = Ret (Inr b)"
    "late_state 0 [] False 0 0 ([], [True]) [] (runLoop_start \<lparr>env = ([], [True]), slog = []\<rparr> b)"
    using late_start by blast
  let ?step = "runLoop_step byte_marshal True"
  have z: "xor_list (late_frame q x) (zext [] 9) = late_frame q x" for q x
    by (simp add: late_frame_def zext_def mk_frame_def xor_list_def put_uint32_def put_uint16_def zip_replicate2 eval_nat_numeral)
  have l: "zext (late_frame q x) 9 = late_frame q x" for q x
    by (simp add: late_frame_def zext_def headerSize_def)
  obtain s1 where s1: "?step (Produce 7) (runLoop_start \<lparr>env = ([], [True]), slog = []\<rparr> b) = Ret s1"
    "late_state 0 [] False 0 0 ([], [True]) [7] s1" using late_produce [OF b(2)] by blast
  obtain s2 where s2: "?step (Tick [] 1 1) s1 = Ret s2" "late_state 1 [] True 0 1 ([late_frame 1 7], []) [] s2"
    using late_tick [OF s1(2), of True 1] z by (auto simp: Let_def simp del: runLoop_step.simps)
  obtain s3 where s3: "?step LateReturn s2 = Ret s3" "late_state 1 [] False 0 1 ([late_frame 1 7], []) [] s3"
    using late_return [OF s2(2)] by blast
  obtain s4 where s4: "?step (Produce 9) s3 = Ret s4" "late_state 1 [] False 0 1 ([late_frame 1 7], []) [9] s4"
    using late_produce [OF s3(2)] by blast
  obtain s5 where s5: "?step (Tick [] 2 1) s4 = Ret s5"
    "late_state 2 (late_frame 2 9) False 1 1 ([late_frame 1 7, late_frame 2 9], []) [] s5"
    using late_tick [OF s4(2), of True 2] z by (auto simp: Let_def simp del: runLoop_step.simps)
  obtain s6 where s6: "?step (Produce 9) s5 = Ret s6"
    "late_state 2 (late_frame 2 9) False 1 1 ([late_frame 1 7, late_frame 2 9], []) [9] s6"
    using late_produce [OF s5(2)] by blast
  obtain s7 where s7: "?step (Tick [] 3 1) s6 = Ret s7" "late_state 3 (late_frame 3 9) False 2 1 (late_log, []) [] s7"
    using late_tick [OF s6(2), of True 3] l by (auto simp: late_log_def Let_def simp del: runLoop_step.simps)
  have "late_run = Ret s7"
    using b(1) s1(1) s2(1) s3(1) s4(1) s5(1) s6(1) s7(1) by (simp add: late_run_def late_events_def)
  with s7(2) show ?thesis by (auto simp: late_state_def FlushedBatches_def FlushErrorCount_def)
qed

text \<open>
  C34: a late delivery desynchronises the delta stream. Over a reliable sink whose first flush
  arrives after its timeout, the sender keeps the old baseline while the receiver has advanced:
  the receiver rejects the second frame, and takes the third one, which carries item 9, for a valid
  frame with item 7. The sender meanwhile counts two successful flushes and no error but the
  first timeout.
\<close>

theorem late_delivery_desync:
  "\<exists>s. late_run = Ret s \<and> FlushedBatches (engine s) = 2 \<and> FlushErrorCount (engine s) = 1 \<and>
     map (map_sum (\<lambda>e. e) fst) (snd (receive \<lparr>prev = []\<rparr> (fst (env (lworld s))))) =
       [Inr (late_frame 1 7), Inl ErrCRCMismatch, Inr (late_frame 0 7)]"
proof -
  have "map (map_sum (\<lambda>e. e) fst) (snd (receive \<lparr>prev = []\<rparr> late_log)) =
       [Inr (late_frame 1 7), Inl ErrCRCMismatch, Inr (late_frame 0 7)]"
    by code_simp
  with late_run_log show ?thesis by auto
qed

end
