(* ===== verification/Risk_Event.thy ===== *)
theory Risk_Event
  imports Engine_Drain Xor_Encode Sinks
begin

unbundle bit_operations_syntax

text \<open>
  The item type of \<^verbatim>\<open>examples/telemetry_ingest/main.go\<close> and its configuration: the one
  \<^verbatim>\<open>Serializable\<close> implementation outside the tests. Floating-point fields are their 64-bit
  patterns; the memory image of the struct has no compiler padding (the offsets are multiples
  of the field sizes) and the blank trailing field is zero.
\<close>

record RiskEvent =
  InstrumentID :: u32
  SequenceNum :: u32
  Price :: u64
  Delta :: u64
  Gamma :: u64
  Timestamp :: u64
  Flags :: u16

definition riskEventSize :: int where "riskEventSize = 48"

text \<open>The memory image, on a host of byte order \<open>le\<close>.\<close>

definition native16 :: "bool \<Rightarrow> u16 \<Rightarrow> bytes" where
  "native16 le v = (if le then put_uint16 v else rev (put_uint16 v))"

definition native32 :: "bool \<Rightarrow> u32 \<Rightarrow> bytes" where
  "native32 le v = (if le then put_uint32 v else rev (put_uint32 v))"

definition risk_image :: "bool \<Rightarrow> RiskEvent \<Rightarrow> bytes" where
  "risk_image le e = native32 le (InstrumentID e) @ native32 le (SequenceNum e) @ word_to_bytes le (Price e) @
     word_to_bytes le (Delta e) @ word_to_bytes le (Gamma e) @ word_to_bytes le (Timestamp e) @
     native16 le (Flags e) @ replicate 6 0"

definition RiskEvent_Marshal :: "bool \<Rightarrow> RiskEvent marshal" where
  "RiskEvent_Marshal le e buf =
     (if int (length buf) < riskEventSize then (buf, 0)
      else (overwrite buf 0 (risk_image le e), riskEventSize))"

text \<open>The configuration of the example, for the sink it dials and its error callback.\<close>

definition example_config :: "'s sink_ops \<Rightarrow> ('s \<Rightarrow> error \<Rightarrow> 's) \<Rightarrow> 's Config" where
  "example_config sink onErr = \<lparr>Sink = Some sink, Compressor = None, OnFlushError = Some onErr,
     QueueSize = 2 ^ 14, MaxBatchSize = 2 ^ 16, MaxItemSize = riskEventSize, TickRate = 60,
     Backpressure = DropOldest, ShutdownTimeout = 0, FlushTimeout = 0, DeltaEncoding = False,
     KeyframeInterval = 0\<rparr>"

lemma length_word_to_bytes [simp]: "length (word_to_bytes le w) = 8"
  by (simp add: word_to_bytes_def Let_def)

lemma length_risk_image [simp]: "length (risk_image le e) = 48"
  by (simp add: risk_image_def native16_def native32_def)

interpretation risk: serializable "RiskEvent_Marshal le" "risk_image le" riskEventSize
proof
  fix buf x
  show "RiskEvent_Marshal le x buf = (risk_image le x @ drop (length (risk_image le x)) buf, int (length (risk_image le x)))"
    if "riskEventSize \<le> int (length buf)"
    using that by (simp add: RiskEvent_Marshal_def riskEventSize_def overwrite_def)
  show "risk_image le x \<noteq> []" using length_risk_image [of le x] by (metis list.size(3) zero_neq_numeral)
  show "int (length (risk_image le x)) \<le> riskEventSize" by (simp add: riskEventSize_def)
qed

section \<open>Properties\<close>

lemma length_concat_risk: "length (concat (map (risk_image le) xs)) = 48 * length xs"
  by (induction xs) simp_all

lemma example_gather:
  assumes len: "length buf = 65536"
  shows "\<exists>buf' offset'. gather (RiskEvent_Marshal le) riskEventSize evs buf 8 0 t =
        (drop 1365 evs, buf', offset', min 1365 (length evs), t) \<and>
      offset' = 8 + 48 * int (min 1365 (length evs)) \<and>
      take (nat offset') buf' = take 8 buf @ concat (map (risk_image le) (take 1365 evs))"
proof -
  obtain k buf' offset' where g: "gather (RiskEvent_Marshal le) riskEventSize evs buf 8 0 t = (drop k evs, buf', offset', k, t)"
    "k \<le> length evs" "offset' = 8 + int (48 * k)"
    "take (nat offset') buf' = take 8 buf @ concat (map (risk_image le) (take k evs))"
    "k < length evs \<longrightarrow> k = 65535 \<or> 65536 - offset' < 48"
    using risk.gather_enc [of 8 buf 0 le evs t] len
    by (auto simp: length_concat_risk riskEventSize_def min_absorb2)
  have "offset' \<le> 65536"
    using gather_bounds [OF g(1)] len by simp
  then have k: "k \<le> 1365" using g(3) by simp
  have "k = min 1365 (length evs)"
  proof (cases "k < length evs")
    case True
    then have "1365 \<le> k" using g(3,5) k by auto
    with True k show ?thesis by simp
  qed (use g(2) k in simp)
  then show ?thesis using g by (auto simp: min_def)
qed

lemma example_accepted: "accepted (effective sizeofT (example_config sink onErr))"
proof -
  have "\<exists>k < 64. (2 ^ 14 :: u64) = 2 ^ k" by (rule exI [of _ 14]) simp
  then have "is_pow2 (2 ^ 14)" unfolding is_pow2_iff .
  then show ?thesis
    by (simp add: accepted_def effective_def example_config_def riskEventSize_def wrap64_def)
qed

text \<open>
  The example's engine. Its configuration is accepted with any sink (it does not use delta
  encoding), and one run of the drain loop on its ring serialises exactly the first 1365
  queued events, or all of them when there are fewer: back to back from byte 8 on, none
  truncated, the others left queued.
\<close>

lemma example_engine:
  "(\<exists>b. New zero sizeofT (example_config sink onErr) = Ret (Inr b) \<and> engine_inv b \<and> length (byteBuffer b) = 65536) \<and>
   (ring_inv r \<and> length buf = 65536 \<longrightarrow>
     (\<exists>r' buf'. drain_loop (popMarshal (RiskEvent_Marshal le)) (MaxItemSize (example_config sink onErr)) r buf 8 0 t =
        Ret (r', buf', 8 + 48 * int (min 1365 (length (items r))), min 1365 (length (items r)), t) \<and>
      ring_inv r' \<and> items r' = drop 1365 (items r) \<and>
      take (8 + 48 * min 1365 (length (items r))) buf' =
        take 8 buf @ concat (map (risk_image le) (take 1365 (items r)))))"
proof (intro conjI impI)
  let ?c = "example_config sink onErr"
  have "QueueSize ?c \<noteq> 1" by (simp add: example_config_def)
  then obtain b where "New zero sizeofT ?c = Ret (Inr b)" "engine_inv b" "byteBuffer b = make_bytes (MaxBatchSize ?c)"
    using New_inv [OF example_accepted, of sink onErr zero sizeofT] by blast
  then show "\<exists>b. New zero sizeofT ?c = Ret (Inr b) \<and> engine_inv b \<and> length (byteBuffer b) = 65536"
    by (auto simp: example_config_def)
next
  assume "ring_inv r \<and> length buf = 65536"
  then have r: "ring_inv r" and len: "length buf = 65536" by simp_all
  have m: "MaxItemSize (example_config sink onErr) = riskEventSize" by (simp add: example_config_def)
  have off: "nat (8 + 48 * int k) = 8 + 48 * k" for k by (simp add: nat_add_distrib nat_mult_distrib)
  obtain buf' offset' where g: "gather (RiskEvent_Marshal le) riskEventSize (items r) buf 8 0 t =
      (drop 1365 (items r), buf', offset', min 1365 (length (items r)), t)"
    "offset' = 8 + 48 * int (min 1365 (length (items r)))"
    "take (nat offset') buf' = take 8 buf @ concat (map (risk_image le) (take 1365 (items r)))"
    using example_gather [OF len, of le "items r" t] by blast
  from rq_marshal.drain_gather [OF r, of 8 buf "RiskEvent_Marshal le" riskEventSize 0 t] g(1) len
  obtain r' where "drain_loop (popMarshal (RiskEvent_Marshal le)) riskEventSize r buf 8 0 t =
      Ret (r', buf', offset', min 1365 (length (items r)), t)" "ring_inv r'" "items r' = drop 1365 (items r)"
    by auto
  with g(2,3) show "\<exists>r' buf'. drain_loop (popMarshal (RiskEvent_Marshal le)) (MaxItemSize (example_config sink onErr)) r buf 8 0 t =
        Ret (r', buf', 8 + 48 * int (min 1365 (length (items r))), min 1365 (length (items r)), t) \<and>
      ring_inv r' \<and> items r' = drop 1365 (items r) \<and>
      take (8 + 48 * min 1365 (length (items r))) buf' =
        take 8 buf @ concat (map (risk_image le) (take 1365 (items r)))"
    unfolding m off [symmetric] by blast
qed

definition zero_event :: RiskEvent where
  "zero_event = \<lparr>InstrumentID = 0, SequenceNum = 0, Price = 0, Delta = 0, Gamma = 0, Timestamp = 0, Flags = 0\<rparr>"

end
