(* ===== verification/Telemetry_Main.thy ===== *)
theory Telemetry_Main
  imports Risk_Event Engine_World
begin

text \<open>
  The program of \<^verbatim>\<open>examples/telemetry_ingest/main.go\<close>: it dials a UDP sink, builds and starts an
  engine, pushes events until its context ends, waits for the engine, and closes the sink. It is
  the one place where all components are put together: constructor, sink, producer, error
  callback, tick loop and shutdown.
\<close>

section \<open>The host\<close>

text \<open>
  The state of the process outside the engine: the network of the operating system, the channel
  \<^verbatim>\<open>flushErrs\<close> (of capacity 16), and what was logged and printed. \<open>offers\<close> is a history variable: the errors
  that the callback was given, each with the number of errors that the channel held then.
\<close>

datatype log_line =
    DialFailed error | NewFailed config_error | FlushFailed error | CloseFailed error
  | ShutdownComplete u64

record 'n host =
  net :: 'n
  flushErrCh :: "error list"
  printed :: "log_line list"
  offers :: "(error \<times> nat) list"

definition print :: "log_line \<Rightarrow> 'n host \<Rightarrow> 'n host" where
  "print l h = h\<lparr>printed := printed h @ [l]\<rparr>"

text \<open>A connection of the network, seen from the process.\<close>

definition host_conn :: "'n conn \<Rightarrow> 'n host conn" where
  "host_conn c = \<lparr>
     SetWriteDeadline = (\<lambda>d h. h\<lparr>net := SetWriteDeadline c d (net h)\<rparr>),
     WriteBuffers = (\<lambda>bufs h. case WriteBuffers c bufs (net h) of (n, res) \<Rightarrow> (h\<lparr>net := n\<rparr>, res)),
     CloseConn = (\<lambda>h. case CloseConn c (net h) of (n, err) \<Rightarrow> (h\<lparr>net := n\<rparr>, err))\<rparr>"

text \<open>The callback: a send that is given up when the channel is full.\<close>

definition onFlushError :: "'n host \<Rightarrow> error \<Rightarrow> 'n host" where
  "onFlushError h err =
     (let h1 = h\<lparr>offers := offers h @ [(err, length (flushErrCh h))]\<rparr> in
      if length (flushErrCh h) < 16 then h1\<lparr>flushErrCh := flushErrCh h @ [err]\<rparr> else h1)"

text \<open>The deferred \<^verbatim>\<open>sink.Close()\<close>.\<close>

definition close_sink :: "'n conn \<Rightarrow> 'n host \<Rightarrow> 'n host" where
  "close_sink c h =
     (case UDPSink_Close (host_conn c) h of
        (h', None) \<Rightarrow> h'
      | (h', Some err) \<Rightarrow> print (CloseFailed err) h')"

section \<open>The producer loop\<close>

text \<open>One event; \<open>price\<close> is the floating-point expression for \<^verbatim>\<open>Price\<close> as a bit pattern, the
  constants are those of 0.45 and 0.02.\<close>

definition new_event :: "(u32 \<Rightarrow> u64) \<Rightarrow> u32 \<Rightarrow> int \<Rightarrow> RiskEvent" where
  "new_event price seq now = \<lparr>InstrumentID = seq mod 8, SequenceNum = seq, Price = price (seq mod 100),
     Delta = 0x3fdccccccccccccd, Gamma = 0x3f947ae147ae147b, Timestamp = of_int now, Flags = 0x01\<rparr>"

record 'n main_state =
  mloop :: "(RiskEvent, 'n host) loop_state"
  mseq :: u32

text \<open>
  What happens until the context ends: an iteration of the \<^verbatim>\<open>select\<close> loop at a given time, or a drain
  of the engine with the iterations that overlap it, grouped by the queue operations they fall
  between. An iteration that finds an error in the channel logs it; only when the channel is empty does
  it push. Logging commutes with a drain, so the overlapping iterations are pushes.
\<close>

datatype main_event = Iterate int | Drain "int list list" int int

fun event_groups :: "(u32 \<Rightarrow> u64) \<Rightarrow> u32 \<Rightarrow> int list list \<Rightarrow> RiskEvent list list" where
  "event_groups price seq [] = []"
| "event_groups price seq (ts # tss) =
     map (\<lambda>(i, t). new_event price (seq + of_nat i + 1) t) (enumerate 0 ts) #
     event_groups price (seq + of_nat (length ts)) tss"

definition host_of :: "'n main_state \<Rightarrow> 'n host" where
  "host_of s = env (lworld (mloop s))"

definition with_host :: "'n host \<Rightarrow> 'n main_state \<Rightarrow> 'n main_state" where
  "with_host h s = s\<lparr>mloop := (mloop s)\<lparr>lworld := (lworld (mloop s))\<lparr>env := h\<rparr>\<rparr>\<rparr>"

fun main_step :: "(u32 \<Rightarrow> u64) \<Rightarrow> bool \<Rightarrow> main_event \<Rightarrow> 'n main_state \<Rightarrow> 'n main_state go" where
  "main_step price le (Iterate now) s =
     (case flushErrCh (host_of s) of
        err # errs \<Rightarrow> Ret (with_host (print (FlushFailed err) ((host_of s)\<lparr>flushErrCh := errs\<rparr>)) s)
      | [] \<Rightarrow>
          let seq = mseq s + 1 in
          go_bind (runLoop_step (RiskEvent_Marshal le) le (Produce (new_event price seq now)) (mloop s)) (\<lambda>l.
          Ret \<lparr>mloop = l, mseq = seq\<rparr>))"
| "main_step price le (Drain tss now elapsed) s =
     (let tss' = (if flushErrCh (host_of s) = [] then tss else []) in
      go_bind (runLoop_step (RiskEvent_Marshal le) le (Tick (event_groups price (mseq s) tss') now elapsed) (mloop s)) (\<lambda>l.
      Ret \<lparr>mloop = l, mseq = mseq s + of_nat (length (concat tss'))\<rparr>))"

fun main_loop :: "(u32 \<Rightarrow> u64) \<Rightarrow> bool \<Rightarrow> main_event list \<Rightarrow> 'n main_state \<Rightarrow> 'n main_state go" where
  "main_loop price le [] s = Ret s"
| "main_loop price le (e # es) s = go_bind (main_step price le e s) (main_loop price le es)"

text \<open>Iterations that take errors from the channel; once the context has ended, only these are left, as
  long as the \<^verbatim>\<open>select\<close> does not take \<^verbatim>\<open>ctx.Done()\<close>.\<close>

fun log_errors :: "nat \<Rightarrow> 'n host \<Rightarrow> 'n host" where
  "log_errors 0 h = h"
| "log_errors (Suc k) h =
     (case flushErrCh h of [] \<Rightarrow> h | err # errs \<Rightarrow> log_errors k (print (FlushFailed err) (h\<lparr>flushErrCh := errs\<rparr>)))"

section \<open>The program\<close>

text \<open>\<^verbatim>\<open>log.Fatalf\<close> ends the process without the deferred calls; \<open>Quits\<close>: the early return, with them; \<open>Waits\<close>: \<^verbatim>\<open>done\<close> is never closed. The engine is
  shown as it is at the end. \<open>final\<close> is what is still pushed while the final drain runs (the context has ended, and
  the producer loop has not seen it yet), \<open>logs\<close> the number of errors it still takes from the channel before
  it sees that.\<close>

datatype 'n main_exit =
    Fatal "'n host"
  | Quits "'n host"
  | Exits "'n host" "(RiskEvent, 'n host) Batcher"
  | Waits "'n host" "(RiskEvent, 'n host) Batcher"

definition main ::
  "(u32 \<Rightarrow> u64) \<Rightarrow> bool \<Rightarrow> (string \<Rightarrow> string \<Rightarrow> 'n \<Rightarrow> 'n \<times> (error + 'addr)) \<Rightarrow>
   (string \<Rightarrow> 'addr \<Rightarrow> 'n \<Rightarrow> 'n \<times> (error + 'n conn)) \<Rightarrow> main_event list \<Rightarrow> int list list \<Rightarrow> int \<Rightarrow> int \<Rightarrow> nat \<Rightarrow>
   'n host \<Rightarrow> 'n main_exit go" where
  "main price le ResolveUDPAddr DialUDP events final now later logs h =
     (case NewUDPSink ResolveUDPAddr DialUDP ''127.0.0.1:9999'' (net h) of
        (n, Inl err) \<Rightarrow> Ret (Fatal (print (DialFailed err) (h\<lparr>net := n\<rparr>)))
      | (n, Inr c) \<Rightarrow>
          let h1 = h\<lparr>net := n, flushErrCh := [], offers := []\<rparr> in
          go_bind (New zero_event riskEventSize (example_config (UDPSink (host_conn c)) onFlushError)) (\<lambda>r.
          case r of
            Inl err \<Rightarrow> Ret (Quits (close_sink c (print (NewFailed err) h1)))
          | Inr b \<Rightarrow>
              go_bind (Start b) (\<lambda>b1.
              go_bind (main_loop price le events \<lparr>mloop = runLoop_start \<lparr>env = h1, slog = []\<rparr> b1, mseq = 0\<rparr>) (\<lambda>s.
              let tss = (if flushErrCh (host_of s) = [] then final else []) in
              go_bind (runLoop_step (RiskEvent_Marshal le) le (Cancel False (event_groups price (mseq s) tss) now later) (mloop s)) (\<lambda>l.
              let h2 = log_errors logs (env (lworld l)) in
              if status l = Stopped
              then Ret (Exits (close_sink c (print (ShutdownComplete (DroppedCount (engine l))) h2)) (engine l))
              else Ret (Waits h2 (engine l)))))))"

section \<open>What the program relies on of its socket\<close>

text \<open>\<open>closed\<close> counts the times the connection was closed: only \<^verbatim>\<open>Close\<close> does that.\<close>

locale socket =
  fixes c :: "'n conn" and closed :: "'n \<Rightarrow> nat"
  assumes deadline_open: "closed (SetWriteDeadline c d n) = closed n"
    and write_open: "closed (fst (WriteBuffers c bufs n)) = closed n"
    and close_once: "closed (fst (CloseConn c n)) = closed n + 1"
begin

text \<open>The host while the engine runs: \<open>k\<close> times closed, \<open>errs\<close> printed after \<open>pre\<close>, the channel within its capacity;
  the printed errors and those in the channel are the ones that were offered to a channel with room.\<close>

definition host_ok :: "nat \<Rightarrow> log_line list \<Rightarrow> error list \<Rightarrow> 'n host \<Rightarrow> bool" where
  "host_ok k pre errs h \<longleftrightarrow> closed (net h) = k \<and> printed h = pre @ map FlushFailed errs \<and> length (flushErrCh h) \<le> 16 \<and>
     errs @ flushErrCh h = map fst (filter (\<lambda>(e, n). n < 16) (offers h))"

abbreviation config :: "'n host Config" where
  "config \<equiv> example_config (UDPSink (host_conn c)) onFlushError"

end

sublocale socket \<subseteq> host: world_contract config "host_ok k pre errs" for k pre errs
proof
  fix sink h ctx p
  assume "Sink config = Some sink" and h: "host_ok k pre errs h"
  then have sink: "sink = UDPSink (host_conn c)" by (simp add: example_config_def)
  have wr: "host_ok k pre errs (fst (WriteBuffers (host_conn c) bufs g))" if "host_ok k pre errs g" for bufs g
    using that write_open [of bufs "net g"] by (auto simp: host_ok_def host_conn_def split: prod.split)
  have dl: "host_ok k pre errs (SetWriteDeadline (host_conn c) d g)" if "host_ok k pre errs g" for d g
    using that deadline_open by (simp add: host_ok_def host_conn_def)
  let ?body = "\<lambda>s. case WriteBuffers (host_conn c) [p] s of (s', None) \<Rightarrow> (s', Stalls) | (s', Some (_, err)) \<Rightarrow> (s', Returns err)"
  have body: "host_ok k pre errs (fst (?body g))" if "host_ok k pre errs g" for g
    using wr [OF that, of "[p]"] by (auto split: prod.split option.split)
  show "host_ok k pre errs (fst (Flush sink ctx p h))"
  proof (cases "Deadline ctx")
    case None
    then show ?thesis using body [OF h] by (simp add: sink UDPSink_def with_deadline_def)
  next
    case (Some d)
    let ?h = "SetWriteDeadline (host_conn c) (Some d) h"
    obtain g x where g: "?body ?h = (g, x)" by (rule prod.exhaust)
    have "host_ok k pre errs g" using body [OF dl [OF h], of "Some d"] g by simp
    with Some g dl show ?thesis by (cases x) (simp_all add: sink UDPSink_def with_deadline_def)
  qed
next
  fix g h err
  assume "OnFlushError config = Some g" and "host_ok k pre errs h"
  then show "host_ok k pre errs (g h err)" by (auto simp: example_config_def host_ok_def onFlushError_def Let_def)
qed (simp add: example_config_def)

sublocale socket \<subseteq> ledger: callback_ledger config onFlushError "\<lambda>h. length (offers h)"
proof
  fix sink ctx p h
  assume "Sink config = Some sink"
  then have sink: "sink = UDPSink (host_conn c)" by (simp add: example_config_def)
  have wr: "offers (fst (WriteBuffers (host_conn c) bufs g)) = offers g" for bufs g
    by (simp add: host_conn_def split: prod.split)
  have dl: "offers (SetWriteDeadline (host_conn c) d g) = offers g" for d g by (simp add: host_conn_def)
  show "length (offers (fst (Flush sink ctx p h))) = length (offers h)"
  proof (cases "Deadline ctx")
    case None
    then show ?thesis using wr [of "[p]" h] by (auto simp: sink UDPSink_def with_deadline_def split: prod.split option.split)
  next
    case (Some d)
    let ?h = "SetWriteDeadline (host_conn c) (Some d) h"
    have "offers (fst (WriteBuffers (host_conn c) [p] ?h)) = offers h" using wr dl by simp
    with Some dl show ?thesis by (auto simp: sink UDPSink_def with_deadline_def split: prod.split option.split)
  qed
qed (simp_all add: example_config_def onFlushError_def Let_def)

context socket
begin

definition main_ok :: "log_line list \<Rightarrow> error list \<Rightarrow> nat \<Rightarrow> 'n main_state \<Rightarrow> bool" where
  "main_ok pre errs k s \<longleftrightarrow> loop_inv (mloop s) \<and> cfg (engine (mloop s)) = config \<and> host_ok k pre errs (host_of s) \<and>
     flushErrs (engine (mloop s)) = of_nat (length (offers (host_of s)))"

lemma engine_step:
  assumes "main_ok pre errs k s"
  shows "\<exists>l. runLoop_step (RiskEvent_Marshal le) le e (mloop s) = Ret l \<and> main_ok pre errs k \<lparr>mloop = l, mseq = q\<rparr>"
proof -
  have inv: "loop_inv (mloop s)" "cfg (engine (mloop s)) = config"
    "host_ok k pre errs (env (lworld (mloop s)))" "flushErrs (engine (mloop s)) = of_nat (length (offers (env (lworld (mloop s)))))"
    using assms by (simp_all add: main_ok_def host_of_def)
  obtain l where l: "runLoop_step (RiskEvent_Marshal le) le e (mloop s) = Ret l" "loop_inv l" "cfg (engine l) = config"
    using runLoop_step_ok [OF inv(1)] inv(2) by metis
  from host.step_world [OF inv(1-3) l(1)] ledger.step_ledger [OF inv(1,2,4) l(1)] l show ?thesis
    by (simp add: main_ok_def host_of_def)
qed

lemma log_ok:
  assumes "host_ok k pre errs h" and "flushErrCh h = e # es"
  shows "host_ok k pre (errs @ [e]) (print (FlushFailed e) (h\<lparr>flushErrCh := es\<rparr>))"
  using assms by (simp add: host_ok_def print_def)

lemma log_errors_ok:
  "host_ok k pre errs h \<Longrightarrow> \<exists>more. host_ok k pre (errs @ more) (log_errors j h) \<and> offers (log_errors j h) = offers h"
proof (induction j arbitrary: h errs)
  case 0
  then show ?case by (intro exI [of _ "[]"]) simp
next
  case (Suc j)
  show ?case
  proof (cases "flushErrCh h")
    case Nil
    with Suc.prems show ?thesis by (intro exI [of _ "[]"]) simp
  next
    case (Cons e es)
    from Suc.IH [OF log_ok [OF Suc.prems Cons]] Cons show ?thesis by (auto simp: print_def)
  qed
qed

lemma main_step_ok:
  assumes ok: "main_ok pre errs k s"
  shows "\<exists>s1 more. main_step price le e s = Ret s1 \<and> main_ok pre (errs @ more) k s1"
proof (cases e)
  case (Iterate now)
  show ?thesis
  proof (cases "flushErrCh (host_of s)")
    case Nil
    with Iterate engine_step [OF ok, of le "Produce (new_event price (mseq s + 1) now)" "mseq s + 1"]
    show ?thesis by (auto intro!: exI [of _ "[]"] simp: Let_def simp del: runLoop_step.simps)
  next
    case (Cons err es)
    have "host_ok k pre errs (host_of s)" using ok by (simp add: main_ok_def)
    note log = log_ok [OF this Cons]
    from Iterate Cons log ok show ?thesis
      by (intro exI [of _ "with_host (print (FlushFailed err) ((host_of s)\<lparr>flushErrCh := es\<rparr>)) s"] exI [of _ "[err]"])
        (simp add: main_ok_def with_host_def host_of_def print_def loop_inv_def)
  qed
next
  case (Drain tss now el)
  let ?t = "if flushErrCh (host_of s) = [] then tss else []"
  show ?thesis
    using Drain engine_step [OF ok, of le "Tick (event_groups price (mseq s) ?t) now el" "mseq s + of_nat (length (concat ?t))"]
    by (auto intro!: exI [of _ "[]"] simp: Let_def simp del: runLoop_step.simps)
qed

lemma main_loop_ok:
  assumes "main_ok pre errs k s"
  shows "\<exists>s' more. main_loop price le es s = Ret s' \<and> main_ok pre (errs @ more) k s'"
  using assms
proof (induction es arbitrary: s errs)
  case Nil
  then show ?case by (intro exI [of _ s] exI [of _ "[]"]) simp
next
  case (Cons e es)
  obtain s1 more where s1: "main_step price le e s = Ret s1" "main_ok pre (errs @ more) k s1"
    using main_step_ok [OF Cons.prems] by blast
  from Cons.IH [OF s1(2)] obtain s2 more2 where "main_loop price le es s1 = Ret s2" "main_ok pre (errs @ (more @ more2)) k s2"
    by auto
  with s1(1) show ?case by (intro exI [of _ s2] exI [of _ "more @ more2"]) simp
qed

end

section \<open>Properties\<close>

lemma close_sink_ok:
  assumes "CloseConn c (net h) = (n, ce)"
  shows "net (close_sink c h) = n" and "flushErrCh (close_sink c h) = flushErrCh h" and "offers (close_sink c h) = offers h"
    and "printed (close_sink c h) = printed h @ (case ce of None \<Rightarrow> [] | Some e \<Rightarrow> [CloseFailed e])"
  using assms by (simp_all add: close_sink_def UDPSink_Close_def host_conn_def print_def split: option.split)

text \<open>The errors that were offered to the channel while it had room.\<close>

definition taken_errors :: "'n host \<Rightarrow> error list" where
  "taken_errors h = map fst (filter (\<lambda>(e, n). n < 16) (offers h))"

lemma main_runs:
  assumes "NewUDPSink ResolveUDPAddr DialUDP ''127.0.0.1:9999'' (net h) = (n, Inr c)" and "socket c closed"
  shows "\<exists>l errs. socket.main_ok c closed (printed h) errs (closed n) \<lparr>mloop = l, mseq = 0\<rparr> \<and>
    main price le ResolveUDPAddr DialUDP es final now later logs h =
      (let h2 = log_errors logs (env (lworld l)) in
       Ret (if status l = Stopped
            then Exits (close_sink c (print (ShutdownComplete (DroppedCount (engine l))) h2)) (engine l)
            else Waits h2 (engine l)))"
proof -
  let ?cf = "example_config (UDPSink (host_conn c)) onFlushError"
  let ?h1 = "h\<lparr>net := n, flushErrCh := [], offers := []\<rparr>" and ?k = "closed n"
  have q: "QueueSize ?cf \<noteq> 1" by (simp add: example_config_def)
  obtain b where b: "New zero_event riskEventSize ?cf = Ret (Inr b)" "started b = False" "flushErrs b = 0"
    using New_inv [OF example_accepted q, of zero_event] by blast
  let ?b = "b\<lparr>started := True\<rparr>"
  let ?s0 = "\<lparr>mloop = runLoop_start \<lparr>env = ?h1, slog = []\<rparr> ?b, mseq = 0\<rparr>"
  have "effective riskEventSize ?cf = ?cf" by (simp add: effective_def example_config_def riskEventSize_def)
  with start_inv(1) [OF b(1) q, of "\<lparr>env = ?h1, slog = []\<rparr>"] start_inv(3) [OF b(1) q] b(3)
  have "socket.main_ok c closed (printed h) [] ?k ?s0"
    using assms(2)
    by (simp add: socket.main_ok_def socket.host_ok_def host_of_def runLoop_start_def loop_inv_def run_inv_def
        engine_inv_def buffers_ok_def baseline_def Let_def)
  from socket.main_loop_ok [OF assms(2) this, of price le es] obtain s errs where
    s: "main_loop price le es ?s0 = Ret s" "socket.main_ok c closed (printed h) errs ?k s" by auto
  let ?tss = "if flushErrCh (host_of s) = [] then final else []"
  obtain l where l: "runLoop_step (RiskEvent_Marshal le) le (Cancel False (event_groups price (mseq s) ?tss) now later) (mloop s) = Ret l"
    "socket.main_ok c closed (printed h) errs ?k \<lparr>mloop = l, mseq = 0\<rparr>"
    using socket.engine_step [OF assms(2) s(2)] by blast
  then have "main price le ResolveUDPAddr DialUDP es final now later logs h =
      (let h2 = log_errors logs (env (lworld l)) in
       Ret (if status l = Stopped
            then Exits (close_sink c (print (ShutdownComplete (DroppedCount (engine l))) h2)) (engine l)
            else Waits h2 (engine l)))"
    using assms(1) b s(1) by (simp add: main_def Start_def Let_def del: runLoop_step.simps)
  with l(2) show ?thesis by blast
qed

text \<open>How the program may end that has found the network in state \<open>n\<close> behind the dialled connection \<open>c\<close>.\<close>

definition ends_well :: "('n \<Rightarrow> nat) \<Rightarrow> 'n conn \<Rightarrow> 'n \<Rightarrow> 'n host \<Rightarrow> 'n main_exit \<Rightarrow> bool" where
  "ends_well closed c n h x \<longleftrightarrow>
    (case x of
       Fatal h' \<Rightarrow> False
     | Quits h' \<Rightarrow> False
     | Exits h' b \<Rightarrow> \<exists>errs n' ce. CloseConn c n' = (net h', ce) \<and> closed n' = closed n \<and> closed (net h') = closed n + 1 \<and>
         printed h' = printed h @ map FlushFailed errs @ [ShutdownComplete (DroppedCount b)] @
           (case ce of None \<Rightarrow> [] | Some e \<Rightarrow> [CloseFailed e]) \<and>
         errs @ flushErrCh h' = taken_errors h' \<and> length (flushErrCh h') \<le> 16 \<and> FlushErrorCount b = of_nat (length (offers h'))
     | Waits h' b \<Rightarrow> \<exists>errs. closed (net h') = closed n \<and> printed h' = printed h @ map FlushFailed errs \<and>
         errs @ flushErrCh h' = taken_errors h' \<and> length (flushErrCh h') \<le> 16 \<and> FlushErrorCount b = of_nat (length (offers h')))"

lemma main_connected:
  assumes dial: "NewUDPSink ResolveUDPAddr DialUDP ''127.0.0.1:9999'' (net h) = (n, Inr c)" and sock: "socket c closed"
  shows "\<exists>x. main price le ResolveUDPAddr DialUDP es final now later logs h = Ret x \<and>
    ends_well closed c n h x"
proof -
  obtain l errs0 where ok: "socket.main_ok c closed (printed h) errs0 (closed n) \<lparr>mloop = l, mseq = 0\<rparr>"
    and fin: "main price le ResolveUDPAddr DialUDP es final now later logs h =
      (let h2 = log_errors logs (env (lworld l)) in
       Ret (if status l = Stopped
            then Exits (close_sink c (print (ShutdownComplete (DroppedCount (engine l))) h2)) (engine l)
            else Waits h2 (engine l)))"
    using main_runs [OF dial sock] by blast
  let ?h2 = "log_errors logs (env (lworld l))"
  have hk: "socket.host_ok closed (closed n) (printed h) errs0 (env (lworld l))"
    and count: "flushErrs (engine l) = of_nat (length (offers (env (lworld l))))"
    using ok by (simp_all add: socket.main_ok_def [OF sock] host_of_def)
  obtain errs where "socket.host_ok closed (closed n) (printed h) errs ?h2" "offers ?h2 = offers (env (lworld l))"
    using socket.log_errors_ok [OF sock hk, of logs] by blast
  then have g: "closed (net ?h2) = closed n" "printed ?h2 = printed h @ map FlushFailed errs" "length (flushErrCh ?h2) \<le> 16"
    "errs @ flushErrCh ?h2 = taken_errors ?h2" "FlushErrorCount (engine l) = of_nat (length (offers ?h2))"
    using count by (simp_all add: socket.host_ok_def [OF sock] taken_errors_def FlushErrorCount_def)
  let ?d = "print (ShutdownComplete (DroppedCount (engine l))) ?h2"
  obtain n' ce where cl: "CloseConn c (net ?d) = (n', ce)" by fastforce
  note close = close_sink_ok [OF cl]
  have "closed n' = closed n + 1" using socket.close_once [OF sock, of "net ?d"] cl g(1) by (simp add: print_def)
  then have "\<exists>n1. CloseConn c n1 = (net (close_sink c ?d), ce) \<and> closed n1 = closed n \<and> closed (net (close_sink c ?d)) = closed n + 1"
    using cl g(1) close(1) by (intro exI [of _ "net ?d"]) (simp add: print_def)
  with fin g close show ?thesis
    by (cases "status l = Stopped") (auto simp: Let_def print_def taken_errors_def ends_well_def)
qed

text \<open>
  C20: the example program. When the dial fails it ends at once. Otherwise, for any times at which its
  loop and the engine's drains run (pushes may overlap every drain, the final one too) and any behaviour of the
  socket, it builds and starts the engine (the error branch of \<^verbatim>\<open>New\<close> is not taken) and does not panic. When it
  ends, it has closed the socket exactly once, by the deferred call behind the final drain, and has printed, in
  this order, flush errors, the shutdown line with the final count of dropped events, and the error of
  closing if there was one. The printed flush errors, followed by those left in the channel, are
  exactly the errors, in order, that were offered to the channel while it held fewer than 16; and the callback
  was called as often as \<^verbatim>\<open>FlushErrorCount\<close> says. It waits for ever only with the socket still open.
\<close>

theorem example_main:
  assumes "\<forall>n c. NewUDPSink ResolveUDPAddr DialUDP ''127.0.0.1:9999'' (net h) = (n, Inr c) \<longrightarrow> socket c closed"
  shows "case NewUDPSink ResolveUDPAddr DialUDP ''127.0.0.1:9999'' (net h) of
    (n, Inl err) \<Rightarrow> main price le ResolveUDPAddr DialUDP es final now later logs h = Ret (Fatal (print (DialFailed err) (h\<lparr>net := n\<rparr>)))
  | (n, Inr c) \<Rightarrow> \<exists>x. main price le ResolveUDPAddr DialUDP es final now later logs h = Ret x \<and>
    ends_well closed c n h x"
proof (cases "NewUDPSink ResolveUDPAddr DialUDP ''127.0.0.1:9999'' (net h)")
  case (Pair n r)
  show ?thesis
  proof (cases r)
    case (Inl err)
    with Pair show ?thesis by (simp add: main_def)
  next
    case (Inr c)
    with Pair assms have dial: "NewUDPSink ResolveUDPAddr DialUDP ''127.0.0.1:9999'' (net h) = (n, Inr c)" and sock: "socket c closed" by simp_all
    with main_connected [OF this, of price le es final now later logs] show ?thesis by simp
  qed
qed

text \<open>A socket that records its datagrams, fails for the first one, and counts the times it was closed.\<close>

definition counting_conn :: "(bytes list \<times> nat) conn" where
  "counting_conn = \<lparr>SetWriteDeadline = (\<lambda>_ n. n),
     WriteBuffers = (\<lambda>bufs (sent, k). ((sent @ [concat bufs], k),
       Some (if sent = [] then (0, Some ErrFlushTimeout) else (int (length (concat bufs)), None)))),
     CloseConn = (\<lambda>(sent, k). ((sent, k + 1), None))\<rparr>"

interpretation counting: socket counting_conn snd
  by unfold_locales (auto simp: counting_conn_def)

theorem example_main_witness:
  "\<exists>x. main (\<lambda>_. 0) True (\<lambda>_ addr n. (n, Inr addr)) (\<lambda>_ _ n. (n, Inr counting_conn))
      [Iterate 1, Drain [[2], [3, 4]] 5 6, Iterate 7] [[8]] 9 10 1 \<lparr>net = ([], 0), flushErrCh = [], printed = [], offers = []\<rparr> = Ret x \<and>
    (case x of
       Fatal h' \<Rightarrow> False | Quits h' \<Rightarrow> False | Waits h' b \<Rightarrow> snd (net h') = 0
     | Exits h' b \<Rightarrow> snd (net h') = 1 \<and> (\<exists>errs. printed h' = map FlushFailed errs @ [ShutdownComplete (DroppedCount b)] \<and>
         errs @ flushErrCh h' = taken_errors h'))"
proof -
  let ?h = "\<lparr>net = ([], 0), flushErrCh = [], printed = [], offers = []\<rparr> :: (bytes list \<times> nat) host"
  have dial: "NewUDPSink (\<lambda>_ addr n. (n, Inr addr)) (\<lambda>_ _ n. (n, Inr counting_conn)) ''127.0.0.1:9999'' (net ?h) = (([], 0), Inr counting_conn)"
    by (simp add: NewUDPSink_def)
  then have "\<forall>n c. NewUDPSink (\<lambda>_ addr n. (n, Inr addr)) (\<lambda>_ _ n. (n, Inr counting_conn)) ''127.0.0.1:9999'' (net ?h) = (n, Inr c) \<longrightarrow>
      socket c snd" using counting.socket_axioms by simp
  from example_main [OF this, of "\<lambda>_. 0" True "[Iterate 1, Drain [[2], [3, 4]] 5 6, Iterate 7]" "[[8]]" 9 10 1, unfolded dial prod.case sum.case]
  obtain x where x: "main (\<lambda>_. 0) True (\<lambda>_ addr n. (n, Inr addr)) (\<lambda>_ _ n. (n, Inr counting_conn))
      [Iterate 1, Drain [[2], [3, 4]] 5 6, Iterate 7] [[8]] 9 10 1 ?h = Ret x" and y: "ends_well snd counting_conn ([], 0) ?h x"
    by (elim exE conjE)
  have close: "CloseConn counting_conn n' = ((fst n', snd n' + 1), None)" for n'
    by (simp add: counting_conn_def split: prod.split)
  show ?thesis
  proof (rule exI [of _ x], rule conjI [OF x])
    show "case x of
       Fatal h' \<Rightarrow> False | Quits h' \<Rightarrow> False | Waits h' b \<Rightarrow> snd (net h') = 0
     | Exits h' b \<Rightarrow> snd (net h') = 1 \<and> (\<exists>errs. printed h' = map FlushFailed errs @ [ShutdownComplete (DroppedCount b)] \<and>
         errs @ flushErrCh h' = taken_errors h')"
      using y by (cases x) (auto simp: ends_well_def close)
  qed
qed

end
