(* ===== verification/Buffer_Reuse.thy ===== *)
theory Buffer_Reuse
  imports Engine_Config
begin

text \<open>
  Who owns a payload. The engine hands every \<^verbatim>\<open>Sink.Flush\<close> a slice of a buffer it overwrites on the
  next tick, so a sink that keeps the slice sees it change (\<^verbatim>\<open>sink.go\<close>). In the other theories a
  payload is a value; here slices point into a memory of arrays, for the code whose purpose is the
  aliasing: \<^verbatim>\<open>CopyingSink\<close> (\<^verbatim>\<open>copy_sink.go\<close>), \<^verbatim>\<open>RecordingSink\<close> and the conformance test \<^verbatim>\<open>TestSink\<close>
  (\<^verbatim>\<open>tickbatchtest.go\<close>).
\<close>

section \<open>Memory\<close>

text \<open>The arrays of the heap by address, and slices \<^verbatim>\<open>a[:n]\<close> of them.\<close>

type_synonym memory = "bytes list"

record slice =
  array :: nat
  len :: nat

definition contents :: "memory \<Rightarrow> slice \<Rightarrow> bytes" where
  "contents m sl = (if array sl < length m then take (len sl) (m ! array sl) else [])"

definition nil_slice :: slice where
  "nil_slice = \<lparr>array = 0, len = 0\<rparr>"

text \<open>A new array with given contents; \<^verbatim>\<open>make\<close> fills it with zeros.\<close>

definition alloc :: "memory \<Rightarrow> bytes \<Rightarrow> memory \<times> slice" where
  "alloc m bs = (m @ [bs], \<lparr>array = length m, len = length bs\<rparr>)"

definition make_slice :: "memory \<Rightarrow> nat \<Rightarrow> memory \<times> slice" where
  "make_slice m n = alloc m (replicate n 0)"

text \<open>\<^verbatim>\<open>copy(dst, src)\<close>.\<close>

definition copy_slice :: "memory \<Rightarrow> slice \<Rightarrow> slice \<Rightarrow> memory" where
  "copy_slice m dst src = m[array dst := overwrite (m ! array dst) 0 (take (len dst) (contents m src))]"

text \<open>\<^verbatim>\<open>bytes.Clone\<close> of a slice that is not nil.\<close>

definition clone :: "memory \<Rightarrow> slice \<Rightarrow> memory \<times> slice" where
  "clone m sl = alloc m (contents m sl)"

section \<open>Sinks over memory\<close>

text \<open>How a call of \<^verbatim>\<open>Flush\<close> ends: it returns, panics, or does not come back.\<close>

datatype call_end = Returned "error option" | Panicked | Blocked

type_synonym 's mem_sink = "go_context \<Rightarrow> slice \<Rightarrow> memory \<times> 's \<Rightarrow> (memory \<times> 's) \<times> call_end"

definition mem_CopyingSink :: "'s mem_sink \<Rightarrow> 's mem_sink" where
  "mem_CopyingSink Inner ctx payload = (\<lambda>(m, s).
     case make_slice m (len payload) of (m1, cp) \<Rightarrow> Inner ctx cp (copy_slice m1 cp payload, s))"

record mem_recording =
  m_Err :: "error option"
  m_payloads :: "slice list"

definition mem_RecordingSink :: "mem_recording mem_sink" where
  "mem_RecordingSink ctx payload = (\<lambda>(m, r).
     case make_slice m (len payload) of (m1, cp) \<Rightarrow>
       ((copy_slice m1 cp payload, r\<lparr>m_payloads := m_payloads r @ [cp]\<rparr>), Returned (m_Err r)))"

text \<open>\<^verbatim>\<open>RecordingSink.Payloads\<close>: a clone of every recorded payload.\<close>

fun clone_all :: "slice list \<Rightarrow> memory \<Rightarrow> memory \<times> slice list" where
  "clone_all [] m = (m, [])"
| "clone_all (p # ps) m =
     (case clone m p of (m1, q) \<Rightarrow> case clone_all ps m1 of (m2, qs) \<Rightarrow> (m2, q # qs))"

definition mem_Payloads :: "mem_recording \<Rightarrow> memory \<Rightarrow> memory \<times> slice list" where
  "mem_Payloads r m = clone_all (m_payloads r) m"

definition mem_Len :: "mem_recording \<Rightarrow> int" where
  "mem_Len r = int (length (m_payloads r))"

text \<open>A broker client that enqueues the slice and returns; what it transmits later is what the
  queued slices hold by then.\<close>

definition broker :: "slice list mem_sink" where
  "broker ctx payload = (\<lambda>(m, q). ((m, q @ [payload]), Returned None))"

definition transmits :: "memory \<times> slice list \<Rightarrow> bytes list" where
  "transmits = (\<lambda>(m, q). map (contents m) q)"

section \<open>The engine's side\<close>

text \<open>
  The engine's buffer is array 0. Between flushes it is overwritten at will; a flush hands out a
  prefix of it. \<open>serve\<close> gives what each flush was handed, as bytes.
\<close>

datatype buffer_op = Overwrite bytes | Hand nat

fun serve :: "'s mem_sink \<Rightarrow> buffer_op list \<Rightarrow> memory \<times> 's \<Rightarrow> bytes list \<times> memory \<times> 's" where
  "serve sink [] st = ([], st)"
| "serve sink (Overwrite bs # ops) st = serve sink ops ((fst st)[0 := bs], snd st)"
| "serve sink (Hand n # ops) st =
     (let sl = \<lparr>array = 0, len = n\<rparr> in
      case serve sink ops (fst (sink Background sl st)) of (ps, st') \<Rightarrow> (contents (fst st) sl # ps, st'))"

text \<open>The buffer keeps its size, and a flush hands out no more than there is.\<close>

fun fits :: "nat \<Rightarrow> buffer_op list \<Rightarrow> bool" where
  "fits k [] = True"
| "fits k (Overwrite bs # ops) = (length bs = k \<and> fits k ops)"
| "fits k (Hand n # ops) = (n \<le> k \<and> fits k ops)"

section \<open>Copies are private\<close>

text \<open>Slices that no write to array 0 can touch.\<close>

definition apart :: "memory \<Rightarrow> slice list \<Rightarrow> bool" where
  "apart m sls \<longleftrightarrow> (\<forall>sl \<in> set sls. 0 < array sl \<and> array sl < length m)"

lemma contents_alloc:
  assumes "alloc m bs = (m', sl)"
  shows "contents m' sl = bs" and "array sl = length m" and "length m' = length m + 1"
    and "array q < length m \<Longrightarrow> contents m' q = contents m q"
  using assms by (auto simp: alloc_def contents_def nth_append)

lemma copy_made:
  assumes "make_slice m (len p) = (m1, cp)" and "array p < length m" and "len p \<le> length (m ! array p)"
  defines "m2 \<equiv> copy_slice m1 cp p"
  shows "contents m2 cp = contents m p" and "array cp = length m" and "length m2 = length m + 1"
    and "array q < length m \<Longrightarrow> contents m2 q = contents m q"
proof -
  have m1: "m1 = m @ [replicate (len p) 0]" and cp: "cp = \<lparr>array = length m, len = len p\<rparr>"
    using assms(1) by (auto simp: make_slice_def alloc_def)
  have c: "contents m1 p = contents m p" "length (contents m p) = len p"
    using assms(2,3) by (simp_all add: m1 contents_def nth_append)
  have m2: "m2 = m @ [contents m p]"
    using c by (simp add: m2_def copy_slice_def cp m1 overwrite_def)
  show "contents m2 cp = contents m p" "array cp = length m" "length m2 = length m + 1"
    and "array q < length m \<Longrightarrow> contents m2 q = contents m q"
    using c(2) by (simp_all add: m2 cp contents_def nth_append)
qed

text \<open>
  What an owning sink promises: it adds one slice, apart from the engine's buffer and holding the
  payload as handed over, and disturbs neither the buffer nor the slices it kept before.
\<close>

locale owning_sink =
  fixes sink :: "'s mem_sink" and kept :: "'s \<Rightarrow> slice list"
  assumes owns: "sink ctx p (m, s) = ((m', s'), c) \<Longrightarrow> array p < length m \<Longrightarrow> len p \<le> length (m ! array p) \<Longrightarrow>
      apart m (kept s) \<Longrightarrow>
      length m \<le> length m' \<and> m' ! 0 = m ! 0 \<and> apart m' (kept s') \<and>
      map (contents m') (kept s') = map (contents m) (kept s) @ [contents m p]"
begin

lemma serve_keeps:
  assumes "serve sink ops (m, s) = (ps, m', s')" and "fits (length (m ! 0)) ops" and "m \<noteq> []" and "apart m (kept s)"
  shows "apart m' (kept s') \<and> map (contents m') (kept s') = map (contents m) (kept s) @ ps"
  using assms
proof (induction ops arbitrary: m s ps)
  case (Cons op ops)
  show ?case
  proof (cases op)
    case (Overwrite bs)
    have "contents (m[0 := bs]) sl = contents m sl" if "sl \<in> set (kept s)" for sl
      using that Cons.prems(4) by (auto simp: apart_def contents_def)
    then have same: "map (contents m) (kept s) = map (contents (m[0 := bs])) (kept s)" by simp
    have "apart (m[0 := bs]) (kept s)" using Cons.prems(4) by (simp add: apart_def)
    with Cons.prems Overwrite show ?thesis unfolding same by (intro Cons.IH) simp_all
  next
    case (Hand n)
    let ?sl = "\<lparr>array = 0, len = n\<rparr>"
    obtain m1 s1 c where f: "sink Background ?sl (m, s) = ((m1, s1), c)" by (metis prod.exhaust)
    obtain ps1 where ps1: "serve sink ops (m1, s1) = (ps1, m', s')" "ps = contents m ?sl # ps1"
      using Cons.prems(1) f by (auto simp: Hand Let_def split: prod.splits)
    have o: "length m \<le> length m1 \<and> m1 ! 0 = m ! 0 \<and> apart m1 (kept s1) \<and>
        map (contents m1) (kept s1) = map (contents m) (kept s) @ [contents m ?sl]"
      using owns [OF f] Cons.prems(2-4) by (simp add: Hand)
    then have "m1 \<noteq> []" using Cons.prems(3) by auto
    with Cons.IH [OF ps1(1)] o Cons.prems(2) ps1(2) show ?thesis by (simp add: Hand)
  qed
qed simp

end

lemma made_owns:
  assumes "make_slice m (len p) = (m1, cp)" and "array p < length m" and "len p \<le> length (m ! array p)" and "apart m sls"
  shows "length m \<le> length (copy_slice m1 cp p) \<and> copy_slice m1 cp p ! 0 = m ! 0 \<and> apart (copy_slice m1 cp p) (sls @ [cp]) \<and>
    map (contents (copy_slice m1 cp p)) (sls @ [cp]) = map (contents m) sls @ [contents m p]"
proof -
  note c = copy_made [OF assms(1-3)]
  have "m1 = m @ [replicate (len p) 0]" using assms(1) by (simp add: make_slice_def alloc_def)
  moreover have "0 < length m" using assms(2) by (cases m) simp_all
  ultimately have "copy_slice m1 cp p ! 0 = m ! 0" using c(2) by (simp add: copy_slice_def nth_append)
  moreover have "0 < array cp" using c(2) assms(2) by (cases m) simp_all
  ultimately show ?thesis using assms(4) c by (auto simp: apart_def)
qed

interpretation copied_broker: owning_sink "mem_CopyingSink broker" "\<lambda>q. q"
  by unfold_locales (auto simp: mem_CopyingSink_def broker_def dest: made_owns split: prod.splits)

interpretation recorder: owning_sink mem_RecordingSink m_payloads
  by unfold_locales (auto simp: mem_RecordingSink_def dest: made_owns split: prod.splits)

section \<open>The conformance test\<close>

datatype verdict = Errorf string | Fatalf string

text \<open>\<open>calls\<close> is a history variable: the names of the calls made and how they ended.\<close>

record 's test =
  world_of :: "memory \<times> 's"
  report :: "verdict list"
  aborted :: bool
  calls :: "(string \<times> call_end) list"

text \<open>
  The closure \<^verbatim>\<open>call\<close>: \<^verbatim>\<open>Flush\<close> on a goroutine of its own under a deadline of two seconds; a panic is
  recovered and reported; a call that is not back after five seconds aborts the test, and
  \<^verbatim>\<open>t.Fatalf\<close> runs nothing that comes after it.
\<close>

definition call :: "'s mem_sink \<Rightarrow> string \<Rightarrow> slice \<Rightarrow> 's test \<Rightarrow> 's test" where
  "call s name payload t =
     (if aborted t then t
      else
        let cctx = WithTimeout Background 2000000000 in
        case s cctx payload (world_of t) of (st, e) \<Rightarrow>
          let t1 = t\<lparr>world_of := st, calls := calls t @ [(name, e)]\<rparr> in
          case e of
            Returned err \<Rightarrow> t1
          | Panicked \<Rightarrow> t1\<lparr>report := report t @ [Errorf name]\<rparr>
          | Blocked \<Rightarrow> t1\<lparr>report := report t @ [Fatalf name], aborted := True\<rparr>)"

definition lit :: "string \<Rightarrow> bytes" where
  "lit cs = map of_char cs"

text \<open>A call with a new slice, skipped with all that follows once the test is aborted.\<close>

definition call_new :: "'s mem_sink \<Rightarrow> string \<Rightarrow> bytes \<Rightarrow> 's test \<Rightarrow> 's test" where
  "call_new s name bs t =
     (if aborted t then t
      else case alloc (fst (world_of t)) bs of (m, sl) \<Rightarrow> call s name sl (t\<lparr>world_of := (m, snd (world_of t))\<rparr>))"

text \<open>The buffer-reuse part: one buffer is flushed, zeroed and flushed again.\<close>

definition reuse_calls :: "'s mem_sink \<Rightarrow> bytes \<Rightarrow> 's test \<Rightarrow> 's test" where
  "reuse_calls s bs t =
     (case alloc (fst (world_of t)) bs of (m, buf) \<Rightarrow>
      let t1 = call s ''before-mutation'' buf (t\<lparr>world_of := (m, snd (world_of t))\<rparr>) in
      if aborted t1 then t1
      else
        let m1 = (fst (world_of t1))[array buf := replicate (len buf) 0] in
        call s ''after-mutation'' buf (t1\<lparr>world_of := (m1, snd (world_of t1))\<rparr>))"

definition TestSink :: "'s mem_sink \<Rightarrow> memory \<times> 's \<Rightarrow> 's test" where
  "TestSink s st =
     (let t0 = \<lparr>world_of = st, report = [], aborted = False, calls = []\<rparr>;
          t1 = call_new s ''normal'' (lit ''conformance payload'') t0;
          t2 = call_new s ''empty'' [] t1;
          t3 = call s ''nil'' nil_slice t2;
          t4 = call_new s ''repeated#1'' (lit ''again'') t3;
          t5 = call_new s ''repeated#2'' (lit ''again'') t4 in
      if aborted t5 then t5 else reuse_calls s (lit ''mutable payload buffer'') t5)"

definition call_names :: "string list" where
  "call_names = [''normal'', ''empty'', ''nil'', ''repeated#1'', ''repeated#2'', ''before-mutation'', ''after-mutation'']"

definition verdict_of :: "string \<times> call_end \<Rightarrow> verdict list" where
  "verdict_of = (\<lambda>(name, e). case e of Returned _ \<Rightarrow> [] | Panicked \<Rightarrow> [Errorf name] | Blocked \<Rightarrow> [Fatalf name])"

text \<open>The state of the test after its first \<open>k\<close> calls.\<close>

definition tested :: "nat \<Rightarrow> 's test \<Rightarrow> bool" where
  "tested k t \<longleftrightarrow> map fst (calls t) = take (length (calls t)) call_names \<and>
     report t = concat (map verdict_of (calls t)) \<and> Blocked \<notin> snd ` set (butlast (calls t)) \<and>
     (if Blocked \<in> snd ` set (calls t) then aborted t else \<not> aborted t \<and> length (calls t) = k)"

lemma tested_world [simp]: "tested k (t\<lparr>world_of := st\<rparr>) = tested k t"
  by (simp add: tested_def)

lemma tested_aborted: "tested k t \<Longrightarrow> aborted t \<Longrightarrow> tested j t"
  by (auto simp: tested_def split: if_splits)

lemma tested_call:
  assumes "tested k t" and "k < length call_names" and "name = call_names ! k"
  shows "tested (Suc k) (call s name sl t)"
proof (cases "aborted t")
  case True
  then show ?thesis using tested_aborted [OF assms(1)] by (simp add: call_def)
next
  case False
  obtain st e where f: "s (WithTimeout Background 2000000000) sl (world_of t) = (st, e)" by fastforce
  have no: "Blocked \<notin> snd ` set (calls t)" and k: "length (calls t) = k"
    and fst: "map fst (calls t) = take k call_names" and rep: "report t = concat (map verdict_of (calls t))"
    using assms(1) False by (auto simp: tested_def split: if_splits)
  have "map fst (calls t @ [(name, e)]) = take (Suc k) call_names"
    using fst assms(2,3) by (simp add: take_Suc_conv_app_nth)
  with False f no k rep show ?thesis
    by (cases e) (auto simp: call_def tested_def verdict_of_def Let_def)
qed

lemma tested_call_new:
  assumes "tested k t" and "k < length call_names" and "name = call_names ! k"
  shows "tested (Suc k) (call_new s name bs t)"
proof (cases "aborted t")
  case True
  then show ?thesis using tested_aborted [OF assms(1)] by (simp add: call_new_def)
next
  case False
  then show ?thesis
    using tested_call [of k "t\<lparr>world_of := x\<rparr>" name for x] assms by (simp add: call_new_def split: prod.split)
qed

lemma tested_reuse:
  assumes "tested 5 t"
  shows "tested 7 (reuse_calls s bs t)"
proof -
  have n: "length call_names = 7" "''before-mutation'' = call_names ! 5" "''after-mutation'' = call_names ! 6"
    by (simp_all add: call_names_def)
  obtain m buf where a: "alloc (fst (world_of t)) bs = (m, buf)" by fastforce
  have t1: "tested 6 (call s ''before-mutation'' buf (t\<lparr>world_of := (m, snd (world_of t))\<rparr>))"
    using tested_call [of 5 "t\<lparr>world_of := (m, snd (world_of t))\<rparr>" _ s buf] assms n by simp
  show ?thesis
    unfolding reuse_calls_def a Let_def prod.case
    using tested_aborted [OF t1, of 7] tested_call [of 6 _ "''after-mutation''" s buf] t1 n by auto
qed

lemma tested_TestSink: "tested 7 (TestSink s st)"
proof -
  note new = tested_call_new [where s = s] and names = call_names_def eval_nat_numeral
  let ?t0 = "\<lparr>world_of = st, report = [], aborted = False, calls = []\<rparr>"
  let ?t1 = "call_new s ''normal'' (lit ''conformance payload'') ?t0"
  let ?t2 = "call_new s ''empty'' [] ?t1"
  let ?t3 = "call s ''nil'' nil_slice ?t2"
  let ?t4 = "call_new s ''repeated#1'' (lit ''again'') ?t3"
  let ?t5 = "call_new s ''repeated#2'' (lit ''again'') ?t4"
  have "tested 0 ?t0" by (simp add: tested_def)
  then have "tested 1 ?t1" using new [of 0 ?t0] by (simp add: names)
  then have "tested 2 ?t2" using new [of 1 ?t1] by (simp add: names)
  then have "tested 3 ?t3" using tested_call [of 2 ?t2] by (simp add: names)
  then have "tested 4 ?t4" using new [of 3 ?t3] by (simp add: names)
  then have t5: "tested 5 ?t5" using new [of 4 ?t4] by (simp add: names)
  show ?thesis
    unfolding TestSink_def Let_def using tested_aborted [OF t5] tested_reuse [OF t5] by simp
qed

section \<open>Properties\<close>

lemma clone_all_copies:
  assumes "clone_all sls m = (m', qs)" and "\<forall>sl \<in> set sls. array sl < length m"
  shows "map (contents m') qs = map (contents m) sls \<and> length m \<le> length m' \<and>
    (\<forall>q \<in> set qs. length m \<le> array q) \<and> (\<forall>sl. array sl < length m \<longrightarrow> contents m' sl = contents m sl)"
  using assms
proof (induction sls arbitrary: m qs)
  case (Cons sl sls)
  obtain m1 q where q: "alloc m (contents m sl) = (m1, q)" by fastforce
  obtain qs' where qs: "clone_all sls m1 = (m', qs')" "qs = q # qs'"
    using Cons.prems(1) q by (auto simp: clone_def split: prod.splits)
  note a = contents_alloc [OF q]
  have "\<forall>sl \<in> set sls. array sl < length m1" using Cons.prems(2) a(3) by auto
  from Cons.IH [OF qs(1) this] a Cons.prems(2) qs(2) show ?case by auto
qed simp

text \<open>
  C24: copies make the engine's buffer reuse safe. However the engine overwrites its buffer between and
  after its flushes, a broker client behind \<^verbatim>\<open>CopyingSink\<close>, which transmits its queued slices only
  later, transmits exactly the payloads as they were handed over, in order. The recording sink
  gives them back likewise, and a caller that scribbles over the slices \<^verbatim>\<open>Payloads\<close> returned does not
  change what is recorded.
\<close>

theorem copying_sink_owns_payloads:
  assumes "m \<noteq> []" and "fits (length (m ! 0)) ops"
  shows "(case serve (mem_CopyingSink broker) ops (m, []) of (ps, st) \<Rightarrow> transmits st = ps) \<and>
    (case serve mem_RecordingSink ops (m, \<lparr>m_Err = e, m_payloads = []\<rparr>) of (ps, m1, r) \<Rightarrow>
       case mem_Payloads r m1 of (m2, out) \<Rightarrow>
         map (contents m2) out = ps \<and> mem_Len r = int (length ps) \<and>
         (\<forall>q \<in> set out. \<forall>bs. map (contents (m2[array q := bs])) (m_payloads r) = ps))"
proof
  show "case serve (mem_CopyingSink broker) ops (m, []) of (ps, st) \<Rightarrow> transmits st = ps"
    using copied_broker.serve_keeps [OF _ assms(2,1)] by (auto simp: transmits_def apart_def)
  obtain ps m1 r where s: "serve mem_RecordingSink ops (m, \<lparr>m_Err = e, m_payloads = []\<rparr>) = (ps, m1, r)"
    by (metis prod.exhaust)
  obtain m2 out where c: "mem_Payloads r m1 = (m2, out)" by fastforce
  have k: "apart m1 (m_payloads r)" "map (contents m1) (m_payloads r) = ps"
    using recorder.serve_keeps [OF s assms(2,1)] by (simp_all add: apart_def)
  then have in1: "\<forall>sl \<in> set (m_payloads r). array sl < length m1" by (simp add: apart_def)
  have cl: "map (contents m2) out = ps" "\<forall>q \<in> set out. length m1 \<le> array q"
    "\<forall>sl. array sl < length m1 \<longrightarrow> contents m2 sl = contents m1 sl"
    using clone_all_copies [of "m_payloads r" m1 m2 out] c in1 k(2) by (simp_all add: mem_Payloads_def)
  have "map (contents (m2[array q := bs])) (m_payloads r) = ps" if "q \<in> set out" for q bs
  proof -
    have "contents (m2[array q := bs]) sl = contents m2 sl" if "sl \<in> set (m_payloads r)" for sl
      using that in1 cl(2) \<open>q \<in> set out\<close> by (fastforce simp: contents_def)
    then show ?thesis using cl(3) in1 k(2) by (auto simp flip: k(2))
  qed
  moreover have "mem_Len r = int (length ps)" by (simp add: mem_Len_def flip: k(2))
  ultimately show "case serve mem_RecordingSink ops (m, \<lparr>m_Err = e, m_payloads = []\<rparr>) of (ps, m1, r) \<Rightarrow>
       case mem_Payloads r m1 of (m2, out) \<Rightarrow>
         map (contents m2) out = ps \<and> mem_Len r = int (length ps) \<and>
         (\<forall>q \<in> set out. \<forall>bs. map (contents (m2[array q := bs])) (m_payloads r) = ps)"
    using s c cl(1) by simp
qed

text \<open>Without the copy the same broker transmits what the buffer holds later.\<close>

theorem copying_sink_owns_payloads_witness:
  "serve broker [Overwrite [1, 2], Hand 2, Overwrite [3, 4], Hand 1] ([[0, 0]], []) =
     ([[1, 2], [3]], [[3, 4]], [\<lparr>array = 0, len = 2\<rparr>, \<lparr>array = 0, len = 1\<rparr>]) \<and>
   transmits ([[3, 4]], [\<lparr>array = 0, len = 2\<rparr>, \<lparr>array = 0, len = 1\<rparr>]) = [[3, 4], [3]] \<and>
   (case serve (mem_CopyingSink broker) [Overwrite [1, 2], Hand 2, Overwrite [3, 4], Hand 1] ([[0, 0]], []) of
      (ps, st) \<Rightarrow> ps = [[1, 2], [3]] \<and> transmits st = ps)"
proof -
  have "fits (length ([[0, 0]] ! 0)) [Overwrite [1, 2], Hand 2, Overwrite [3, 4], Hand 1]" by simp
  from copying_sink_owns_payloads [OF _ this, THEN conjunct1]
  show ?thesis
    by (simp add: broker_def transmits_def contents_def split: prod.splits)
      (simp add: mem_CopyingSink_def broker_def make_slice_def alloc_def copy_slice_def contents_def overwrite_def)
qed

text \<open>
  C32: the verdict of the conformance test. For any sink \<^verbatim>\<open>TestSink\<close> makes its seven calls in order,
  reports exactly the panics, and stops at the first call that does not come back, which it
  reports as fatal; when all seven return it reports nothing, whatever errors they return. It cannot
  see a retained slice: the broker client passes, and transmits zeros for the payload whose buffer
  the test overwrote, while behind \<^verbatim>\<open>CopyingSink\<close> it transmits the payload.
\<close>

theorem TestSink_verdict:
  "map fst (calls (TestSink s st)) = take (length (calls (TestSink s st))) call_names \<and>
   report (TestSink s st) = concat (map verdict_of (calls (TestSink s st))) \<and>
   Blocked \<notin> snd ` set (butlast (calls (TestSink s st))) \<and>
   (if Blocked \<in> snd ` set (calls (TestSink s st)) then aborted (TestSink s st) else length (calls (TestSink s st)) = 7) \<and>
   report (TestSink broker ([], [])) = [] \<and>
   transmits (world_of (TestSink broker ([], []))) ! 5 = replicate 22 0 \<and>
   transmits (world_of (TestSink (mem_CopyingSink broker) ([], []))) ! 5 = lit ''mutable payload buffer''"
proof -
  have "tested 7 (TestSink s st)" by (rule tested_TestSink)
  moreover have "report (TestSink broker ([], [])) = []" by code_simp
  moreover have "transmits (world_of (TestSink broker ([], []))) ! 5 = replicate 22 0" by code_simp
  moreover have "transmits (world_of (TestSink (mem_CopyingSink broker) ([], []))) ! 5 = lit ''mutable payload buffer''" by code_simp
  ultimately show ?thesis by (auto simp: tested_def split: if_splits)
qed

end
