(* ===== verification/Decoder_Memory.thy ===== *)
theory Decoder_Memory
  imports Wire_Stream Buffer_Reuse
begin

text \<open>
  \<^verbatim>\<open>codec.go\<close> over memory: which slices \<^verbatim>\<open>DeltaReconstructor.Reconstruct\<close> keeps and hands out. In the other
  theories frames and the baseline are values; here they are slices of arrays, as in
  \<open>Buffer_Reuse\<close>. The decoder copies what it is given, so the receive buffer may be reused, and it
  hands out the very slice it keeps as its baseline.
\<close>

section \<open>Reconstruct\<close>

text \<open>\<open>prv\<close> is the slice \<^verbatim>\<open>d.prev\<close>.\<close>

definition mem_Reconstruct ::
  "slice \<Rightarrow> slice \<Rightarrow> memory \<Rightarrow> memory \<times> slice \<times> (codec_error + slice \<times> Header)" where
  "mem_Reconstruct prv frame m =
     (if len frame < headerSize then (m, prv, Inl ErrShortFrame)
      else
        case (case ParseHeader (contents m frame) of
                Inl _ \<Rightarrow> None
              | Inr hk \<Rightarrow> if Keyframe hk \<and> crcOK (drop headerSize (contents m frame)) (CRC hk) then Some hk else None) of
          Some hk \<Rightarrow>
            (case make_slice m (len frame) of (m1, raw) \<Rightarrow> (copy_slice m1 raw frame, raw, Inr (raw, hk)))
        | None \<Rightarrow>
            (case make_slice m (len frame) of (m1, raw) \<Rightarrow>
             let m2 = m1[array raw := map (\<lambda>i. contents m1 frame ! i XOR (if i < len prv then contents m1 prv ! i else 0)) [0..<len frame]] in
             case ParseHeader (contents m2 raw) of
               Inl err \<Rightarrow> (m2, prv, Inl err)
             | Inr h \<Rightarrow>
                 if \<not> crcOK (drop headerSize (contents m2 raw)) (CRC h) then (m2, prv, Inl ErrCRCMismatch)
                 else (m2, raw, Inr (raw, h))))"

text \<open>A slice that lies in memory.\<close>

definition within :: "memory \<Rightarrow> slice \<Rightarrow> bool" where
  "within m sl \<longleftrightarrow> array sl < length m \<and> len sl \<le> length (m ! array sl)"

lemma length_contents: "within m sl \<Longrightarrow> length (contents m sl) = len sl"
  by (simp add: within_def contents_def)

lemma contents_append: "array sl < length m \<Longrightarrow> contents (m @ xs) sl = contents m sl"
  by (simp add: contents_def nth_append)

text \<open>One new array is made; it holds the frame or its XOR with the baseline.\<close>

definition frame_key :: "bytes \<Rightarrow> Header option" where
  "frame_key f = (case ParseHeader f of Inl _ \<Rightarrow> None
    | Inr hk \<Rightarrow> if Keyframe hk \<and> crcOK (drop headerSize f) (CRC hk) then Some hk else None)"

lemma mem_Reconstruct_eq:
  assumes fr: "within m frame" and pr: "within m prv"
  shows "mem_Reconstruct prv frame m =
    (let f = contents m frame; x = delta_decode (contents m prv) f; raw = \<lparr>array = length m, len = len frame\<rparr> in
     if length f < headerSize then (m, prv, Inl ErrShortFrame)
     else case frame_key f of
         Some hk \<Rightarrow> (m @ [f], raw, Inr (raw, hk))
       | None \<Rightarrow>
           (case ParseHeader x of
              Inl err \<Rightarrow> (m @ [x], prv, Inl err)
            | Inr h \<Rightarrow> if \<not> crcOK (drop headerSize x) (CRC h) then (m @ [x], prv, Inl ErrCRCMismatch) else (m @ [x], raw, Inr (raw, h))))"
proof -
  let ?f = "contents m frame" and ?p = "contents m prv" and ?raw = "\<lparr>array = length m, len = len frame\<rparr>"
  let ?x = "delta_decode ?p ?f"
  have len: "length ?f = len frame" "length ?p = len prv" using fr pr by (simp_all add: length_contents)
  have mk: "make_slice m (len frame) = (m @ [replicate (len frame) 0], ?raw)" by (simp add: make_slice_def alloc_def)
  have old: "contents (m @ [x]) frame = ?f" "contents (m @ [x]) prv = ?p" for x
    using fr pr by (simp_all add: contents_append within_def)
  have copy: "copy_slice (m @ [replicate (len frame) 0]) ?raw frame = m @ [?f]"
    using len old by (simp add: copy_slice_def overwrite_def)
  have x: "map (\<lambda>i. ?f ! i XOR (if i < len prv then ?p ! i else 0)) [0..<len frame] = ?x" "length ?x = len frame"
    using len by (simp_all add: delta_decode_def)
  have upd: "(m @ [replicate (len frame) 0])[array ?raw := ?x] = m @ [?x]" by simp
  have made: "contents (m @ [?x]) ?raw = ?x" using x(2) by (simp add: contents_def)
  show ?thesis
    unfolding mem_Reconstruct_def mk prod.case old x(1) upd copy made Let_def frame_key_def [symmetric] len(1) ..
qed

lemma Reconstruct_eq:
  "Reconstruct d f =
    (let x = delta_decode (prev d) f in
     if length f < headerSize then (d, Inl ErrShortFrame)
     else case frame_key f of
         Some hk \<Rightarrow> (\<lparr>prev = f\<rparr>, Inr (f, hk))
       | None \<Rightarrow>
           (case ParseHeader x of
              Inl err \<Rightarrow> (d, Inl err)
            | Inr h \<Rightarrow> if \<not> crcOK (drop headerSize x) (CRC h) then (d, Inl ErrCRCMismatch) else (\<lparr>prev = x\<rparr>, Inr (x, h))))"
  by (auto simp: Reconstruct_def frame_key_def Let_def split: sum.split)

text \<open>\<open>mem_Reconstruct\<close> is \<open>Reconstruct\<close> on the contents; what it hands out is a new array, equal to the
  new baseline, and nothing else changes.\<close>

lemma mem_Reconstruct_value:
  assumes fr: "within m frame" and pr: "within m prv"
    and eq: "mem_Reconstruct prv frame m = (m', prv', res)" and val: "Reconstruct \<lparr>prev = contents m prv\<rparr> (contents m frame) = (d', v)"
  shows "prev d' = contents m' prv' \<and> map_sum (\<lambda>e. e) (\<lambda>(sl, h). (contents m' sl, h)) res = v \<and>
    (\<exists>new. m' = m @ new) \<and> within m' prv' \<and> (prv' = prv \<or> array prv' = length m) \<and>
    (\<forall>sl h. res = Inr (sl, h) \<longrightarrow> within m' sl \<and> array sl = length m)"
proof -
  let ?f = "contents m frame" and ?x = "delta_decode (contents m prv) (contents m frame)"
  let ?raw = "\<lparr>array = length m, len = len frame\<rparr>"
  have len: "length ?f = len frame" "length ?x = len frame" using fr by (simp_all add: length_contents delta_decode_def)
  have made: "contents (m @ [y]) ?raw = y \<and> within (m @ [y]) ?raw" if "length y = len frame" for y
    using that by (simp add: contents_def within_def)
  have kept: "contents (m @ [y]) prv = contents m prv \<and> within (m @ [y]) prv" for y
    using pr by (simp add: contents_append within_def nth_append)
  from eq val made [OF len(1)] made [OF len(2)] kept pr show ?thesis
    unfolding mem_Reconstruct_eq [OF fr pr] Reconstruct_eq Let_def DeltaReconstructor.simps
    by (auto split: if_splits option.splits sum.splits)
qed

section \<open>A receiver\<close>

text \<open>
  The application reads frames into array 0 (\<open>Fill\<close>) and passes a prefix of it to the decoder
  (\<open>Feed\<close>); with \<open>Scribble\<close> it writes to another array it has a slice of.
\<close>

datatype decode_op = Fill bytes | Feed nat | Scribble nat bytes

fun decode_run :: "decode_op list \<Rightarrow> memory \<Rightarrow> slice \<Rightarrow> (codec_error + slice \<times> Header) list \<times> memory" where
  "decode_run [] m prv = ([], m)"
| "decode_run (Fill bs # ops) m prv = decode_run ops (m[0 := bs]) prv"
| "decode_run (Scribble a bs # ops) m prv = decode_run ops (m[a := bs]) prv"
| "decode_run (Feed n # ops) m prv =
     (case mem_Reconstruct prv \<lparr>array = 0, len = n\<rparr> m of (m1, prv1, res) \<Rightarrow>
      case decode_run ops m1 prv1 of (rs, m2) \<Rightarrow> (res # rs, m2))"

text \<open>The frames fed, when no other array is written and every prefix lies in the buffer.\<close>

fun fed :: "bytes \<Rightarrow> decode_op list \<Rightarrow> bytes list option" where
  "fed buf [] = Some []"
| "fed buf (Fill bs # ops) = fed bs ops"
| "fed buf (Scribble a bs # ops) = None"
| "fed buf (Feed n # ops) = (if n \<le> length buf then map_option ((#) (take n buf)) (fed buf ops) else None)"

text \<open>\<^verbatim>\<open>d.prev\<close> is nil or a slice of an array of its own.\<close>

definition own_slice :: "memory \<Rightarrow> slice \<Rightarrow> bool" where
  "own_slice m sl \<longleftrightarrow> within m sl \<and> (0 < array sl \<or> len sl = 0)"

lemma own_fill:
  assumes "own_slice m sl"
  shows "own_slice (m[0 := bs]) sl" and "contents (m[0 := bs]) sl = contents m sl"
proof -
  have "0 < length m" using assms by (cases m) (auto simp: own_slice_def within_def)
  with assms show "own_slice (m[0 := bs]) sl" "contents (m[0 := bs]) sl = contents m sl"
    by (cases "array sl = 0"; auto simp: own_slice_def within_def contents_def)+
qed

lemma own_append: "own_slice m sl \<Longrightarrow> own_slice (m @ new) sl \<and> contents (m @ new) sl = contents m sl"
  by (auto simp: own_slice_def within_def contents_def nth_append)

lemma feed_step:
  assumes "m \<noteq> []" and "n \<le> length (m ! 0)" and "own_slice m prv"
    and "mem_Reconstruct prv \<lparr>array = 0, len = n\<rparr> m = (m1, prv1, res)"
    and "Reconstruct \<lparr>prev = contents m prv\<rparr> (take n (m ! 0)) = (d1, v)"
  shows "d1 = \<lparr>prev = contents m1 prv1\<rparr> \<and> map_sum (\<lambda>e. e) (\<lambda>(sl, h). (contents m1 sl, h)) res = v \<and>
    (\<exists>new. m1 = m @ new) \<and> own_slice m1 prv1 \<and> (\<forall>sl h. res = Inr (sl, h) \<longrightarrow> own_slice m1 sl)"
proof -
  have "within m \<lparr>array = 0, len = n\<rparr>" "within m prv" "contents m \<lparr>array = 0, len = n\<rparr> = take n (m ! 0)"
    using assms(1-3) by (simp_all add: within_def own_slice_def contents_def)
  from mem_Reconstruct_value [OF this(1,2) assms(4)] assms(1,3,5) this(3) show ?thesis
    by (auto simp: own_slice_def)
qed

lemma decode_run_keeps:
  assumes "decode_run ops m prv = (rs, m')" and "fed (m ! 0) ops = Some fs" and "m \<noteq> []" and "own_slice m prv"
  shows "(\<forall>sl. own_slice m sl \<longrightarrow> contents m' sl = contents m sl) \<and>
    map (map_sum (\<lambda>e. e) (\<lambda>(sl, h). (contents m' sl, h))) rs = snd (receive \<lparr>prev = contents m prv\<rparr> fs)"
  using assms
proof (induction ops arbitrary: m prv rs fs)
  case (Cons op ops)
  show ?case
  proof (cases op)
    case (Fill bs)
    with Cons.prems Cons.IH [of "m[0 := bs]" prv rs fs] own_fill [of m] show ?thesis by auto
  next
    case (Feed n)
    obtain m1 prv1 res where r: "mem_Reconstruct prv \<lparr>array = 0, len = n\<rparr> m = (m1, prv1, res)" by (metis prod.exhaust)
    obtain d1 v where v: "Reconstruct \<lparr>prev = contents m prv\<rparr> (take n (m ! 0)) = (d1, v)" by (metis prod.exhaust)
    from Cons.prems(2) Feed obtain fs1 where fs: "n \<le> length (m ! 0)" "fed (m ! 0) ops = Some fs1" "fs = take n (m ! 0) # fs1"
      by (auto split: if_splits)
    obtain rs1 where rs1: "decode_run ops m1 prv1 = (rs1, m')" "rs = res # rs1"
      using Cons.prems(1) Feed r by (auto split: prod.splits)
    note st = feed_step [OF Cons.prems(3) fs(1) Cons.prems(4) r v]
    then have m1: "m1 \<noteq> []" "m1 ! 0 = m ! 0" using Cons.prems(3) by (auto simp: nth_append)
    from Cons.IH [OF rs1(1) _ m1(1)] st fs(2) m1(2)
    have IH: "\<forall>sl. own_slice m1 sl \<longrightarrow> contents m' sl = contents m1 sl"
      "map (map_sum (\<lambda>e. e) (\<lambda>(sl, h). (contents m' sl, h))) rs1 = snd (receive d1 fs1)" by simp_all
    have "map_sum (\<lambda>e. e) (\<lambda>(sl, h). (contents m' sl, h)) res = v"
      using IH(1) st by (cases res) auto
    moreover have "contents m' sl = contents m sl" if "own_slice m sl" for sl
      using that IH(1) st own_append [OF that] by auto
    ultimately show ?thesis using IH(2) v fs(3) rs1(2) by (simp split: prod.split)
  qed (use Cons.prems in simp)
qed simp

section \<open>Properties\<close>

text \<open>
  C30: the decoder owns its baseline. An application that reuses its receive buffer for every
  frame, and does not write to the slices it gets, receives from the decoder over memory exactly
  what the decoder over values gives on the frames fed, and every slice handed out still holds its
  frame at the end of the run.
\<close>

theorem decoder_owns_baseline:
  assumes "decode_run ops [buf] nil_slice = (rs, m')" and "fed buf ops = Some fs"
  shows "map (map_sum (\<lambda>e. e) (\<lambda>(sl, h). (contents m' sl, h))) rs = snd (receive \<lparr>prev = []\<rparr> fs)"
  using decode_run_keeps [OF assms(1), of fs] assms(2) by (simp add: own_slice_def within_def nil_slice_def contents_def)

text \<open>A keyframe with item 5 and the delta of the next frame, with item 6.\<close>

definition first_frame :: bytes where
  "first_frame = mk_frame 1 1 (integrity_tag True [5]) [5]"

definition second_frame :: bytes where
  "second_frame = mk_frame 2 1 (integrity_tag False [6]) [6]"

definition second_delta :: bytes where
  "second_delta = delta_decode first_frame second_frame"

theorem decoder_owns_baseline_witness:
  "let (rs, m') = decode_run [Fill first_frame, Feed 9, Fill second_delta, Feed 9] [[]] nil_slice in
   map (map_sum (\<lambda>e. e) (\<lambda>(sl, h). (contents m' sl, h))) rs = snd (receive \<lparr>prev = []\<rparr> [first_frame, second_delta])"
proof -
  let ?ops = "[Fill first_frame, Feed 9, Fill second_delta, Feed 9]"
  have "fed [] ?ops = Some [first_frame, second_delta]" by code_simp
  moreover obtain rs m' where "decode_run ?ops [[]] nil_slice = (rs, m')" by fastforce
  ultimately show ?thesis using decoder_owns_baseline [of ?ops "[]" rs m'] by (simp only: prod.case Let_def)
qed

text \<open>Two baselines that decode a frame to the same bytes agree on its length.\<close>

lemma delta_decode_baseline:
  assumes "delta_decode p f = delta_decode q f"
  shows "zext p (length f) = zext q (length f)"
proof (rule nth_equalityI)
  fix i
  assume "i < length (zext p (length f))"
  then have i: "i < length f" by simp
  have dec: "delta_decode r f ! i = f ! i XOR zext r (length f) ! i" for r
    using i by (simp add: delta_decode_def nth_zext)
  have "f ! i XOR (f ! i XOR zext p (length f) ! i) = f ! i XOR (f ! i XOR zext q (length f) ! i)"
    using dec [of p] dec [of q] assms by simp
  then show "zext p (length f) ! i = zext q (length f) ! i" by (simp flip: xor.assoc)
qed simp

text \<open>A frame that is not a keyframe decodes to its XOR with the baseline, or not at all.\<close>

lemma delta_result: "frame_key f = None \<Longrightarrow> snd (Reconstruct \<lparr>prev = p\<rparr> f) = Inr (x, h) \<Longrightarrow> x = delta_decode p f"
  by (auto simp: Reconstruct_eq Let_def split: if_splits sum.splits)

text \<open>
  C37: the slice \<^verbatim>\<open>Reconstruct\<close> returns is not the caller's alone: it is the one the decoder keeps
  as its baseline. After any frame that was accepted, an application that overwrites the bytes it
  received with \<open>z\<close> makes the decoder treat every next frame \<open>f\<close> as if \<open>z\<close> had been received. If \<open>f\<close> is
  not a keyframe and \<open>z\<close> differs from the received bytes within the length of \<open>f\<close>, the decoder
  rejects \<open>f\<close> or returns other bytes than those that the sender encoded.
\<close>

theorem returned_frame_shared:
  assumes "m \<noteq> []" and "own_slice m prv" and "n \<le> length (m ! 0)"
    and "mem_Reconstruct prv \<lparr>array = 0, len = n\<rparr> m = (m1, prv1, Inr (sl, h))" and "length z = len sl"
    and "mem_Reconstruct prv1 \<lparr>array = 0, len = length f\<rparr> (m1[array sl := z, 0 := f]) = (m2, prv2, res)"
  shows "prv1 = sl \<and>
    map_sum (\<lambda>e. e) (\<lambda>(sl, h). (contents m2 sl, h)) res = snd (Reconstruct \<lparr>prev = z\<rparr> f) \<and>
    (frame_key f = None \<and> zext z (length f) \<noteq> zext (contents m1 sl) (length f) \<longrightarrow>
      (\<forall>sl2 h2. res = Inr (sl2, h2) \<longrightarrow> contents m2 sl2 \<noteq> delta_decode (contents m1 sl) f))"
proof -
  have fr: "within m \<lparr>array = 0, len = n\<rparr>" "within m prv" using assms(1-3) by (simp_all add: within_def own_slice_def)
  have sl: "prv1 = sl" "array sl = length m" "length m1 = Suc (length m)"
    using assms(4) unfolding mem_Reconstruct_eq [OF fr] Let_def by (auto split: if_splits option.splits sum.splits)
  let ?m = "m1[array sl := z, 0 := f]"
  have pos: "0 < length m" using assms(1) by simp
  have "?m ! array sl = z" "?m ! 0 = f" using sl pos by auto
  then have now: "contents ?m sl = z" "contents ?m \<lparr>array = 0, len = length f\<rparr> = f"
    "within ?m sl" "within ?m \<lparr>array = 0, len = length f\<rparr>"
    using sl pos assms(5) by (simp_all add: contents_def within_def)
  obtain d v where v: "Reconstruct \<lparr>prev = z\<rparr> f = (d, v)" by fastforce
  have val: "map_sum (\<lambda>e. e) (\<lambda>(sl, h). (contents m2 sl, h)) res = snd (Reconstruct \<lparr>prev = z\<rparr> f)"
    using mem_Reconstruct_value [OF now(4,3) assms(6) [unfolded sl(1)], unfolded now(1,2), OF v] v by simp
  have "contents m2 sl2 \<noteq> delta_decode (contents m1 sl) f"
    if "frame_key f = None" "zext z (length f) \<noteq> zext (contents m1 sl) (length f)" "res = Inr (sl2, h2)" for sl2 h2
  proof -
    have "contents m2 sl2 = delta_decode z f" using delta_result [OF that(1), of z] val that(3) by (metis map_sum.simps(2) prod.case)
    with delta_decode_baseline [of z f "contents m1 sl"] that(2) show ?thesis by auto
  qed
  with sl(1) val show ?thesis by blast
qed

text \<open>Clearing the keyframe makes the decoder reject the delta that it accepts otherwise.\<close>

theorem returned_frame_shared_witness:
  "map_sum (\<lambda>e. e) (\<lambda>_. ()) (snd (Reconstruct \<lparr>prev = first_frame\<rparr> second_delta)) = Inr () \<and>
   (let (m1, prv1, res1) = mem_Reconstruct nil_slice \<lparr>array = 0, len = 9\<rparr> [first_frame];
        (m2, prv2, res2) = mem_Reconstruct prv1 \<lparr>array = 0, len = 9\<rparr> (m1[1 := replicate 9 0, 0 := second_delta]) in
    map_sum (\<lambda>e. e) (\<lambda>(sl, h). (contents m2 sl, h)) res2 = Inl ErrCRCMismatch)"
proof -
  obtain m1 prv1 sl h where r1: "mem_Reconstruct nil_slice \<lparr>array = 0, len = 9\<rparr> [first_frame] = (m1, prv1, Inr (sl, h))"
    and sl: "array sl = 1" "len sl = 9"
  proof -
    have "\<not> Option.is_none (case mem_Reconstruct nil_slice \<lparr>array = 0, len = 9\<rparr> [first_frame] of
        (m1, prv1, Inr (sl, h)) \<Rightarrow> if array sl = 1 \<and> len sl = 9 then Some () else None | _ \<Rightarrow> None)" by code_simp
    with that show thesis by (auto simp: Option.is_none_def split: prod.splits sum.splits if_splits)
  qed
  obtain m2 prv2 res2 where r2: "mem_Reconstruct prv1 \<lparr>array = 0, len = length second_delta\<rparr>
      (m1[array sl := replicate 9 0, 0 := second_delta]) = (m2, prv2, res2)" by (metis prod.exhaust)
  have len: "length second_delta = 9" "9 \<le> length ([first_frame] ! 0)" by code_simp+
  have own: "own_slice [first_frame] nil_slice" by (simp add: own_slice_def within_def nil_slice_def)
  have "map_sum (\<lambda>e. e) (\<lambda>(sl, h). (contents m2 sl, h)) res2 = snd (Reconstruct \<lparr>prev = replicate 9 0\<rparr> second_delta)"
    using returned_frame_shared [OF _ own len(2) r1 _ r2] sl by simp
  moreover have "map_sum (\<lambda>e. e) (\<lambda>_. ()) (snd (Reconstruct \<lparr>prev = first_frame\<rparr> second_delta)) = Inr ()"
    "snd (Reconstruct \<lparr>prev = replicate 9 0\<rparr> second_delta) = Inl ErrCRCMismatch" by code_simp+
  ultimately show ?thesis using r1 r2 sl(1) len(1) by simp
qed

end
