(* ===== verification/Observability.thy ===== *)
theory Observability
  imports Engine_Config
begin

text \<open>
  The two adapters under \<^verbatim>\<open>contrib/\<close>: the Prometheus collector (\<^verbatim>\<open>tickbatchprom/prom.go\<close>) and the
  expvar snapshot (\<^verbatim>\<open>tickbatchexpvar/expvar.go\<close>). Code of the Prometheus client is a parameter:
  \<open>buildFQName\<close> joins the parts of a metric name, and \<open>float64\<close> is the conversion of an integer
  to a float of type \<open>'f\<close>.
\<close>

section \<open>tickbatchprom\<close>

record Desc =
  fqName :: string
  help_text :: string

datatype valueType = CounterValue | GaugeValue

type_synonym 'f metric = "Desc \<times> valueType \<times> 'f"

record Collector =
  c_dropped :: Desc
  c_evicted :: Desc
  c_truncated :: Desc
  c_flushedBatches :: Desc
  c_flushedItems :: Desc
  c_flushErrors :: Desc
  c_bytesFlushed :: Desc
  c_coalescedTicks :: Desc
  c_queueDepth :: Desc
  c_queueCap :: Desc
  c_lastFlush :: Desc

definition NewCollector :: "(string \<Rightarrow> string \<Rightarrow> string \<Rightarrow> string) \<Rightarrow> string \<Rightarrow> Collector" where
  "NewCollector buildFQName namespace =
     (let fq = (\<lambda>name. buildFQName namespace ''tickbatch'' name) in
      \<lparr>c_dropped = \<lparr>fqName = fq ''dropped_total'', help_text = ''Items dropped on a full queue (DropNewest).''\<rparr>,
       c_evicted = \<lparr>fqName = fq ''evicted_total'', help_text = ''Items evicted from the queue head (DropOldest).''\<rparr>,
       c_truncated = \<lparr>fqName = fq ''truncated_total'', help_text = ''Items discarded because Marshal returned an invalid size.''\<rparr>,
       c_flushedBatches = \<lparr>fqName = fq ''flushed_batches_total'', help_text = ''Batches delivered to the sink.''\<rparr>,
       c_flushedItems = \<lparr>fqName = fq ''flushed_items_total'', help_text = ''Items delivered to the sink.''\<rparr>,
       c_flushErrors = \<lparr>fqName = fq ''flush_errors_total'', help_text = ''Failed or timed-out sink flushes.''\<rparr>,
       c_bytesFlushed = \<lparr>fqName = fq ''bytes_flushed_total'', help_text = ''Payload bytes delivered to the sink.''\<rparr>,
       c_coalescedTicks = \<lparr>fqName = fq ''coalesced_ticks_total'',
         help_text = ''Drain cycles skipped because a flush overran the tick interval.''\<rparr>,
       c_queueDepth = \<lparr>fqName = fq ''queue_depth'', help_text = ''Best-effort count of items currently queued.''\<rparr>,
       c_queueCap = \<lparr>fqName = fq ''queue_capacity'', help_text = ''Ring buffer capacity.''\<rparr>,
       c_lastFlush = \<lparr>fqName = fq ''last_flush_timestamp_seconds'',
         help_text = ''Unix time of the last successful flush (0 if never).''\<rparr>\<rparr>)"

text \<open>What is sent on the channel, in order.\<close>

definition Describe :: "Collector \<Rightarrow> Desc list" where
  "Describe c = [c_dropped c, c_evicted c, c_truncated c, c_flushedBatches c, c_flushedItems c, c_flushErrors c,
     c_bytesFlushed c, c_coalescedTicks c, c_queueDepth c, c_queueCap c, c_lastFlush c]"

text \<open>\<^verbatim>\<open>time.Time.Unix\<close>, for a time in nanoseconds.\<close>

definition unix_seconds :: "int \<Rightarrow> int" where
  "unix_seconds ns = ns div 1000000000"

definition Collect_prom :: "(int \<Rightarrow> 'f) \<Rightarrow> Collector \<Rightarrow> stats \<Rightarrow> 'f metric list" where
  "Collect_prom float64 c s =
     (let counter = (\<lambda>d v. (d, CounterValue, float64 (uint (v :: u64))));
          gauge = (\<lambda>d v. (d, GaugeValue, v));
          lastFlush = (case sLastFlushAt s of None \<Rightarrow> float64 0 | Some t \<Rightarrow> float64 (unix_seconds t)) in
      [counter (c_dropped c) (sDropped s), counter (c_evicted c) (sEvicted s),
       counter (c_truncated c) (sTruncated s), counter (c_flushedBatches c) (sFlushedBatches s),
       counter (c_flushedItems c) (sFlushedItems s), counter (c_flushErrors c) (sFlushErrors s),
       counter (c_bytesFlushed c) (sBytesFlushed s), counter (c_coalescedTicks c) (sCoalescedTicks s),
       gauge (c_queueDepth c) (float64 (uint (sQueueDepth s))), gauge (c_queueCap c) (float64 (uint (sQueueCap s))),
       gauge (c_lastFlush c) lastFlush])"

section \<open>tickbatchexpvar\<close>

record snapshot =
  x_dropped :: u64
  x_evicted :: u64
  x_truncated :: u64
  x_flushed_batches :: u64
  x_flushed_items :: u64
  x_flush_errors :: u64
  x_bytes_flushed :: u64
  x_coalesced_ticks :: u64
  x_queue_depth :: u64
  x_queue_capacity :: u64
  x_last_flush_unix :: int

definition Var :: "stats \<Rightarrow> snapshot" where
  "Var s =
     (let lastFlush = (case sLastFlushAt s of None \<Rightarrow> 0 | Some t \<Rightarrow> unix_seconds t) in
      \<lparr>x_dropped = sDropped s, x_evicted = sEvicted s, x_truncated = sTruncated s,
       x_flushed_batches = sFlushedBatches s, x_flushed_items = sFlushedItems s, x_flush_errors = sFlushErrors s,
       x_bytes_flushed = sBytesFlushed s, x_coalesced_ticks = sCoalescedTicks s, x_queue_depth = sQueueDepth s,
       x_queue_capacity = sQueueCap s, x_last_flush_unix = lastFlush\<rparr>)"

text \<open>The registry of \<^verbatim>\<open>expvar.Publish\<close>, which panics on a name that is taken.\<close>

definition Publish :: "string \<Rightarrow> (unit \<Rightarrow> stats) \<Rightarrow> (string \<rightharpoonup> (unit \<Rightarrow> snapshot)) \<Rightarrow> (string \<rightharpoonup> (unit \<Rightarrow> snapshot)) go" where
  "Publish name stats reg =
     (if reg name \<noteq> None then Panics (PanicMsg (''Reuse of exported var name: '' @ name))
      else Ret (reg(name \<mapsto> (\<lambda>_. Var (stats ())))))"

text \<open>The JSON object that a read of the variable renders: the tags of the struct with its values.\<close>

definition json_of :: "snapshot \<Rightarrow> (string \<times> int) list" where
  "json_of x =
     [(''dropped'', uint (x_dropped x)), (''evicted'', uint (x_evicted x)), (''truncated'', uint (x_truncated x)),
      (''flushed_batches'', uint (x_flushed_batches x)), (''flushed_items'', uint (x_flushed_items x)),
      (''flush_errors'', uint (x_flush_errors x)), (''bytes_flushed'', uint (x_bytes_flushed x)),
      (''coalesced_ticks'', uint (x_coalesced_ticks x)), (''queue_depth'', uint (x_queue_depth x)),
      (''queue_capacity'', uint (x_queue_capacity x)), (''last_flush_unix'', x_last_flush_unix x)]"

section \<open>Properties\<close>

text \<open>What is to be exported of a batcher: the name and kind of the Prometheus metric, the key of the expvar
  object, and the value of the batcher's own method.\<close>

definition exported :: "('a, 's) Batcher \<Rightarrow> (string \<times> valueType \<times> string \<times> int) list" where
  "exported b =
     [(''dropped_total'', CounterValue, ''dropped'', uint (DroppedCount b)),
      (''evicted_total'', CounterValue, ''evicted'', uint (EvictedCount b)),
      (''truncated_total'', CounterValue, ''truncated'', uint (TruncatedCount b)),
      (''flushed_batches_total'', CounterValue, ''flushed_batches'', uint (FlushedBatches b)),
      (''flushed_items_total'', CounterValue, ''flushed_items'', uint (FlushedItems b)),
      (''flush_errors_total'', CounterValue, ''flush_errors'', uint (FlushErrorCount b)),
      (''bytes_flushed_total'', CounterValue, ''bytes_flushed'', uint (BytesFlushed b)),
      (''coalesced_ticks_total'', CounterValue, ''coalesced_ticks'', uint (CoalescedTicks b)),
      (''queue_depth'', GaugeValue, ''queue_depth'', uint (QueueDepth b)),
      (''queue_capacity'', GaugeValue, ''queue_capacity'', uint (QueueCap b)),
      (''last_flush_timestamp_seconds'', GaugeValue, ''last_flush_unix'',
        (case LastFlushAt b of None \<Rightarrow> 0 | Some t \<Rightarrow> unix_seconds t))]"

text \<open>What a monitoring system finds under a name in a scrape.\<close>

definition scraped :: "'f metric list \<Rightarrow> string \<rightharpoonup> valueType \<times> 'f" where
  "scraped ms = map_of (map (\<lambda>(d, k, v). (fqName d, k, v)) ms)"

lemma map_of_inj_key: "inj f \<Longrightarrow> map_of (map (\<lambda>(k, v). (f k, v)) xs) (f k) = map_of xs k"
  by (induction xs) (auto dest: injD)

lemmas counter_methods = DroppedCount_def EvictedCount_def TruncatedCount_def FlushedBatches_def FlushedItems_def
  FlushErrorCount_def BytesFlushed_def CoalescedTicks_def

lemma scraped_exported:
  "map (\<lambda>(d, k, v). (fqName d, k, v)) (Collect_prom float64 (NewCollector buildFQName ns) (Stats b)) =
   map (\<lambda>(n, kv). (buildFQName ns ''tickbatch'' n, kv)) (map (\<lambda>(n, k, key, v). (n, k, float64 v)) (exported b))"
  by (simp add: Collect_prom_def NewCollector_def exported_def Stats_def counter_methods Let_def split: option.split)

lemma json_exported: "json_of (Var (Stats b)) = map (\<lambda>(n, k, key, v). (key, v)) (exported b)"
  by (simp add: json_of_def Var_def exported_def Stats_def counter_methods Let_def split: option.split)

lemma exported_distinct: "distinct (map fst (exported b))" "distinct (map (\<lambda>(n, k, key, v). key) (exported b))"
  by (simp_all add: exported_def)

text \<open>
  C33: the exporters tell the truth, metric by metric. For a name builder of the client that is
  injective, a scrape finds under each metric name exactly the kind and the value of the counter that
  the name stands for (\<^verbatim>\<open>dropped_total\<close> is \<^verbatim>\<open>DroppedCount\<close>, and so on for all eleven), and a read of the expvar
  variable finds the same value under the corresponding key; neither exports anything else; and what
  is collected is what was described, in that order.
\<close>

theorem exporters_agree:
  assumes "inj (buildFQName ns ''tickbatch'')"
  shows "let c = NewCollector buildFQName ns; ms = Collect_prom float64 c (Stats b) in
    (\<forall>(name, kind, key, v) \<in> set (exported b).
       scraped ms (buildFQName ns ''tickbatch'' name) = Some (kind, float64 v) \<and> map_of (json_of (Var (Stats b))) key = Some v) \<and>
    dom (scraped ms) = buildFQName ns ''tickbatch'' ` fst ` set (exported b) \<and>
    dom (map_of (json_of (Var (Stats b)))) = (\<lambda>(n, k, key, v). key) ` set (exported b) \<and>
    map fst ms = Describe c"
proof -
  let ?fq = "buildFQName ns ''tickbatch''" and ?ms = "Collect_prom float64 (NewCollector buildFQName ns) (Stats b)"
  let ?kv = "map (\<lambda>(n, k, key, v). (n, k, float64 v)) (exported b)"
  have sc: "scraped ?ms = map_of (map (\<lambda>(n, kv). (?fq n, kv)) ?kv)" by (simp only: scraped_def scraped_exported)
  have "scraped ?ms (?fq name) = Some (kind, float64 v) \<and> map_of (json_of (Var (Stats b))) key = Some v"
    if "(name, kind, key, v) \<in> set (exported b)" for name kind key v
  proof -
    have "(name, kind, float64 v) \<in> set ?kv" "(key, v) \<in> set (json_of (Var (Stats b)))"
      using that unfolding json_exported by force+
    moreover have "distinct (map fst ?kv)" "distinct (map fst (json_of (Var (Stats b))))"
      using exported_distinct [of b] by (simp_all add: json_exported comp_def case_prod_unfold)
    ultimately show ?thesis unfolding sc map_of_inj_key [OF assms] by (simp add: map_of_is_SomeI)
  qed
  moreover have "dom (scraped ?ms) = ?fq ` fst ` set (exported b)"
    unfolding sc dom_map_of_conv_image_fst by (force simp: image_iff)
  moreover have "dom (map_of (json_of (Var (Stats b)))) = (\<lambda>(n, k, key, v). key) ` set (exported b)"
    unfolding json_exported dom_map_of_conv_image_fst by (force simp: image_iff)
  moreover have "map fst ?ms = Describe (NewCollector buildFQName ns)"
    by (simp add: Collect_prom_def Describe_def Let_def)
  ultimately show ?thesis unfolding Let_def by blast
qed

text \<open>A name builder that joins the parts with underscores, as the client documents.\<close>

definition join_names :: "string \<Rightarrow> string \<Rightarrow> string \<Rightarrow> string" where
  "join_names a b c = a @ ''_'' @ b @ ''_'' @ c"

theorem exporters_agree_witness:
  "\<exists>b. New (0::nat) 4 small_config = Ret (Inr b) \<and>
     (let ms = Collect_prom (\<lambda>i. i) (NewCollector join_names ''app'') (Stats b) in
      scraped ms ''app_tickbatch_queue_capacity'' = Some (GaugeValue, uint (QueueCap b)) \<and>
      map_of (json_of (Var (Stats b))) ''queue_capacity'' = Some (uint (QueueCap b)))"
proof -
  obtain b where b: "New (0::nat) 4 small_config = Ret (Inr b)" using small_batcher by blast
  have "inj (join_names ''app'' ''tickbatch'')" by (simp add: inj_def join_names_def)
  note ag = exporters_agree [of join_names "''app''" "\<lambda>i. i" b, OF this, unfolded Let_def, THEN conjunct1]
  have "(''queue_capacity'', GaugeValue, ''queue_capacity'', uint (QueueCap b)) \<in> set (exported b)"
    by (simp add: exported_def)
  from bspec [OF ag this] b show ?thesis by (auto simp: Let_def join_names_def)
qed

end
